(* ===== verification/Prelude.thy ===== *)
theory Prelude
  imports "HOL-Library.Word"
begin

text \<open>
  Shared vocabulary of the development: the machine types of the 32-bit target, the error numbers
  the system calls return, arithmetic on \<open>usize\<close> with its wrap-around written out (the release
  profile has no overflow checks), and the generic facts about lists, slot tables and rings that
  the component theories rest on.

  A \<open>usize\<close> is a natural number below \<open>2 ^ 32\<close>; \<open>u8\<close>, \<open>u32\<close>, \<open>i32\<close> values that are masked,
  shifted or returned to user space are machine words.
\<close>

unbundle bit_operations_syntax

section \<open>Named collections\<close>

named_theorems inv_simps \<open>component invariants, unfolded\<close>
named_theorems inv_pres \<open>operations that preserve a component invariant\<close>
named_theorems const_defs \<open>constants of the sources\<close>

section \<open>Machine types\<close>

type_synonym u8 = "8 word"
type_synonym u16 = "16 word"
type_synonym u32 = "32 word"
type_synonym u64 = "64 word"
type_synonym i32 = "32 word"
type_synonym usize = nat
type_synonym pid = nat

text \<open>Outcome of a fallible operation: \<open>Inl\<close> an error number, \<open>Inr\<close> a value.\<close>

type_synonym 'a res = "int + 'a"

section \<open>Error numbers\<close>

abbreviation EPERM :: int where "EPERM \<equiv> -1"
abbreviation ENOENT :: int where "ENOENT \<equiv> -2"
abbreviation ESRCH :: int where "ESRCH \<equiv> -3"
abbreviation EBADF :: int where "EBADF \<equiv> -9"
abbreviation ECHILD :: int where "ECHILD \<equiv> -10"
abbreviation EAGAIN :: int where "EAGAIN \<equiv> -11"
abbreviation ENOMEM :: int where "ENOMEM \<equiv> -12"
abbreviation EACCES :: int where "EACCES \<equiv> -13"
abbreviation EFAULT :: int where "EFAULT \<equiv> -14"
abbreviation EINVAL :: int where "EINVAL \<equiv> -22"
abbreviation ENFILE :: int where "ENFILE \<equiv> -23"
abbreviation EMFILE :: int where "EMFILE \<equiv> -24"
abbreviation EPIPE :: int where "EPIPE \<equiv> -32"

text \<open>A syscall result in \<open>r0\<close>: \<open>0u32.wrapping_sub(e)\<close> is the error number as a word.\<close>

abbreviation err :: "int \<Rightarrow> u32" where "err e \<equiv> of_int e"

section \<open>Arithmetic on usize\<close>

definition USIZE_MOD :: nat where
  "USIZE_MOD = 4294967296"

definition uadd :: "usize \<Rightarrow> usize \<Rightarrow> usize" where
  "uadd a b = (a + b) mod USIZE_MOD"

definition usub :: "usize \<Rightarrow> usize \<Rightarrow> usize" where
  "usub a b = (a + (USIZE_MOD - b mod USIZE_MOD)) mod USIZE_MOD"

definition umul :: "usize \<Rightarrow> usize \<Rightarrow> usize" where
  "umul a b = (a * b) mod USIZE_MOD"

definition checked_add :: "usize \<Rightarrow> usize \<Rightarrow> usize option" where
  "checked_add a b = (if a + b < USIZE_MOD then Some (a + b) else None)"

definition saturating_add :: "usize \<Rightarrow> usize \<Rightarrow> usize" where
  "saturating_add a b = min (a + b) (USIZE_MOD - 1)"

definition div_ceil :: "nat \<Rightarrow> nat \<Rightarrow> nat" where
  "div_ceil a b = (a + b - 1) div b"

lemma USIZE_MOD_val [const_defs]: "USIZE_MOD = 4294967296"
  by (simp add: USIZE_MOD_def)

lemma uadd_exact [simp]: "a + b < USIZE_MOD \<Longrightarrow> uadd a b = a + b"
  by (simp add: uadd_def)

lemma usub_exact [simp]:
  assumes "b \<le> a" "a < USIZE_MOD"
  shows "usub a b = a - b"
proof -
  have b: "b mod USIZE_MOD = b" using assms by simp
  have "a + (USIZE_MOD - b) = (a - b) + USIZE_MOD"
    using assms by simp
  then have "usub a b = (a - b + USIZE_MOD) mod USIZE_MOD"
    unfolding usub_def b by (rule arg_cong)
  also have "\<dots> = (a - b) mod USIZE_MOD" by (rule mod_add_self2)
  finally show ?thesis
    using assms by (simp add: less_imp_diff_less)
qed

lemma umul_exact [simp]: "a * b < USIZE_MOD \<Longrightarrow> umul a b = a * b"
  by (simp add: umul_def)

lemma uadd_less [simp]: "uadd a b < USIZE_MOD"
  by (simp add: uadd_def USIZE_MOD_def)

lemma checked_add_Some_iff [simp]:
  "checked_add a b = Some c \<longleftrightarrow> c = a + b \<and> a + b < USIZE_MOD"
  by (auto simp: checked_add_def)

lemma checked_add_None_iff [simp]:
  "checked_add a b = None \<longleftrightarrow> USIZE_MOD \<le> a + b"
  by (auto simp: checked_add_def)

section \<open>Memory map of the boards\<close>

definition RAM_START :: usize where
  "RAM_START = 0x40000000"

definition RAM_END :: usize where
  "RAM_END = 0x80000000"

definition KERNEL_LOAD :: usize where
  "KERNEL_LOAD = 0x40008000"

definition KERNEL_RESERVED :: usize where
  "KERNEL_RESERVED = 0x1F8000"

definition KERNEL_END :: usize where
  "KERNEL_END = KERNEL_LOAD + KERNEL_RESERVED"

definition USER_TEXT_BASE :: usize where
  "USER_TEXT_BASE = 0x7FF00000"

lemma memory_map [const_defs]:
  "RAM_START = 0x40000000" "RAM_END = 0x80000000" "KERNEL_LOAD = 0x40008000"
  "KERNEL_RESERVED = 0x1F8000" "KERNEL_END = 0x40200000" "USER_TEXT_BASE = 0x7FF00000"
  by (simp_all add: RAM_START_def RAM_END_def KERNEL_LOAD_def KERNEL_RESERVED_def KERNEL_END_def
      USER_TEXT_BASE_def)

section \<open>Byte-addressed memory\<close>

type_synonym mem = "usize \<Rightarrow> u8"

text \<open>A little-endian 32-bit store.\<close>

definition store32 :: "mem \<Rightarrow> usize \<Rightarrow> u32 \<Rightarrow> mem" where
  "store32 m a v = m (a := ucast v, uadd a 1 := ucast (drop_bit 8 v),
     uadd a 2 := ucast (drop_bit 16 v), uadd a 3 := ucast (drop_bit 24 v))"

lemma store32_zero:
  assumes "a + 4 \<le> USIZE_MOD"
  shows "store32 m a 0 = (\<lambda>x. if a \<le> x \<and> x < a + 4 then 0 else m x)"
  using assms by (auto simp: store32_def fun_eq_iff)

section \<open>Single-bit masks\<close>

lemma mask_bit_test:
  fixes w :: "'a::len word"
  assumes "n < LENGTH('a)"
  shows "w AND push_bit n 1 = 0 \<longleftrightarrow> \<not> bit w n"
proof -
  have "w AND push_bit n 1 = (if bit w n then push_bit n 1 else 0)"
    by (rule bit_eqI) (auto simp: bit_and_iff bit_exp_iff)
  moreover have "bit (push_bit n (1 :: 'a word)) n" using assms by (simp add: bit_exp_iff)
  then have "push_bit n (1 :: 'a word) \<noteq> 0" by (metis bit_0_eq bot_apply bot_bool_def)
  ultimately show ?thesis by simp
qed

lemma bit_or_mask:
  fixes w :: "'a::len word"
  shows "n < LENGTH('a) \<Longrightarrow> bit (w OR push_bit n 1) i \<longleftrightarrow> i = n \<or> bit w i"
  by (auto simp: bit_or_iff bit_exp_iff)

lemma bit_and_not_mask:
  fixes w :: "'a::len word"
  shows "bit (w AND NOT (push_bit n 1)) i \<longleftrightarrow> i \<noteq> n \<and> bit w i"
  by (auto simp: bit_and_iff bit_not_iff bit_exp_iff dest: bit_imp_le_length)

section \<open>First index of a list with a property\<close>

text \<open>The scan every slot table of the kernel performs: \<open>iter().enumerate()\<close> up to the first
  entry that satisfies the condition.\<close>

fun find_index :: "('a \<Rightarrow> bool) \<Rightarrow> 'a list \<Rightarrow> nat option" where
  "find_index P [] = None"
| "find_index P (x # xs) = (if P x then Some 0 else map_option Suc (find_index P xs))"

lemma find_index_None_iff [simp]:
  "find_index P xs = None \<longleftrightarrow> (\<forall>x\<in>set xs. \<not> P x)"
  by (induction xs) auto

lemma find_index_is_none: "find_index Option.is_none xs = None \<longleftrightarrow> None \<notin> set xs"
  by (induction xs) (auto simp: Option.is_none_def simp del: not_None_eq)

lemma find_index_SomeD:
  assumes "find_index P xs = Some i"
  shows "i < length xs \<and> P (xs ! i) \<and> (\<forall>j<i. \<not> P (xs ! j))"
  using assms
proof (induction xs arbitrary: i)
  case (Cons x xs)
  then show ?case
    by (cases i) (auto split: if_splits simp: nth_Cons split: nat.splits)
qed simp

lemmas find_index_Some_less = find_index_SomeD [THEN conjunct1]
lemmas find_index_Some_P = find_index_SomeD [THEN conjunct2, THEN conjunct1]

lemma find_index_SomeI:
  assumes "i < length xs" "P (xs ! i)" "\<And>j. j < i \<Longrightarrow> \<not> P (xs ! j)"
  shows "find_index P xs = Some i"
  using assms
proof (induction xs arbitrary: i)
  case (Cons x xs)
  show ?case
  proof (cases i)
    case 0
    with Cons.prems show ?thesis by simp
  next
    case (Suc k)
    have "\<not> P x" using Cons.prems(3) [of 0] Suc by simp
    moreover have "find_index P xs = Some k"
      using Cons.prems Suc by (intro Cons.IH) force+
    ultimately show ?thesis using Suc by simp
  qed
qed simp

lemma find_upt_Some:
  "find P [0..<n] = Some m \<longleftrightarrow> m < n \<and> P m \<and> (\<forall>k<m. \<not> P k)"
  by (auto simp: find_Some_iff)

lemma find_upt_None: "find P [0..<n] = None \<longleftrightarrow> (\<forall>k<n. \<not> P k)"
  by (auto simp: find_None_iff)

lemma find_append: "find P (xs @ ys) = (case find P xs of None \<Rightarrow> find P ys | Some x \<Rightarrow> Some x)"
  by (induction xs) simp_all

section \<open>Counting entries of a list\<close>

definition count_if :: "('a \<Rightarrow> bool) \<Rightarrow> 'a list \<Rightarrow> nat" where
  "count_if P xs = length (filter P xs)"

lemma count_if_Nil [simp]: "count_if P [] = 0"
  by (simp add: count_if_def)

lemma count_if_Cons [simp]: "count_if P (x # xs) = (if P x then Suc (count_if P xs) else count_if P xs)"
  by (simp add: count_if_def)

lemma count_if_append [simp]: "count_if P (xs @ ys) = count_if P xs + count_if P ys"
  by (simp add: count_if_def)

lemma count_if_replicate [simp]: "count_if P (replicate n x) = (if P x then n else 0)"
  by (induction n) auto

lemma count_if_le_length: "count_if P xs \<le> length xs"
  by (simp add: count_if_def)

lemma count_if_update:
  assumes "i < length xs"
  shows "count_if P (xs[i := y]) + (if P (xs ! i) then 1 else 0) = count_if P xs + (if P y then 1 else 0)"
  using assms
proof (induction xs arbitrary: i)
  case (Cons x xs)
  then show ?case by (cases i) auto
qed simp

lemma count_if_pos: "i < length xs \<Longrightarrow> P (xs ! i) \<Longrightarrow> 0 < count_if P xs"
  by (auto simp: count_if_def filter_empty_conv set_conv_nth)

lemma count_if_zero_iff: "count_if P xs = 0 \<longleftrightarrow> (\<forall>x\<in>set xs. \<not> P x)"
  by (auto simp: count_if_def filter_empty_conv)

lemma count_if_cong: "(\<And>x. x \<in> set xs \<Longrightarrow> P x = Q x) \<Longrightarrow> count_if P xs = count_if Q xs"
  by (simp add: count_if_def cong: filter_cong)

section \<open>Rings\<close>

text \<open>\<open>ring_items buf start n\<close> reads \<open>n\<close> consecutive entries of a ring, oldest first.\<close>

definition ring_items :: "'a list \<Rightarrow> nat \<Rightarrow> nat \<Rightarrow> 'a list" where
  "ring_items buf start n = map (\<lambda>i. buf ! ((start + i) mod length buf)) [0..<n]"

lemma length_ring_items [simp]: "length (ring_items buf start n) = n"
  by (simp add: ring_items_def)

lemma ring_items_0 [simp]: "ring_items buf start 0 = []"
  by (simp add: ring_items_def)

lemma ring_items_nth: "i < n \<Longrightarrow> ring_items buf start n ! i = buf ! ((start + i) mod length buf)"
  by (simp add: ring_items_def)

lemma ring_items_Suc_front:
  assumes "start < length buf"
  shows "ring_items buf start (Suc n) = buf ! start # ring_items buf (Suc start mod length buf) n"
  using assms by (intro nth_equalityI) (auto simp: ring_items_def nth_Cons mod_simps simp del: upt_Suc split: nat.splits)

lemma ring_slot_inj:
  fixes a i j N :: nat
  assumes "i < N" "j < N" "(a + i) mod N = (a + j) mod N"
  shows "i = j"
proof -
  have "int (a + i) mod int N = int (a + j) mod int N"
    using assms(3) by (metis of_nat_mod)
  then have "int i mod int N = int j mod int N"
    by (smt (verit) mod_add_left_eq mod_diff_left_eq of_nat_add mod_diff_cong)
  then show ?thesis
    using assms(1,2) by simp
qed

lemma ring_slot_next:
  assumes "Suc i < N" "start < N"
  shows "Suc (start + i) mod N \<noteq> start"
proof
  assume "Suc (start + i) mod N = start"
  then have "(start + Suc i) mod N = (start + 0) mod N" using assms(2) by simp
  then have "Suc i = 0" using assms by (intro ring_slot_inj [of "Suc i" N 0 start]) auto
  then show False by simp
qed

lemma ring_items_drop_head:
  assumes "n < length buf" "start < length buf"
  shows "ring_items (buf[start := x]) (Suc start mod length buf) n = ring_items buf (Suc start mod length buf) n"
proof (rule nth_equalityI)
  fix i assume i: "i < length (ring_items (buf[start := x]) (Suc start mod length buf) n)"
  then have "Suc (start + i) mod length buf \<noteq> start"
    using assms by (intro ring_slot_next) auto
  then have "(Suc start mod length buf + i) mod length buf \<noteq> start"
    by (simp add: mod_simps)
  then show "ring_items (buf[start := x]) (Suc start mod length buf) n ! i =
      ring_items buf (Suc start mod length buf) n ! i"
    using i by (simp add: ring_items_nth)
qed simp

lemma ring_items_push:
  assumes "n < length buf"
  shows "ring_items (buf[(start + n) mod length buf := x]) start (Suc n) = ring_items buf start n @ [x]"
proof (rule nth_equalityI)
  fix i assume i: "i < length (ring_items (buf[(start + n) mod length buf := x]) start (Suc n))"
  have len: "0 < length buf" using assms by linarith
  show "ring_items (buf[(start + n) mod length buf := x]) start (Suc n) ! i = (ring_items buf start n @ [x]) ! i"
  proof (cases "i = n")
    case True
    then show ?thesis using len by (simp add: ring_items_nth nth_append)
  next
    case False
    then have "i < n" using i by simp
    moreover have "(start + n) mod length buf \<noteq> (start + i) mod length buf"
      using ring_slot_inj [of n "length buf" i start] assms calculation by auto
    ultimately show ?thesis
      using len by (simp add: ring_items_nth nth_append)
  qed
qed simp

section \<open>Bounded first-in first-out queues\<close>

text \<open>
  The contract of a bounded queue: \<open>items\<close> is the abstract content, \<open>push\<close> appends unless the
  queue holds \<open>cap\<close> elements and then reports failure and changes nothing, \<open>pop\<close> removes the
  oldest element.
\<close>

locale bounded_fifo =
  fixes push :: "'a \<Rightarrow> 'q \<Rightarrow> bool \<times> 'q"
    and pop :: "'q \<Rightarrow> 'a option \<times> 'q"
    and items :: "'q \<Rightarrow> 'a list"
    and invar :: "'q \<Rightarrow> bool"
    and cap :: nat
  assumes push_ok: "\<lbrakk>invar q; length (items q) < cap\<rbrakk>
      \<Longrightarrow> fst (push x q) \<and> items (snd (push x q)) = items q @ [x]"
    and push_full: "\<lbrakk>invar q; \<not> length (items q) < cap\<rbrakk> \<Longrightarrow> push x q = (False, q)"
    and pop_empty: "\<lbrakk>invar q; items q = []\<rbrakk> \<Longrightarrow> pop q = (None, q)"
    and pop_cons: "\<lbrakk>invar q; items q = x # xs\<rbrakk>
      \<Longrightarrow> fst (pop q) = Some x \<and> items (snd (pop q)) = xs"
    and invar_push: "invar q \<Longrightarrow> invar (snd (push x q))"
    and invar_pop: "invar q \<Longrightarrow> invar (snd (pop q))"
    and items_bound: "invar q \<Longrightarrow> length (items q) \<le> cap"
begin

fun push_all :: "'a list \<Rightarrow> 'q \<Rightarrow> nat \<times> 'q" where
  "push_all [] q = (0, q)"
| "push_all (x # xs) q =
    (let (ok, q') = push x q in
     if ok then (let (n, q'') = push_all xs q' in (Suc n, q'')) else (0, q'))"

fun pop_n :: "nat \<Rightarrow> 'q \<Rightarrow> 'a list \<times> 'q" where
  "pop_n 0 q = ([], q)"
| "pop_n (Suc n) q =
    (case pop q of (None, q') \<Rightarrow> ([], q') | (Some x, q') \<Rightarrow> (let (xs, q'') = pop_n n q' in (x # xs, q'')))"

lemma push_items: 
  assumes "invar q"
  shows "items (snd (push x q)) = (if length (items q) < cap then items q @ [x] else items q)"
    and "fst (push x q) \<longleftrightarrow> length (items q) < cap"
  using push_ok [OF assms, of x] push_full [OF assms, of x]
  by (cases "length (items q) < cap"; simp)+

lemma pop_result:
  assumes "invar q"
  shows "fst (pop q) = (case items q of [] \<Rightarrow> None | x # _ \<Rightarrow> Some x)"
    and "items (snd (pop q)) = tl (items q)"
  using pop_empty [OF assms] pop_cons [OF assms] by (cases "items q"; simp)+

lemma push_all_items:
  assumes "invar q"
  shows "invar (snd (push_all xs q)) \<and>
    fst (push_all xs q) = min (length xs) (cap - length (items q)) \<and>
    items (snd (push_all xs q)) = items q @ take (cap - length (items q)) xs"
  using assms
proof (induction xs arbitrary: q)
  case (Cons x xs)
  obtain ok q' where p: "push x q = (ok, q')" by fastforce
  show ?case
  proof (cases "length (items q) < cap")
    case True
    then have q': "ok" "items q' = items q @ [x]" "invar q'"
      using push_ok [OF Cons.prems, of x] invar_push [OF Cons.prems, of x] p by auto
    have "cap - length (items q) = Suc (cap - length (items q'))"
      using True q' by simp
    then show ?thesis
      using Cons.IH [OF q'(3)] p q' by (auto simp: split_beta)
  next
    case False
    then show ?thesis
      using push_full [OF Cons.prems, of x] p Cons.prems by simp
  qed
qed simp

lemma pop_n_items:
  assumes "invar q"
  shows "invar (snd (pop_n n q)) \<and> fst (pop_n n q) = take n (items q) \<and>
    items (snd (pop_n n q)) = drop n (items q)"
  using assms
proof (induction n arbitrary: q)
  case (Suc n)
  obtain r q' where p: "pop q = (r, q')" by fastforce
  show ?case
  proof (cases "items q")
    case Nil
    then show ?thesis using pop_empty [OF Suc.prems] Suc.prems p by simp
  next
    case (Cons x xs)
    then have "r = Some x" "items q' = xs" "invar q'"
      using pop_cons [OF Suc.prems Cons] invar_pop [OF Suc.prems] p by auto
    then show ?thesis using Suc.IH [of q'] p Cons by (auto simp: split_beta)
  qed
qed simp

text \<open>Everything accepted comes out again, in order.\<close>

lemma push_all_pop_n:
  assumes "invar q" "items q = []" "length xs \<le> cap"
  shows "fst (pop_n (length xs) (snd (push_all xs q))) = xs"
  using push_all_items [OF assms(1), of xs] pop_n_items assms(2,3) by simp

end

section \<open>Simulation of operation sequences\<close>

text \<open>
  A detailed component implements an abstract one when every operation returns the same output
  and commutes with the abstraction on states that satisfy the invariant; then every sequence
  of operations does.
\<close>

fun run_ops :: "('op \<Rightarrow> 's \<Rightarrow> 'out \<times> 's) \<Rightarrow> 'op list \<Rightarrow> 's \<Rightarrow> 'out list \<times> 's" where
  "run_ops step [] s = ([], s)"
| "run_ops step (x # xs) s = (let (y, s') = step x s; (ys, s'') = run_ops step xs s' in (y # ys, s''))"

locale simulation =
  fixes step :: "'op \<Rightarrow> 's \<Rightarrow> 'out \<times> 's"
    and spec :: "'op \<Rightarrow> 'a \<Rightarrow> 'out \<times> 'a"
    and abs_of :: "'s \<Rightarrow> 'a"
    and invar :: "'s \<Rightarrow> bool"
  assumes step_invar: "invar s \<Longrightarrow> invar (snd (step x s))"
    and step_out: "invar s \<Longrightarrow> fst (step x s) = fst (spec x (abs_of s))"
    and step_abs: "invar s \<Longrightarrow> abs_of (snd (step x s)) = snd (spec x (abs_of s))"
begin

lemma run_refines:
  assumes "invar s"
  shows "fst (run_ops step xs s) = fst (run_ops spec xs (abs_of s)) \<and>
    abs_of (snd (run_ops step xs s)) = snd (run_ops spec xs (abs_of s)) \<and>
    invar (snd (run_ops step xs s))"
  using assms
proof (induction xs arbitrary: s)
  case (Cons x xs)
  show ?case
    using Cons.IH [OF step_invar [OF Cons.prems, of x]] step_out [OF Cons.prems, of x]
      step_abs [OF Cons.prems, of x]
    by (simp add: split_beta)
qed simp

end

end
