(* ===== verification/Page.thy ===== *)
theory Page
  imports Prelude
begin

text \<open>
  The physical page allocator of \<open>src/crates/thumos/src/page.rs\<close>: one bit per frame (1 =
  allocated) in an array of 8192 words, a free counter, and the scrub of every frame on its way
  back to the pool. The module's statics are the fields of \<open>page_state\<close>; \<open>phys_mem\<close> is the
  physical memory the volatile zeroing writes. The bitmap is related to the set of free frame
  numbers (\<open>free_set\<close>), the counter to its cardinality, and the interface \<open>frame_allocator\<close> states
  what the rest of the kernel relies on; it is interpreted on \<open>alloc_page\<close> and \<open>try_free_page\<close>.
\<close>

section \<open>State\<close>

definition PAGE_SIZE :: nat where
  "PAGE_SIZE = 4096"

definition MAX_PAGES :: nat where
  "MAX_PAGES = 1024 * 1024 * 1024 div PAGE_SIZE"

record page_state =
  page_bitmap :: "u32 list"
  free_pages :: usize
  first_page :: usize
  usable_start_page :: usize
  usable_end_page :: usize
  phys_mem :: mem

lemma PAGE_SIZE_val [const_defs]: "PAGE_SIZE = 4096"
  by (simp add: PAGE_SIZE_def)

lemma MAX_PAGES_val [const_defs]: "MAX_PAGES = 262144"
  by (simp add: MAX_PAGES_def PAGE_SIZE_def)

section \<open>Bits of the bitmap\<close>

definition page_bit :: "u32 list \<Rightarrow> nat \<Rightarrow> bool" where
  "page_bit bm p = bit (bm ! (p div 32)) (p mod 32)"

definition bitmap_set :: "u32 list \<Rightarrow> nat \<Rightarrow> u32 list" where
  "bitmap_set bm p = bm[p div 32 := (bm ! (p div 32)) OR push_bit (p mod 32) 1]"

definition bitmap_clear :: "u32 list \<Rightarrow> nat \<Rightarrow> u32 list" where
  "bitmap_clear bm p = bm[p div 32 := (bm ! (p div 32)) AND NOT (push_bit (p mod 32) 1)]"

definition trailing_ones :: "u32 \<Rightarrow> nat" where
  "trailing_ones w = length (takeWhile (\<lambda>i. bit w i) [0..<32])"

section \<open>Operations\<close>

definition align_down :: "usize \<Rightarrow> usize" where
  "align_down a = a div PAGE_SIZE * PAGE_SIZE"

text \<open>\<open>page_init\<close> panics (here \<open>None\<close>) when the managed range runs past the bitmap.\<close>

definition page_init :: "usize \<Rightarrow> usize \<Rightarrow> usize \<Rightarrow> page_state \<Rightarrow> page_state option" where
  "page_init ram_start ram_end kernel_end s =
    (let usable_start = align_down (uadd kernel_end (PAGE_SIZE - 1));
         usable_end = align_down ram_end;
         total = usub usable_end usable_start div PAGE_SIZE;
         start_page = usub usable_start ram_start div PAGE_SIZE;
         end_page = usub usable_end ram_start div PAGE_SIZE
     in if start_page < end_page \<and> MAX_PAGES < end_page then None
        else Some (s\<lparr>first_page := ram_start, free_pages := total,
               usable_start_page := start_page, usable_end_page := end_page,
               page_bitmap := fold (\<lambda>p bm. bitmap_clear bm p) [start_page..<end_page]
                 (replicate (MAX_PAGES div 32) 0xFFFFFFFF)\<rparr>))"

definition zero_page :: "usize \<Rightarrow> mem \<Rightarrow> mem" where
  "zero_page addr m = fold (\<lambda>i m. store32 m (uadd addr (i * 4)) 0) [0..<PAGE_SIZE div 4] m"

definition zero_page_range :: "usize \<Rightarrow> usize \<Rightarrow> usize \<Rightarrow> mem \<Rightarrow> usize \<times> mem" where
  "zero_page_range first start_page end_page m =
    fold (\<lambda>p (z, m). (z + 1, zero_page (uadd first (umul p PAGE_SIZE)) m)) [start_page..<end_page] (0, m)"

definition zero_usable_range :: "page_state \<Rightarrow> usize \<times> page_state" where
  "zero_usable_range s =
    (let (z, m) = zero_page_range (first_page s) (usable_start_page s) (usable_end_page s) (phys_mem s)
     in (z, s\<lparr>phys_mem := m\<rparr>))"

definition alloc_page :: "page_state \<Rightarrow> usize option \<times> page_state" where
  "alloc_page s =
    (if free_pages s = 0 then (None, s)
     else case find_index (\<lambda>w. w \<noteq> 0xFFFFFFFF) (page_bitmap s) of
       None \<Rightarrow> (None, s)
     | Some word_idx \<Rightarrow>
        (let b = trailing_ones (page_bitmap s ! word_idx);
             page_num = word_idx * 32 + b
         in (Some (uadd (first_page s) (umul page_num PAGE_SIZE)),
             s\<lparr>page_bitmap := (page_bitmap s)[word_idx := (page_bitmap s ! word_idx) OR push_bit b 1],
               free_pages := free_pages s - 1\<rparr>)))"

definition try_free_page :: "usize \<Rightarrow> page_state \<Rightarrow> bool \<times> page_state" where
  "try_free_page addr s =
    (if addr < first_page s then (False, s)
     else let offset = addr - first_page s in
       if offset mod PAGE_SIZE \<noteq> 0 then (False, s)
       else let page_num = offset div PAGE_SIZE; w = page_num div 32; b = page_num mod 32 in
         if length (page_bitmap s) \<le> w then (False, s)
         else if (page_bitmap s ! w) AND push_bit b 1 = 0 then (False, s)
         else (True, s\<lparr>phys_mem := zero_page addr (phys_mem s),
                 page_bitmap := (page_bitmap s)[w := (page_bitmap s ! w) AND NOT (push_bit b 1)],
                 free_pages := free_pages s + 1\<rparr>))"

text \<open>The first-fit scan of \<open>alloc_contiguous\<close>: the inner loop over the bits of a word carries
  the length and the start of the current run, and stops (\<open>Inl\<close>) when the run reaches \<open>n\<close>.\<close>

fun scan_bits :: "nat \<Rightarrow> u32 \<Rightarrow> nat \<Rightarrow> nat list \<Rightarrow> nat \<Rightarrow> nat \<Rightarrow> nat + (nat \<times> nat)" where
  "scan_bits n w word_idx [] run run_start = Inr (run, run_start)"
| "scan_bits n w word_idx (b # bs) run run_start =
    (if drop_bit b w AND 1 = 1 then scan_bits n w word_idx bs 0 run_start
     else let run_start' = (if run = 0 then word_idx * 32 + b else run_start) in
       if run + 1 = n then Inl run_start'
       else scan_bits n w word_idx bs (run + 1) run_start')"

fun scan_words :: "nat \<Rightarrow> u32 list \<Rightarrow> nat \<Rightarrow> nat \<Rightarrow> nat \<Rightarrow> nat option" where
  "scan_words n [] word_idx run run_start = None"
| "scan_words n (w # ws) word_idx run run_start =
    (if w = 0xFFFFFFFF then scan_words n ws (word_idx + 1) 0 run_start
     else case scan_bits n w word_idx [0..<32] run run_start of
       Inl start \<Rightarrow> Some start
     | Inr (run', run_start') \<Rightarrow> scan_words n ws (word_idx + 1) run' run_start')"

definition alloc_contiguous :: "nat \<Rightarrow> page_state \<Rightarrow> usize option \<times> page_state" where
  "alloc_contiguous n s =
    (if n = 0 then (None, s)
     else if n = 1 then alloc_page s
     else if free_pages s < n then (None, s)
     else case scan_words n (page_bitmap s) 0 0 0 of
       None \<Rightarrow> (None, s)
     | Some run_start \<Rightarrow>
        (Some (uadd (first_page s) (umul run_start PAGE_SIZE)),
         s\<lparr>page_bitmap := fold (\<lambda>p bm. bitmap_set bm p) [run_start..<run_start + n] (page_bitmap s),
           free_pages := free_pages s - n\<rparr>))"

definition free_contiguous :: "usize \<Rightarrow> nat \<Rightarrow> page_state \<Rightarrow> bool \<times> page_state" where
  "free_contiguous addr n s =
    (if n = 0 then (False, s)
     else if n = 1 then try_free_page addr s
     else if addr < first_page s then (False, s)
     else let offset = addr - first_page s in
       if offset mod PAGE_SIZE \<noteq> 0 then (False, s)
       else let start = offset div PAGE_SIZE in
         if list_ex (\<lambda>p. length (page_bitmap s) \<le> p div 32 \<or>
              (page_bitmap s ! (p div 32)) AND push_bit (p mod 32) 1 = 0) [start..<uadd start n]
         then (False, s)
         else let (bm, m) = fold (\<lambda>p (bm, m).
                 (bitmap_clear bm p, zero_page (uadd (first_page s) (umul p PAGE_SIZE)) m))
                 [start..<uadd start n] (page_bitmap s, phys_mem s)
              in (True, s\<lparr>page_bitmap := bm, phys_mem := m, free_pages := uadd (free_pages s) n\<rparr>))"

definition free_page :: "usize \<Rightarrow> page_state \<Rightarrow> page_state" where
  "free_page addr s = snd (try_free_page addr s)"

definition free_count :: "page_state \<Rightarrow> usize" where
  "free_count s = free_pages s"

definition free_bytes :: "page_state \<Rightarrow> usize" where
  "free_bytes s = umul (free_count s) PAGE_SIZE"

section \<open>Abstraction and invariant\<close>

definition free_set :: "u32 list \<Rightarrow> nat set" where
  "free_set bm = {p. p < 32 * length bm \<and> \<not> page_bit bm p}"

text \<open>Physical address of frame \<open>p\<close>.\<close>

definition frame_addr :: "page_state \<Rightarrow> nat \<Rightarrow> usize" where
  "frame_addr s p = first_page s + p * PAGE_SIZE"

definition page_inv :: "page_state \<Rightarrow> bool" where
  "page_inv s \<longleftrightarrow> length (page_bitmap s) = MAX_PAGES div 32 \<and>
     free_pages s = card (free_set (page_bitmap s)) \<and>
     first_page s + MAX_PAGES * PAGE_SIZE \<le> USIZE_MOD"

definition free_frames :: "page_state \<Rightarrow> usize set" where
  "free_frames s = frame_addr s ` free_set (page_bitmap s)"

definition managed_frames :: "page_state \<Rightarrow> usize set" where
  "managed_frames s = frame_addr s ` {p. p < 32 * length (page_bitmap s)}"

section \<open>Facts about bits and words\<close>

lemma bit_shift_test:
  fixes w :: u32
  shows "drop_bit b w AND 1 = 1 \<longleftrightarrow> bit w b"
  by (simp add: and_one_eq bit_iff_odd_drop_bit odd_iff_mod_2_eq_one)

lemma word_full_bits: "(w :: u32) = 0xFFFFFFFF \<longleftrightarrow> (\<forall>b<32. bit w b)"
proof
  assume "w = 0xFFFFFFFF"
  then have "w = - 1" by simp
  then show "\<forall>b<32. bit w b" by simp
next
  assume "\<forall>b<32. bit w b"
  then have "w = - 1" by (intro bit_word_eqI) simp
  then show "w = 0xFFFFFFFF" by simp
qed

lemma trailing_ones_char:
  assumes "w \<noteq> 0xFFFFFFFF"
  shows "trailing_ones w < 32" "\<not> bit w (trailing_ones w)" "i < trailing_ones w \<Longrightarrow> bit w i"
proof -
  let ?t = "takeWhile (\<lambda>i. bit w i) [0..<32]"
  obtain b where b: "b < 32" "\<not> bit w b" using assms word_full_bits by auto
  show lt: "trailing_ones w < 32"
  proof (rule ccontr)
    assume "\<not> trailing_ones w < 32"
    then have "length ?t = length [0..<32]"
      using length_takeWhile_le [of "\<lambda>i. bit w i" "[0..<32]"] by (simp add: trailing_ones_def)
    then have "?t = [0..<32]" by (metis takeWhile_eq_take take_all order_refl)
    then have "\<forall>i\<in>set [0..<32]. bit w i" by (simp add: takeWhile_eq_all_conv)
    then show False using b by simp
  qed
  show "\<not> bit w (trailing_ones w)"
    using nth_length_takeWhile [of "\<lambda>i. bit w i" "[0..<32]"] lt by (simp add: trailing_ones_def)
  assume i: "i < trailing_ones w"
  then have "?t ! i \<in> set ?t" by (intro nth_mem) (simp add: trailing_ones_def)
  moreover have "?t ! i = i"
    using i lt by (simp add: trailing_ones_def takeWhile_nth)
  ultimately show "bit w i"
    by (metis set_takeWhileD)
qed

section \<open>The bitmap as a set of frame numbers\<close>

lemma length_bitmap_set [simp]: "length (bitmap_set bm p) = length bm"
  by (simp add: bitmap_set_def)

lemma length_bitmap_clear [simp]: "length (bitmap_clear bm p) = length bm"
  by (simp add: bitmap_clear_def)

lemma div_mod_32_eq_iff: "(p :: nat) div 32 = q div 32 \<and> p mod 32 = q mod 32 \<longleftrightarrow> p = q"
  by (metis div_mult_mod_eq)

lemma div_32_less: "p < 32 * n \<Longrightarrow> p div 32 < (n :: nat)"
  by (simp add: less_mult_imp_div_less mult.commute)

lemma page_bit_set:
  assumes "q < 32 * length bm"
  shows "page_bit (bitmap_set bm q) p \<longleftrightarrow> p = q \<or> page_bit bm p"
  using div_32_less [OF assms] div_mod_32_eq_iff [of p q]
  by (auto simp: page_bit_def bitmap_set_def nth_list_update bit_or_iff bit_exp_iff)

lemma page_bit_clear:
  assumes "q < 32 * length bm"
  shows "page_bit (bitmap_clear bm q) p \<longleftrightarrow> p \<noteq> q \<and> page_bit bm p"
  using div_32_less [OF assms] div_mod_32_eq_iff [of p q]
  by (auto simp: page_bit_def bitmap_clear_def nth_list_update bit_and_iff bit_not_iff bit_exp_iff)

lemma finite_free_set [simp]: "finite (free_set bm)"
  by (simp add: free_set_def)

lemma free_set_bitmap_set:
  "q < 32 * length bm \<Longrightarrow> free_set (bitmap_set bm q) = free_set bm - {q}"
  by (auto simp: free_set_def page_bit_set)

lemma free_set_bitmap_clear:
  "q < 32 * length bm \<Longrightarrow> free_set (bitmap_clear bm q) = insert q (free_set bm)"
  by (auto simp: free_set_def page_bit_clear)

lemma fold_bitmap_set:
  assumes "\<forall>p\<in>set ps. p < 32 * length bm"
  shows "length (fold (\<lambda>p bm. bitmap_set bm p) ps bm) = length bm \<and>
    free_set (fold (\<lambda>p bm. bitmap_set bm p) ps bm) = free_set bm - set ps"
  using assms by (induction ps arbitrary: bm) (auto simp: free_set_bitmap_set)

lemma fold_bitmap_clear:
  assumes "\<forall>p\<in>set ps. p < 32 * length bm"
  shows "length (fold (\<lambda>p bm. bitmap_clear bm p) ps bm) = length bm \<and>
    free_set (fold (\<lambda>p bm. bitmap_clear bm p) ps bm) = free_set bm \<union> set ps"
  using assms by (induction ps arbitrary: bm) (auto simp: free_set_bitmap_clear)

lemma free_set_full [simp]: "free_set (replicate n 0xFFFFFFFF) = {}"
proof -
  have "page_bit (replicate n 0xFFFFFFFF) p" if "p < 32 * n" for p
    using div_32_less [OF that] word_full_bits [of "0xFFFFFFFF"] by (simp add: page_bit_def)
  then show ?thesis by (auto simp: free_set_def)
qed

lemma free_set_test:
  assumes "p < 32 * length bm"
  shows "(bm ! (p div 32)) AND push_bit (p mod 32) 1 = 0 \<longleftrightarrow> p \<in> free_set bm"
  using assms mask_bit_test [of "p mod 32" "bm ! (p div 32)"] by (simp add: free_set_def page_bit_def)

lemma frame_addr_inj: "frame_addr s p = frame_addr s q \<longleftrightarrow> p = q"
  by (simp add: frame_addr_def PAGE_SIZE_val)

lemma page_num_lt:
  assumes "page_inv s" "p < 32 * length (page_bitmap s)"
  shows "p < MAX_PAGES" "frame_addr s p + PAGE_SIZE \<le> USIZE_MOD"
    "uadd (first_page s) (umul p PAGE_SIZE) = frame_addr s p"
proof -
  show p: "p < MAX_PAGES" using assms by (simp add: page_inv_def MAX_PAGES_val)
  then have "frame_addr s p + PAGE_SIZE \<le> first_page s + MAX_PAGES * PAGE_SIZE"
    by (simp add: frame_addr_def PAGE_SIZE_val)
  then show le: "frame_addr s p + PAGE_SIZE \<le> USIZE_MOD"
    using assms(1) unfolding page_inv_def by linarith
  then have "umul p PAGE_SIZE = p * PAGE_SIZE"
    by (intro umul_exact) (simp add: frame_addr_def PAGE_SIZE_val)
  then show "uadd (first_page s) (umul p PAGE_SIZE) = frame_addr s p"
    using le by (simp add: frame_addr_def PAGE_SIZE_val)
qed

section \<open>Zeroing\<close>

lemma zero_words:
  assumes "addr + 4 * n \<le> USIZE_MOD"
  shows "fold (\<lambda>i m. store32 m (uadd addr (i * 4)) 0) [0..<n] m =
    (\<lambda>x. if addr \<le> x \<and> x < addr + 4 * n then 0 else m x)"
  using assms by (induction n) (auto simp: store32_zero fun_eq_iff)

lemma zero_page_eq:
  assumes "addr + PAGE_SIZE \<le> USIZE_MOD"
  shows "zero_page addr m = (\<lambda>x. if addr \<le> x \<and> x < addr + PAGE_SIZE then 0 else m x)"
  using zero_words [of addr "PAGE_SIZE div 4" m] assms by (simp add: zero_page_def PAGE_SIZE_val)

section \<open>Single frames\<close>

lemma alloc_page_None:
  assumes "page_inv s" "free_set (page_bitmap s) = {}"
  shows "alloc_page s = (None, s)"
  using assms by (simp add: alloc_page_def page_inv_def)

lemma find_free_word:
  assumes "free_set bm \<noteq> {}"
  obtains i where "find_index (\<lambda>w. w \<noteq> 0xFFFFFFFF) bm = Some i" "i < length bm"
    "Min (free_set bm) = i * 32 + trailing_ones (bm ! i)" "trailing_ones (bm ! i) < 32"
proof -
  obtain q where q: "q < 32 * length bm" "\<not> page_bit bm q" using assms by (auto simp: free_set_def)
  have "bm ! (q div 32) \<noteq> 0xFFFFFFFF"
    using q(2) word_full_bits [of "bm ! (q div 32)"] by (auto simp: page_bit_def)
  then have "find_index (\<lambda>w. w \<noteq> 0xFFFFFFFF) bm \<noteq> None"
    using div_32_less [OF q(1)] by (auto simp del: not_None_eq)
  then obtain i where fi: "find_index (\<lambda>w. w \<noteq> 0xFFFFFFFF) bm = Some i" by blast
  let ?t = "trailing_ones (bm ! i)"
  have i: "i < length bm" "bm ! i \<noteq> 0xFFFFFFFF" "\<And>j. j < i \<Longrightarrow> bm ! j = 0xFFFFFFFF"
    using find_index_SomeD [OF fi] by auto
  have t: "?t < 32" "\<not> bit (bm ! i) ?t" by (simp_all add: trailing_ones_char [OF i(2)])
  have "Min (free_set bm) = i * 32 + ?t"
  proof (rule Min_eqI [OF finite_free_set])
    show "i * 32 + ?t \<in> free_set bm"
      using i(1) t by (simp add: free_set_def page_bit_def)
  next
    fix p assume p: "p \<in> free_set bm"
    show "i * 32 + ?t \<le> p"
    proof (rule ccontr)
      assume less: "\<not> i * 32 + ?t \<le> p"
      then have "p div 32 \<le> i" using t(1) by linarith
      then consider "p div 32 < i" | "p div 32 = i" by linarith
      then have "page_bit bm p"
      proof cases
        case 1
        then show ?thesis using i(3) word_full_bits [of "0xFFFFFFFF"] by (simp add: page_bit_def)
      next
        case 2
        then have "p mod 32 < ?t" using less div_mult_mod_eq [of p 32] by linarith
        then show ?thesis using 2 trailing_ones_char(3) [OF i(2)] by (simp add: page_bit_def)
      qed
      then show False using p by (simp add: free_set_def)
    qed
  qed
  then show thesis using that fi i(1) t(1) by blast
qed

lemma alloc_page_Some:
  assumes "page_inv s" "free_set (page_bitmap s) \<noteq> {}"
  defines "p \<equiv> Min (free_set (page_bitmap s))"
  shows "alloc_page s = (Some (frame_addr s p),
    s\<lparr>page_bitmap := bitmap_set (page_bitmap s) p, free_pages := free_pages s - 1\<rparr>)"
proof -
  obtain i where i: "find_index (\<lambda>w. w \<noteq> 0xFFFFFFFF) (page_bitmap s) = Some i"
    "i < length (page_bitmap s)" "p = i * 32 + trailing_ones (page_bitmap s ! i)"
    "trailing_ones (page_bitmap s ! i) < 32"
    using find_free_word [OF assms(2)] unfolding p_def by blast
  have "free_pages s \<noteq> 0" using assms(1,2) by (simp add: page_inv_def)
  moreover have "p < 32 * length (page_bitmap s)" using i by simp
  ultimately show ?thesis
    using i page_num_lt(3) [OF assms(1)] by (simp add: alloc_page_def bitmap_set_def Let_def)
qed

lemma try_free_page_eq:
  assumes inv: "page_inv s"
  shows "try_free_page a s =
    (if a \<in> managed_frames s - free_frames s
     then (True, s\<lparr>phys_mem := zero_page a (phys_mem s),
             page_bitmap := bitmap_clear (page_bitmap s) ((a - first_page s) div PAGE_SIZE),
             free_pages := free_pages s + 1\<rparr>)
     else (False, s))"
proof (cases "a \<in> managed_frames s")
  case True
  then obtain p where p: "p < 32 * length (page_bitmap s)" "a = frame_addr s p"
    by (auto simp: managed_frames_def)
  have "a \<in> free_frames s \<longleftrightarrow> p \<in> free_set (page_bitmap s)"
    using p(2) frame_addr_inj by (auto simp: free_frames_def)
  then show ?thesis
    using True p free_set_test [OF p(1)] div_32_less [OF p(1)]
    by (simp add: try_free_page_def frame_addr_def PAGE_SIZE_val bitmap_clear_def Let_def)
next
  case False
  have "length (page_bitmap s) \<le> (a - first_page s) div PAGE_SIZE div 32"
    if "first_page s \<le> a" "(a - first_page s) mod PAGE_SIZE = 0"
  proof (rule ccontr)
    let ?p = "(a - first_page s) div PAGE_SIZE"
    assume "\<not> length (page_bitmap s) \<le> ?p div 32"
    then have "?p < 32 * length (page_bitmap s)" by linarith
    moreover have "a = frame_addr s ?p"
      using that by (simp add: frame_addr_def dvd_eq_mod_eq_0)
    ultimately show False using False by (auto simp: managed_frames_def)
  qed
  then show ?thesis using False by (auto simp: try_free_page_def Let_def)
qed

lemma managed_frames_frame_addr:
  "a \<in> managed_frames s \<Longrightarrow> a = frame_addr s ((a - first_page s) div PAGE_SIZE) \<and>
     (a - first_page s) div PAGE_SIZE < 32 * length (page_bitmap s)"
  by (auto simp: managed_frames_def frame_addr_def PAGE_SIZE_val)

lemma free_frames_managed: "free_frames s \<subseteq> managed_frames s"
  by (auto simp: free_frames_def managed_frames_def free_set_def)

lemma frame_addr_update [simp]:
  "frame_addr (s\<lparr>page_bitmap := bm\<rparr>) = frame_addr s"
  "frame_addr (s\<lparr>free_pages := n\<rparr>) = frame_addr s"
  "frame_addr (s\<lparr>phys_mem := m\<rparr>) = frame_addr s"
  by (auto simp: frame_addr_def fun_eq_iff)

lemma free_set_less: "p \<in> free_set bm \<Longrightarrow> p < 32 * length bm"
  by (simp add: free_set_def)

section \<open>The frame allocator interface\<close>

text \<open>
  What the clients of the allocator (process stacks, user images, page tables, the heap) rely on:
  an allocation hands out the lowest free frame and fails exactly when none is left; a free
  succeeds exactly on an allocated frame of the managed range and is a no-op otherwise.
\<close>

locale frame_allocator =
  fixes alloc :: "'s \<Rightarrow> usize option \<times> 's"
    and release :: "usize \<Rightarrow> 's \<Rightarrow> bool \<times> 's"
    and free_of :: "'s \<Rightarrow> usize set"
    and managed :: "'s \<Rightarrow> usize set"
    and invar :: "'s \<Rightarrow> bool"
  assumes alloc_none: "\<lbrakk>invar s; free_of s = {}\<rbrakk> \<Longrightarrow> alloc s = (None, s)"
    and alloc_some: "\<lbrakk>invar s; free_of s \<noteq> {}\<rbrakk> \<Longrightarrow> fst (alloc s) = Some (Min (free_of s)) \<and>
      free_of (snd (alloc s)) = free_of s - {Min (free_of s)} \<and> managed (snd (alloc s)) = managed s"
    and release_ok: "\<lbrakk>invar s; a \<in> managed s; a \<notin> free_of s\<rbrakk> \<Longrightarrow> fst (release a s) \<and>
      free_of (snd (release a s)) = insert a (free_of s) \<and> managed (snd (release a s)) = managed s"
    and release_bad: "\<lbrakk>invar s; a \<notin> managed s \<or> a \<in> free_of s\<rbrakk> \<Longrightarrow> release a s = (False, s)"
    and invar_alloc: "invar s \<Longrightarrow> invar (snd (alloc s))"
    and invar_release: "invar s \<Longrightarrow> invar (snd (release a s))"
    and finite_free: "invar s \<Longrightarrow> finite (free_of s)"
    and free_managed: "invar s \<Longrightarrow> free_of s \<subseteq> managed s"
begin

text \<open>A loop that allocates \<open>n\<close> frames and stops at the first failure.\<close>

fun alloc_many :: "nat \<Rightarrow> 's \<Rightarrow> usize list \<times> 's" where
  "alloc_many 0 s = ([], s)"
| "alloc_many (Suc n) s =
    (case alloc s of (None, s') \<Rightarrow> ([], s') | (Some a, s') \<Rightarrow>
      (let (as, s'') = alloc_many n s' in (a # as, s'')))"

fun release_all :: "usize list \<Rightarrow> 's \<Rightarrow> 's" where
  "release_all [] s = s"
| "release_all (a # as) s = release_all as (snd (release a s))"

lemma alloc_fresh:
  assumes "invar s" "alloc s = (Some a, s')"
  shows "a \<in> free_of s" "free_of s' = free_of s - {a}" "managed s' = managed s" "invar s'"
proof -
  have ne: "free_of s \<noteq> {}" using alloc_none [OF assms(1)] assms(2) by auto
  note facts = alloc_some [OF assms(1) ne] invar_alloc [OF assms(1)] assms(2)
  show "a \<in> free_of s" using facts ne finite_free [OF assms(1)] by auto
  show "free_of s' = free_of s - {a}" "managed s' = managed s" "invar s'" using facts by auto
qed

lemma alloc_many_fresh:
  assumes "invar s"
  shows "invar (snd (alloc_many n s)) \<and> distinct (fst (alloc_many n s)) \<and>
    set (fst (alloc_many n s)) \<subseteq> free_of s \<and>
    free_of (snd (alloc_many n s)) = free_of s - set (fst (alloc_many n s)) \<and>
    managed (snd (alloc_many n s)) = managed s \<and>
    length (fst (alloc_many n s)) = min n (card (free_of s))"
  using assms
proof (induction n arbitrary: s)
  case (Suc n)
  obtain r s' where a: "alloc s = (r, s')" by fastforce
  show ?case
  proof (cases r)
    case None
    then have "free_of s = {}" using alloc_some [OF Suc.prems] a by fastforce
    then show ?thesis using a None alloc_none [OF Suc.prems] Suc.prems by simp
  next
    case (Some f)
    note fresh = alloc_fresh [OF Suc.prems a [unfolded Some]]
    have "card (free_of s) = Suc (card (free_of s'))"
      using card.remove [OF finite_free [OF Suc.prems] fresh(1)] fresh(2) by simp
    moreover obtain as s'' where m: "alloc_many n s' = (as, s'')" by fastforce
    moreover have "alloc_many (Suc n) s = (f # as, s'')" using a Some m by simp
    moreover have "invar s''" "distinct as" "set as \<subseteq> free_of s'" "free_of s'' = free_of s' - set as"
      "managed s'' = managed s'" "length as = min n (card (free_of s'))"
      using Suc.IH [OF fresh(4)] m by auto
    ultimately show ?thesis using fresh(1-3) by auto
  qed
qed simp

lemma release_all_restores:
  assumes "invar s" "set as \<subseteq> managed s" "distinct as" "set as \<inter> free_of s = {}"
  shows "invar (release_all as s) \<and> free_of (release_all as s) = free_of s \<union> set as \<and>
    managed (release_all as s) = managed s"
  using assms
proof (induction as arbitrary: s)
  case (Cons a as)
  have r: "free_of (snd (release a s)) = insert a (free_of s)" "managed (snd (release a s)) = managed s"
    using release_ok [OF Cons.prems(1), of a] Cons.prems by auto
  show ?case
    using Cons.IH [OF invar_release [OF Cons.prems(1)], of a] Cons.prems r by auto
qed simp

text \<open>Rolling back a failed group allocation restores the free set.\<close>

lemma alloc_many_release:
  assumes "invar s"
  shows "free_of (release_all (fst (alloc_many n s)) (snd (alloc_many n s))) = free_of s"
  using release_all_restores [of "snd (alloc_many n s)" "fst (alloc_many n s)"]
    alloc_many_fresh [OF assms, of n] free_managed [OF assms] by auto

end

lemma page_inv_alloc [inv_pres]:
  assumes "page_inv s"
  shows "page_inv (snd (alloc_page s))"
proof (cases "free_set (page_bitmap s) = {}")
  case True
  then show ?thesis using alloc_page_None [OF assms] assms by simp
next
  case False
  let ?p = "Min (free_set (page_bitmap s))"
  have p: "?p \<in> free_set (page_bitmap s)" using False by simp
  then show ?thesis
    using alloc_page_Some [OF assms False] assms free_set_bitmap_set [OF free_set_less [OF p]]
    by (simp add: page_inv_def)
qed

lemma page_inv_free [inv_pres]:
  assumes "page_inv s"
  shows "page_inv (snd (try_free_page a s))"
proof (cases "a \<in> managed_frames s - free_frames s")
  case True
  let ?p = "(a - first_page s) div PAGE_SIZE"
  have p: "a = frame_addr s ?p" "?p < 32 * length (page_bitmap s)"
    using managed_frames_frame_addr [of a s] True by auto
  have "?p \<notin> free_set (page_bitmap s)" using True p(1) by (auto simp: free_frames_def)
  then show ?thesis
    using try_free_page_eq [OF assms, of a] True assms free_set_bitmap_clear [OF p(2)]
    by (simp add: page_inv_def)
next
  case False
  then show ?thesis using try_free_page_eq [OF assms, of a] assms by auto
qed

lemma Min_frames:
  assumes "free_set (page_bitmap s) \<noteq> {}"
  shows "Min (free_frames s) = frame_addr s (Min (free_set (page_bitmap s)))"
proof -
  have "mono (frame_addr s)" by (simp add: mono_def frame_addr_def)
  then show ?thesis
    using mono_Min_commute [of "frame_addr s" "free_set (page_bitmap s)"] assms
    by (simp add: free_frames_def)
qed

interpretation pa: frame_allocator alloc_page try_free_page free_frames managed_frames page_inv
proof (unfold_locales, goal_cases)
  case (1 s)
  then show ?case by (intro alloc_page_None) (auto simp: free_frames_def)
next
  case (2 s)
  then have ne: "free_set (page_bitmap s) \<noteq> {}" by (auto simp: free_frames_def)
  let ?p = "Min (free_set (page_bitmap s))"
  have "?p < 32 * length (page_bitmap s)" using ne by (intro free_set_less) simp
  then show ?case
    using alloc_page_Some [OF 2(1) ne] Min_frames [OF ne] frame_addr_inj
    by (auto simp: free_frames_def managed_frames_def free_set_bitmap_set)
next
  case (3 s a)
  then show ?case
    using try_free_page_eq [OF 3(1), of a] managed_frames_frame_addr [OF 3(2)]
    by (auto simp: free_frames_def managed_frames_def free_set_bitmap_clear)
next
  case (4 s a)
  then show ?case using try_free_page_eq [OF 4(1), of a] by auto
next
  case (5 s)
  then show ?case by (rule page_inv_alloc)
next
  case (6 s a)
  then show ?case by (rule page_inv_free)
next
  case (7 s)
  then show ?case by (simp add: free_frames_def)
next
  case (8 s)
  then show ?case by (simp add: free_frames_managed)
qed

section \<open>Runs of frames\<close>

text \<open>The reference: \<open>st\<close> starts the lowest run of \<open>n\<close> frames below \<open>lim\<close> that \<open>B\<close> marks free.\<close>

definition first_fit :: "(nat \<Rightarrow> bool) \<Rightarrow> nat \<Rightarrow> nat \<Rightarrow> nat \<Rightarrow> bool" where
  "first_fit B n lim st \<longleftrightarrow> st + n \<le> lim \<and> (\<forall>p. st \<le> p \<and> p < st + n \<longrightarrow> \<not> B p) \<and>
     (\<forall>t. t < st \<longrightarrow> (\<exists>p. t \<le> p \<and> p < t + n \<and> B p))"

definition no_fit :: "(nat \<Rightarrow> bool) \<Rightarrow> nat \<Rightarrow> nat \<Rightarrow> bool" where
  "no_fit B n lim \<longleftrightarrow> (\<forall>t. t + n \<le> lim \<longrightarrow> (\<exists>p. t \<le> p \<and> p < t + n \<and> B p))"

text \<open>Loop invariant at position \<open>pos\<close>: the last \<open>run\<close> positions are free, the run cannot be
  extended to the left, and no run of length \<open>n\<close> lies below \<open>pos\<close>.\<close>

definition scan_inv :: "(nat \<Rightarrow> bool) \<Rightarrow> nat \<Rightarrow> nat \<Rightarrow> nat \<Rightarrow> nat \<Rightarrow> bool" where
  "scan_inv B n pos run rs \<longleftrightarrow> run < n \<and> run \<le> pos \<and> (0 < run \<longrightarrow> rs + run = pos) \<and>
     (\<forall>p. pos - run \<le> p \<and> p < pos \<longrightarrow> \<not> B p) \<and> (0 < pos - run \<longrightarrow> B (pos - run - 1)) \<and>
     no_fit B n pos"

lemma no_fit_Suc:
  assumes "no_fit B n pos" "q \<le> pos" "B q" "pos + 1 - n \<le> q" "0 < n"
  shows "no_fit B n (pos + 1)"
  unfolding no_fit_def
proof (intro allI impI)
  fix t assume t: "t + n \<le> pos + 1"
  show "\<exists>p. t \<le> p \<and> p < t + n \<and> B p"
  proof (cases "t + n \<le> pos")
    case True
    then show ?thesis using assms(1) by (auto simp: no_fit_def)
  next
    case False
    then show ?thesis using t assms by (intro exI [of _ q]) auto
  qed
qed

lemma scan_inv_used:
  assumes "scan_inv B n pos run rs" "B pos"
  shows "scan_inv B n (pos + 1) 0 rs'"
  using assms no_fit_Suc [of B n pos pos] by (auto simp: scan_inv_def)

lemma scan_inv_free:
  assumes "scan_inv B n pos run rs" "\<not> B pos" "run + 1 \<noteq> n"
  shows "scan_inv B n (pos + 1) (run + 1) (if run = 0 then pos else rs)"
proof -
  have bounds: "run + 2 \<le> n" "run \<le> pos" using assms by (auto simp: scan_inv_def)
  have "no_fit B n (pos + 1)"
  proof (cases "pos = run")
    case True
    then show ?thesis using bounds by (auto simp: no_fit_def)
  next
    case False
    then show ?thesis
      using assms(1) bounds by (intro no_fit_Suc [of B n pos "pos - run - 1"]) (auto simp: scan_inv_def)
  qed
  moreover have "\<not> B p" if "pos - run \<le> p" "p < pos + 1" for p
    using that assms(1,2) by (cases "p = pos") (auto simp: scan_inv_def)
  ultimately show ?thesis
    using assms(1) bounds by (auto simp: scan_inv_def)
qed

lemma scan_inv_found:
  assumes "scan_inv B n pos run rs" "\<not> B pos" "run + 1 = n" "pos < lim"
  shows "first_fit B n lim (if run = 0 then pos else rs)"
proof -
  have st: "(if run = 0 then pos else rs) = pos - run" "run \<le> pos"
    using assms(1) by (auto simp: scan_inv_def)
  have free: "\<not> B p" if "pos - run \<le> p" "p < pos - run + n" for p
    using that assms st(2) by (cases "p = pos") (auto simp: scan_inv_def)
  have early: "\<exists>p. t \<le> p \<and> p < t + n \<and> B p" if "t < pos - run" for t
    using assms(1,3) that st(2) by (auto simp: scan_inv_def no_fit_def)
  show ?thesis unfolding first_fit_def st using assms(3,4) st(2) free early by auto
qed

lemma scan_bits_correct:
  assumes "scan_inv (page_bit bm) n (wi * 32 + b) run rs" "b \<le> 32"
  shows "case scan_bits n (bm ! wi) wi [b..<32] run rs of
      Inl st \<Rightarrow> first_fit (page_bit bm) n ((wi + 1) * 32) st
    | Inr (run', rs') \<Rightarrow> scan_inv (page_bit bm) n ((wi + 1) * 32) run' rs'"
  using assms
proof (induction "32 - b" arbitrary: b run rs)
  case 0
  then show ?case by (simp add: algebra_simps)
next
  case (Suc k)
  then have b: "b < 32" and upt: "[b..<32] = b # [b + 1..<32]" by (simp_all add: upt_conv_Cons)
  have bit: "bit (bm ! wi) b = page_bit bm (wi * 32 + b)" using b by (simp add: page_bit_def)
  have pos: "wi * 32 + (b + 1) = wi * 32 + b + 1" by simp
  note IH = Suc.hyps(1) [of "b + 1"]
  have k: "k = 32 - (b + 1)" "b + 1 \<le> 32" using Suc.hyps(2) b by auto
  show ?case
  proof (cases "page_bit bm (wi * 32 + b)")
    case True
    then show ?thesis
      using IH [OF k(1) _ k(2), of 0 rs] scan_inv_used [OF Suc.prems(1) True, of rs] pos bit upt
      by (simp add: bit_shift_test del: upt_Suc)
  next
    case False
    then show ?thesis
      using IH [OF k(1) _ k(2), of "run + 1" "if run = 0 then wi * 32 + b else rs"] pos bit upt
        scan_inv_free [OF Suc.prems(1) False] scan_inv_found [OF Suc.prems(1) False, of "(wi + 1) * 32"] b
      by (simp add: bit_shift_test Let_def del: upt_Suc)
  qed
qed

lemma scan_inv_full_word:
  assumes "scan_inv B n pos run rs" "\<And>p. pos \<le> p \<Longrightarrow> p < pos + k \<Longrightarrow> B p" "0 < k"
  shows "scan_inv B n (pos + k) 0 rs'"
proof -
  have "no_fit B n (pos + k)"
    unfolding no_fit_def
  proof (intro allI impI)
    fix t assume t: "t + n \<le> pos + k"
    show "\<exists>p. t \<le> p \<and> p < t + n \<and> B p"
    proof (cases "t + n \<le> pos")
      case True
      then show ?thesis using assms(1) by (auto simp: scan_inv_def no_fit_def)
    next
      case False
      then show ?thesis
        using t assms by (intro exI [of _ "t + n - 1"]) (auto simp: scan_inv_def)
    qed
  qed
  then show ?thesis using assms by (auto simp: scan_inv_def)
qed

lemma first_fit_mono: "first_fit B n lim st \<Longrightarrow> lim \<le> lim' \<Longrightarrow> first_fit B n lim' st"
  by (auto simp: first_fit_def)

lemma scan_words_correct:
  assumes "scan_inv (page_bit bm) n (wi * 32) run rs" "wi \<le> length bm"
  shows "case scan_words n (drop wi bm) wi run rs of
      Some st \<Rightarrow> first_fit (page_bit bm) n (32 * length bm) st
    | None \<Rightarrow> no_fit (page_bit bm) n (32 * length bm)"
  using assms
proof (induction "length bm - wi" arbitrary: wi run rs)
  case 0
  then show ?case by (simp add: scan_inv_def algebra_simps)
next
  case (Suc k)
  then have wi: "wi < length bm" and dr: "drop wi bm = bm ! wi # drop (wi + 1) bm"
    by (simp_all add: Cons_nth_drop_Suc)
  have k: "k = length bm - (wi + 1)" "wi + 1 \<le> length bm" using Suc.hyps(2) wi by auto
  have pos: "(wi + 1) * 32 = wi * 32 + 32" by simp
  note IH = Suc.hyps(1) [OF k(1) _ k(2)]
  show ?case
  proof (cases "bm ! wi = 0xFFFFFFFF")
    case True
    have "page_bit bm p" if "wi * 32 \<le> p" "p < wi * 32 + 32" for p
    proof -
      have "p div 32 = wi" using that by linarith
      then show ?thesis using True word_full_bits [of "bm ! wi"] by (simp add: page_bit_def)
    qed
    then have "scan_inv (page_bit bm) n ((wi + 1) * 32) 0 rs"
      unfolding pos by (intro scan_inv_full_word [OF Suc.prems(1)]) auto
    then show ?thesis using IH [of 0 rs] True dr by simp
  next
    case False
    have sb: "case scan_bits n (bm ! wi) wi [0..<32] run rs of
        Inl st \<Rightarrow> first_fit (page_bit bm) n ((wi + 1) * 32) st
      | Inr (run', rs') \<Rightarrow> scan_inv (page_bit bm) n ((wi + 1) * 32) run' rs'"
      using scan_bits_correct [of bm n wi 0 run rs] Suc.prems(1) by simp
    show ?thesis
    proof (cases "scan_bits n (bm ! wi) wi [0..<32] run rs")
      case (Inl st)
      then show ?thesis
        using sb False dr first_fit_mono [of "page_bit bm" n "(wi + 1) * 32" st "32 * length bm"] k(2)
        by (simp del: upt.simps)
    next
      case (Inr r)
      then show ?thesis using sb False dr IH [of "fst r" "snd r"] by (simp add: split_beta del: upt.simps)
    qed
  qed
qed

lemma scan_correct:
  assumes "0 < n"
  shows "case scan_words n bm 0 0 0 of
      Some st \<Rightarrow> first_fit (page_bit bm) n (32 * length bm) st
    | None \<Rightarrow> no_fit (page_bit bm) n (32 * length bm)"
  using scan_words_correct [of bm n 0 0 0] assms by (simp add: scan_inv_def no_fit_def)

lemma first_fit_unique:
  assumes "first_fit B n lim st" "first_fit B n lim st'"
  shows "st = st'"
proof (rule ccontr)
  assume "st \<noteq> st'"
  then consider "st < st'" | "st' < st" by linarith
  then show False using assms by cases (meson first_fit_def)+
qed

lemma first_fit_free_set:
  "first_fit (page_bit bm) n (32 * length bm) st \<Longrightarrow> {st..<st + n} \<subseteq> free_set bm"
  by (auto simp: first_fit_def free_set_def)

lemma no_fit_free_set:
  "no_fit (page_bit bm) n (32 * length bm) \<longleftrightarrow> (\<nexists>st. {st..<st + n} \<subseteq> free_set bm \<and> st + n \<le> 32 * length bm)"
proof -
  have "{st..<st + n} \<subseteq> free_set bm \<longleftrightarrow> (\<forall>p. st \<le> p \<and> p < st + n \<longrightarrow> \<not> page_bit bm p)"
    if "st + n \<le> 32 * length bm" for st
    using that by (auto simp: free_set_def subset_iff)
  then show ?thesis unfolding no_fit_def by blast
qed

lemma fit_not_no_fit: "first_fit B n lim st \<Longrightarrow> \<not> no_fit B n lim"
  by (auto simp: no_fit_def first_fit_def)

text \<open>The single-frame path is the first-fit search for a run of one.\<close>

lemma alloc_page_first_fit:
  assumes "free_set bm \<noteq> {}"
  shows "first_fit (page_bit bm) 1 (32 * length bm) (Min (free_set bm))"
proof -
  have m: "Min (free_set bm) \<in> free_set bm" using assms by simp
  have "page_bit bm t" if "t < Min (free_set bm)" for t
  proof (rule ccontr)
    assume "\<not> page_bit bm t"
    then have "t \<in> free_set bm" using that m by (simp add: free_set_def)
    then show False using that Min_le [OF finite_free_set] by fastforce
  qed
  then have "\<exists>p. t \<le> p \<and> p < t + 1 \<and> page_bit bm p" if "t < Min (free_set bm)" for t
    using that by (intro exI [of _ t]) simp
  moreover have "\<not> page_bit bm p" if "Min (free_set bm) \<le> p \<and> p < Min (free_set bm) + 1" for p
  proof -
    have "p = Min (free_set bm)" using that by linarith
    then show ?thesis using m by (simp add: free_set_def)
  qed
  moreover have "Min (free_set bm) + 1 \<le> 32 * length bm"
    using free_set_less [OF m] by linarith
  ultimately show ?thesis unfolding first_fit_def by blast
qed

lemma alloc_contiguous_Some:
  assumes inv: "page_inv s" and fit: "first_fit (page_bit (page_bitmap s)) n (32 * length (page_bitmap s)) st"
    and n: "0 < n"
  shows "fst (alloc_contiguous n s) = Some (frame_addr s st)"
    "free_set (page_bitmap (snd (alloc_contiguous n s))) = free_set (page_bitmap s) - {st..<st + n}"
    "free_pages (snd (alloc_contiguous n s)) = free_pages s - n"
    "length (page_bitmap (snd (alloc_contiguous n s))) = length (page_bitmap s)"
    "first_page (snd (alloc_contiguous n s)) = first_page s"
    "phys_mem (snd (alloc_contiguous n s)) = phys_mem s"
proof -
  let ?bm = "page_bitmap s"
  have sub: "{st..<st + n} \<subseteq> free_set ?bm" by (rule first_fit_free_set [OF fit])
  have st: "st < 32 * length ?bm" "\<forall>p\<in>set [st..<st + n]. p < 32 * length ?bm"
    using fit n by (auto simp: first_fit_def)
  have res: "alloc_contiguous n s = (Some (frame_addr s st),
    s\<lparr>page_bitmap := fold (\<lambda>p bm. bitmap_set bm p) [st..<st + n] ?bm, free_pages := free_pages s - n\<rparr>)"
  proof (cases "n = 1")
    case True
    have ne: "free_set ?bm \<noteq> {}" using sub n by auto
    then have "Min (free_set ?bm) = st"
      using first_fit_unique [OF alloc_page_first_fit] fit True by blast
    then show ?thesis using alloc_page_Some [OF inv ne] True by (simp add: alloc_contiguous_def)
  next
    case False
    have "n \<le> free_pages s"
      using card_mono [OF finite_free_set sub] inv by (simp add: page_inv_def)
    moreover have "scan_words n ?bm 0 0 0 = Some st"
    proof (cases "scan_words n ?bm 0 0 0")
      case None
      then have "no_fit (page_bit ?bm) n (32 * length ?bm)" using scan_correct [OF n, of ?bm] by simp
      then show ?thesis using fit fit_not_no_fit by blast
    next
      case (Some st')
      then have "first_fit (page_bit ?bm) n (32 * length ?bm) st'" using scan_correct [OF n, of ?bm] by simp
      then show ?thesis using Some first_fit_unique fit by blast
    qed
    ultimately show ?thesis
      using False n page_num_lt(3) [OF inv st(1)] by (simp add: alloc_contiguous_def)
  qed
  show "fst (alloc_contiguous n s) = Some (frame_addr s st)"
    "free_set (page_bitmap (snd (alloc_contiguous n s))) = free_set ?bm - {st..<st + n}"
    "free_pages (snd (alloc_contiguous n s)) = free_pages s - n"
    "length (page_bitmap (snd (alloc_contiguous n s))) = length ?bm"
    "first_page (snd (alloc_contiguous n s)) = first_page s"
    "phys_mem (snd (alloc_contiguous n s)) = phys_mem s"
    unfolding res using fold_bitmap_set [OF st(2)] by auto
qed

lemma alloc_contiguous_None:
  assumes "page_inv s" "no_fit (page_bit (page_bitmap s)) n (32 * length (page_bitmap s)) \<or> n = 0"
  shows "alloc_contiguous n s = (None, s)"
proof (cases "n = 0 \<or> n = 1")
  case True
  then consider "n = 0" | "n = 1" "free_set (page_bitmap s) = {}"
    using assms(2) alloc_page_first_fit [of "page_bitmap s"] fit_not_no_fit by fastforce
  then show ?thesis
    using alloc_page_None [OF assms(1)] by cases (simp_all add: alloc_contiguous_def)
next
  case False
  then have "scan_words n (page_bitmap s) 0 0 0 = None"
    using assms(2) scan_correct [of n "page_bitmap s"] fit_not_no_fit by (fastforce split: option.splits)
  then show ?thesis using False by (simp add: alloc_contiguous_def)
qed

lemma fit_cases:
  assumes "0 < n"
  obtains st where "first_fit (page_bit bm) n (32 * length bm) st"
  | "no_fit (page_bit bm) n (32 * length bm)"
  using scan_correct [OF assms, of bm] by (auto split: option.splits)

lemma page_inv_alloc_contiguous [inv_pres]:
  assumes "page_inv s"
  shows "page_inv (snd (alloc_contiguous n s))"
proof (cases "n = 0")
  case True
  then show ?thesis using alloc_contiguous_None [OF assms] assms by simp
next
  case False
  then consider st where "first_fit (page_bit (page_bitmap s)) n (32 * length (page_bitmap s)) st"
    | "no_fit (page_bit (page_bitmap s)) n (32 * length (page_bitmap s))"
    using fit_cases by blast
  then show ?thesis
  proof cases
    case (1 st)
    have sub: "{st..<st + n} \<subseteq> free_set (page_bitmap s)" by (rule first_fit_free_set [OF 1])
    show ?thesis
      using alloc_contiguous_Some [OF assms 1] False assms card_Diff_subset [OF _ sub]
      by (simp add: page_inv_def)
  next
    case 2
    then show ?thesis using alloc_contiguous_None [OF assms] assms by simp
  qed
qed

lemma fold_scrub:
  "fold (\<lambda>p (bm, m). (bitmap_clear bm p, zero_page (f p) m)) ps (bm, m) =
    (fold (\<lambda>p bm. bitmap_clear bm p) ps bm, fold (\<lambda>p m. zero_page (f p) m) ps m)"
  by (induction ps arbitrary: bm m) auto

lemma zero_run:
  assumes "page_inv s" "st + k \<le> 32 * length (page_bitmap s)"
  shows "fold (\<lambda>p m. zero_page (uadd (first_page s) (umul p PAGE_SIZE)) m) [st..<st + k] m =
    (\<lambda>x. if frame_addr s st \<le> x \<and> x < frame_addr s (st + k) then 0 else m x)"
  using assms
proof (induction k)
  case 0
  show ?case by (auto simp: fun_eq_iff)
next
  case (Suc k)
  have p: "st + k < 32 * length (page_bitmap s)" using Suc.prems by simp
  have "frame_addr s (st + k) + PAGE_SIZE = frame_addr s (st + Suc k)" "frame_addr s st \<le> frame_addr s (st + k)"
    by (simp_all add: frame_addr_def)
  then show ?case
    using Suc page_num_lt(2,3) [OF Suc.prems(1) p] by (auto simp: zero_page_eq fun_eq_iff)
qed

lemma free_contiguous_ok:
  assumes inv: "page_inv s" and n: "0 < n" and lim: "st + n \<le> 32 * length (page_bitmap s)"
    and used: "{st..<st + n} \<inter> free_set (page_bitmap s) = {}"
  shows "free_contiguous (frame_addr s st) n s =
    (True, s\<lparr>page_bitmap := fold (\<lambda>p bm. bitmap_clear bm p) [st..<st + n] (page_bitmap s),
       phys_mem := (\<lambda>x. if frame_addr s st \<le> x \<and> x < frame_addr s (st + n) then 0 else phys_mem s x),
       free_pages := free_pages s + n\<rparr>)"
proof (cases "n = 1")
  case True
  have "st < 32 * length (page_bitmap s)" using lim n by simp
  then have "frame_addr s st \<in> managed_frames s - free_frames s"
    using used True frame_addr_inj by (auto simp: managed_frames_def free_frames_def)
  then have "try_free_page (frame_addr s st) s = (True, s\<lparr>phys_mem := zero_page (frame_addr s st) (phys_mem s),
      page_bitmap := bitmap_clear (page_bitmap s) ((frame_addr s st - first_page s) div PAGE_SIZE),
      free_pages := free_pages s + 1\<rparr>)"
    using try_free_page_eq [OF inv, of "frame_addr s st"] by (simp only: if_True)
  moreover have "(frame_addr s st - first_page s) div PAGE_SIZE = st" "frame_addr s (st + 1) = frame_addr s st + PAGE_SIZE"
    by (simp_all add: frame_addr_def PAGE_SIZE_val)
  moreover have "zero_page (frame_addr s st) (phys_mem s) =
      (\<lambda>x. if frame_addr s st \<le> x \<and> x < frame_addr s st + PAGE_SIZE then 0 else phys_mem s x)"
    using page_num_lt(2) [OF inv, of st] lim n by (intro zero_page_eq) simp
  moreover have "[st..<st + 1] = [st]" by simp
  ultimately show ?thesis
    using True by (simp only: free_contiguous_def) simp
next
  case False
  have bound: "st + n \<le> MAX_PAGES" "free_pages s \<le> MAX_PAGES"
    using lim inv card_mono [of "{p. p < 32 * length (page_bitmap s)}" "free_set (page_bitmap s)"]
    by (auto simp: page_inv_def MAX_PAGES_val free_set_def)
  then have u: "uadd st n = st + n" "uadd (free_pages s) n = free_pages s + n"
    by (auto simp: MAX_PAGES_val USIZE_MOD_def uadd_def)
  have off: "(frame_addr s st - first_page s) mod PAGE_SIZE = 0"
    "(frame_addr s st - first_page s) div PAGE_SIZE = st" "\<not> frame_addr s st < first_page s"
    by (simp_all add: frame_addr_def PAGE_SIZE_val)
  have "\<not> list_ex (\<lambda>p. length (page_bitmap s) \<le> p div 32 \<or>
      (page_bitmap s ! (p div 32)) AND push_bit (p mod 32) 1 = 0) [st..<st + n]"
  proof -
    have "\<not> length (page_bitmap s) \<le> p div 32 \<and> (page_bitmap s ! (p div 32)) AND push_bit (p mod 32) 1 \<noteq> 0"
      if "p \<in> {st..<st + n}" for p
    proof -
      have p: "p < 32 * length (page_bitmap s)" using that lim by simp
      then show ?thesis using that used free_set_test [OF p] div_32_less [OF p] by auto
    qed
    then show ?thesis by (auto simp: list_ex_iff)
  qed
  then show ?thesis
    using False n u off fold_scrub zero_run [OF inv lim]
    by (simp add: free_contiguous_def del: push_bit_of_1)
qed

lemma free_contiguous_bad:
  assumes inv: "page_inv s" and small: "a div PAGE_SIZE + n < USIZE_MOD" and n: "0 < n"
    and bad: "\<nexists>st. a = frame_addr s st \<and> st + n \<le> 32 * length (page_bitmap s) \<and>
      {st..<st + n} \<inter> free_set (page_bitmap s) = {}"
  shows "free_contiguous a n s = (False, s)"
proof (cases "n = 1")
  case True
  have "a \<notin> managed_frames s - free_frames s"
  proof
    assume m: "a \<in> managed_frames s - free_frames s"
    then obtain st where "a = frame_addr s st" "st < 32 * length (page_bitmap s)"
      by (auto simp: managed_frames_def)
    then show False using bad True m by (auto simp: free_frames_def)
  qed
  then show ?thesis using try_free_page_eq [OF inv] True by (simp add: free_contiguous_def)
next
  case False
  let ?st = "(a - first_page s) div PAGE_SIZE"
  have "?st \<le> a div PAGE_SIZE" by (simp add: div_le_mono)
  then have u: "uadd ?st n = ?st + n" using small by simp
  have "list_ex (\<lambda>p. length (page_bitmap s) \<le> p div 32 \<or>
      (page_bitmap s ! (p div 32)) AND push_bit (p mod 32) 1 = 0) [?st..<?st + n]"
    if al: "first_page s \<le> a" "(a - first_page s) mod PAGE_SIZE = 0"
  proof (rule ccontr)
    assume "\<not> ?thesis"
    then have all: "\<not> length (page_bitmap s) \<le> p div 32"
      "(page_bitmap s ! (p div 32)) AND push_bit (p mod 32) 1 \<noteq> 0" if "p \<in> {?st..<?st + n}" for p
      using that by (auto simp: list_ex_iff simp del: push_bit_of_1)
    have lt: "p < 32 * length (page_bitmap s)" if "p \<in> {?st..<?st + n}" for p
      using all(1) [OF that] by linarith
    have "?st + n - 1 \<in> {?st..<?st + n}" using n by auto
    from lt [OF this] have "?st + n \<le> 32 * length (page_bitmap s)" using n by linarith
    moreover have "{?st..<?st + n} \<inter> free_set (page_bitmap s) = {}"
      using all(2) free_set_test [OF lt] by blast
    moreover have "a = frame_addr s ?st" using al by (simp add: frame_addr_def dvd_eq_mod_eq_0)
    ultimately show False using bad by blast
  qed
  then show ?thesis
    using False n u by (auto simp: free_contiguous_def Let_def simp del: push_bit_of_1)
qed

lemma page_inv_free_contiguous [inv_pres]:
  assumes inv: "page_inv s" and small: "a div PAGE_SIZE + n < USIZE_MOD"
  shows "page_inv (snd (free_contiguous a n s))"
proof (cases "n = 0")
  case True
  then show ?thesis using inv by (simp add: free_contiguous_def)
next
  case n: False
  show ?thesis
  proof (cases "\<exists>st. a = frame_addr s st \<and> st + n \<le> 32 * length (page_bitmap s) \<and>
      {st..<st + n} \<inter> free_set (page_bitmap s) = {}")
    case True
    then obtain st where st: "a = frame_addr s st" "st + n \<le> 32 * length (page_bitmap s)"
      "{st..<st + n} \<inter> free_set (page_bitmap s) = {}" by blast
    have lim: "\<forall>p\<in>set [st..<st + n]. p < 32 * length (page_bitmap s)" using st(2) by auto
    have "card (free_set (page_bitmap s) \<union> {st..<st + n}) = card (free_set (page_bitmap s)) + n"
      using card_Un_disjoint [of "free_set (page_bitmap s)" "{st..<st + n}"] st(3) by auto
    then show ?thesis
      using free_contiguous_ok [OF inv _ st(2,3)] n inv st(1) fold_bitmap_clear [OF lim]
      by (simp add: page_inv_def)
  next
    case False
    then show ?thesis using free_contiguous_bad [OF inv small _ False] n inv by simp
  qed
qed

section \<open>Boot\<close>

lemma page_init_inv:
  assumes start: "ram_start mod PAGE_SIZE = 0" "ram_start \<le> kernel_end"
    and endr: "ram_end < USIZE_MOD" "kernel_end + PAGE_SIZE \<le> ram_end"
    and size: "ram_end - ram_start \<le> MAX_PAGES * PAGE_SIZE" "ram_start + MAX_PAGES * PAGE_SIZE \<le> USIZE_MOD"
  shows "\<exists>s'. page_init ram_start ram_end kernel_end s = Some s' \<and> page_inv s' \<and>
    first_page s' = ram_start \<and> phys_mem s' = phys_mem s \<and>
    free_set (page_bitmap s') = {(align_down (kernel_end + PAGE_SIZE - 1) - ram_start) div PAGE_SIZE..<
      (align_down ram_end - ram_start) div PAGE_SIZE}"
proof -
  define us ue where "us = align_down (kernel_end + PAGE_SIZE - 1)" and "ue = align_down ram_end"
  have us: "align_down (uadd kernel_end (PAGE_SIZE - 1)) = us" "align_down ram_end = ue"
    using endr by (simp_all add: PAGE_SIZE_val us_def ue_def add.commute)
  obtain r where r: "ram_start = r * 4096" using start(1) by (auto simp: PAGE_SIZE_val)
  define u v where "u = (kernel_end + 4095) div 4096" and "v = ram_end div 4096"
  have uv: "us = u * 4096" "ue = v * 4096" by (simp_all add: us_def ue_def u_def v_def align_down_def PAGE_SIZE_val)
  have le: "r \<le> u" "u \<le> v" "v - r \<le> 262144" "v * 4096 < USIZE_MOD"
    using start endr size r by (auto simp: u_def v_def PAGE_SIZE_val MAX_PAGES_val)
  have diffs: "usub ue us = (v - u) * 4096" "usub us ram_start = (u - r) * 4096" "usub ue ram_start = (v - r) * 4096"
    using le unfolding uv r by (subst usub_exact; simp add: diff_mult_distrib)+
  have nums: "usub ue us div PAGE_SIZE = v - u" "usub us ram_start div PAGE_SIZE = u - r"
    "usub ue ram_start div PAGE_SIZE = v - r" by (simp_all add: diffs PAGE_SIZE_val)
  have lim: "\<forall>p\<in>set [u - r..<v - r]. p < 32 * length (replicate (MAX_PAGES div 32) (0xFFFFFFFF :: u32))"
    using le by (auto simp: MAX_PAGES_val)
  have card: "card {u - r..<v - r} = v - u" using le by simp
  have "(us - ram_start) div PAGE_SIZE = u - r" "(ue - ram_start) div PAGE_SIZE = v - r"
    unfolding uv r PAGE_SIZE_val by (simp_all flip: diff_mult_distrib)
  then show ?thesis
    using le size fold_bitmap_clear [OF lim] card
    unfolding us_def [symmetric] ue_def [symmetric] page_init_def Let_def us nums
    by (simp add: page_inv_def MAX_PAGES_val PAGE_SIZE_val)
qed

lemma alloc_contiguous_cases:
  assumes inv: "page_inv s" and al: "alloc_contiguous n s = (r, s')"
  obtains (none) "r = None" "s' = s"
  | (some) st where "r = Some (frame_addr s st)" "0 < n" "{st..<st + n} \<subseteq> free_set (page_bitmap s)"
      "st + n \<le> 32 * length (page_bitmap s)" "free_set (page_bitmap s') = free_set (page_bitmap s) - {st..<st + n}"
      "page_inv s'" "phys_mem s' = phys_mem s" "first_page s' = first_page s"
proof (cases "n = 0 \<or> no_fit (page_bit (page_bitmap s)) n (32 * length (page_bitmap s))")
  case True
  then show thesis using none alloc_contiguous_None [OF inv] al by auto
next
  case False
  then obtain st where fit: "first_fit (page_bit (page_bitmap s)) n (32 * length (page_bitmap s)) st"
    using fit_cases by blast
  have n: "0 < n" using False by simp
  note f = alloc_contiguous_Some [OF inv fit n] page_inv_alloc_contiguous [OF inv, of n]
  have "{st..<st + n} \<subseteq> free_set (page_bitmap s)" "st + n \<le> 32 * length (page_bitmap s)"
    using fit by (auto simp: first_fit_def free_set_def)
  then show thesis using some [of st] f n al by simp
qed

text \<open>Every state the allocator can be in: after \<open>page_init\<close> on a memory map that fits the bitmap,
  any sequence of calls.\<close>

inductive page_reachable :: "page_state \<Rightarrow> bool" where
  boot: "\<lbrakk>ram_start mod PAGE_SIZE = 0; ram_start \<le> kernel_end; ram_end < USIZE_MOD;
      kernel_end + PAGE_SIZE \<le> ram_end; ram_end - ram_start \<le> MAX_PAGES * PAGE_SIZE;
      ram_start + MAX_PAGES * PAGE_SIZE \<le> USIZE_MOD;
      page_init ram_start ram_end kernel_end s0 = Some s\<rbrakk> \<Longrightarrow> page_reachable s"
| alloc: "page_reachable s \<Longrightarrow> page_reachable (snd (alloc_page s))"
| free: "page_reachable s \<Longrightarrow> page_reachable (free_page a s)"
| alloc_run: "page_reachable s \<Longrightarrow> page_reachable (snd (alloc_contiguous n s))"
| free_run: "\<lbrakk>page_reachable s; a div PAGE_SIZE + n < USIZE_MOD\<rbrakk>
    \<Longrightarrow> page_reachable (snd (free_contiguous a n s))"
| scrub: "page_reachable s \<Longrightarrow> page_reachable (snd (zero_usable_range s))"

lemma page_inv_scrub [inv_pres]: "page_inv s \<Longrightarrow> page_inv (snd (zero_usable_range s))"
  by (simp add: zero_usable_range_def page_inv_def split_beta)

lemma page_boot_state:
  obtains s where "page_init RAM_START USER_TEXT_BASE KERNEL_END s0 = Some s" "page_inv s"
    "page_reachable s" "first_page s = RAM_START" "free_set (page_bitmap s) = {512..<261888}"
    "phys_mem s = phys_mem s0"
proof -
  have map: "RAM_START mod PAGE_SIZE = 0" "RAM_START \<le> KERNEL_END" "USER_TEXT_BASE < USIZE_MOD"
    "KERNEL_END + PAGE_SIZE \<le> USER_TEXT_BASE" "USER_TEXT_BASE - RAM_START \<le> MAX_PAGES * PAGE_SIZE"
    "RAM_START + MAX_PAGES * PAGE_SIZE \<le> USIZE_MOD"
    by (simp_all add: const_defs)
  obtain s where s: "page_init RAM_START USER_TEXT_BASE KERNEL_END s0 = Some s" "page_inv s"
    "first_page s = RAM_START" "phys_mem s = phys_mem s0"
    "free_set (page_bitmap s) = {(align_down (KERNEL_END + PAGE_SIZE - 1) - RAM_START) div PAGE_SIZE..<
      (align_down USER_TEXT_BASE - RAM_START) div PAGE_SIZE}"
    using page_init_inv [OF map, of s0] by blast
  moreover have "(align_down (KERNEL_END + PAGE_SIZE - 1) - RAM_START) div PAGE_SIZE = 512"
    "(align_down USER_TEXT_BASE - RAM_START) div PAGE_SIZE = 261888"
    by (simp_all add: align_down_def const_defs)
  moreover have "page_reachable s" by (rule page_reachable.boot [OF map s(1)])
  ultimately show thesis using that by simp
qed

text \<open>The statics before \<open>page_init\<close>, and the allocator after the boot call in \<open>kinit.rs\<close>.\<close>

definition page_statics :: page_state where
  "page_statics = \<lparr>page_bitmap = replicate (MAX_PAGES div 32) 0, free_pages = 0, first_page = 0,
     usable_start_page = 0, usable_end_page = 0, phys_mem = (\<lambda>_. 0)\<rparr>"

definition boot_pages :: page_state where
  "boot_pages = the (page_init RAM_START USER_TEXT_BASE KERNEL_END page_statics)"

lemma boot_pages:
  "page_inv boot_pages" "page_reachable boot_pages" "first_page boot_pages = RAM_START"
  "free_set (page_bitmap boot_pages) = {512..<261888}" "phys_mem boot_pages = (\<lambda>_. 0)"
proof -
  obtain s where s: "page_init RAM_START USER_TEXT_BASE KERNEL_END page_statics = Some s" "page_inv s"
    "page_reachable s" "first_page s = RAM_START" "free_set (page_bitmap s) = {512..<261888}"
    "phys_mem s = phys_mem page_statics"
    by (rule page_boot_state)
  then have "boot_pages = s" by (simp add: boot_pages_def)
  with s show "page_inv boot_pages" "page_reachable boot_pages" "first_page boot_pages = RAM_START"
    "free_set (page_bitmap boot_pages) = {512..<261888}" "phys_mem boot_pages = (\<lambda>_. 0)"
    by (simp_all add: page_statics_def)
qed

lemma boot_frames:
  "free_frames boot_pages = (\<lambda>p. 0x40000000 + p * 4096) ` {512..<261888}"
  "managed_frames boot_pages = (\<lambda>p. 0x40000000 + p * 4096) ` {p. p < 262144}"
  using boot_pages(1,3,4)
  by (simp_all add: free_frames_def managed_frames_def frame_addr_def [abs_def] const_defs page_inv_def)

lemma boot_alloc_run:
  assumes "0 < n" "n \<le> 261376"
  shows "fst (alloc_contiguous n boot_pages) = Some (frame_addr boot_pages 512)"
proof -
  have len: "32 * length (page_bitmap boot_pages) = 262144" using boot_pages(1) by (simp add: page_inv_def const_defs)
  have "first_fit (page_bit (page_bitmap boot_pages)) n (32 * length (page_bitmap boot_pages)) 512"
    unfolding first_fit_def len
  proof (intro conjI allI impI)
    show "512 + n \<le> 262144" using assms(2) by simp
  next
    fix p :: nat
    assume "512 \<le> p \<and> p < 512 + n"
    then have "p \<in> free_set (page_bitmap boot_pages)" using boot_pages(4) assms(2) by simp
    then show "\<not> page_bit (page_bitmap boot_pages) p" by (simp add: free_set_def)
  next
    fix q :: nat
    assume "q < 512"
    then have "q \<notin> free_set (page_bitmap boot_pages)" using boot_pages(4) by simp
    then have "page_bit (page_bitmap boot_pages) q" using \<open>q < 512\<close> len by (simp add: free_set_def)
    then show "\<exists>p. q \<le> p \<and> p < q + n \<and> page_bit (page_bitmap boot_pages) p" using assms(1) by auto
  qed
  from alloc_contiguous_Some(1) [OF boot_pages(1) this assms(1)] show ?thesis .
qed

section \<open>Properties\<close>



text \<open>C14: \<open>alloc_page\<close> hands out the lowest free frame, removes exactly that frame from the
  free set and touches no memory; it fails exactly when no frame is free, and then changes
  nothing.\<close>

theorem alloc_page_lowest:
  assumes "page_inv s"
  shows "case alloc_page s of
      (Some a, s') \<Rightarrow> a \<in> free_frames s \<and> a = Min (free_frames s) \<and>
        free_frames s' = free_frames s - {a} \<and> phys_mem s' = phys_mem s \<and> page_inv s'
    | (None, s') \<Rightarrow> free_frames s = {} \<and> s' = s"
proof (cases "free_set (page_bitmap s) = {}")
  case True
  then show ?thesis using alloc_page_None [OF assms] by (simp add: free_frames_def)
next
  case False
  then have "free_frames s \<noteq> {}" by (simp add: free_frames_def)
  then show ?thesis
    using alloc_page_Some [OF assms False] pa.alloc_some [OF assms] pa.finite_free [OF assms]
      page_inv_alloc [OF assms] by auto
qed

theorem alloc_page_lowest_witness:
  "case alloc_page boot_pages of
      (Some a, s') \<Rightarrow> a \<in> free_frames boot_pages \<and> a = Min (free_frames boot_pages) \<and>
        free_frames s' = free_frames boot_pages - {a} \<and> phys_mem s' = phys_mem boot_pages \<and> page_inv s'
    | (None, s') \<Rightarrow> free_frames boot_pages = {} \<and> s' = boot_pages"
  by (rule alloc_page_lowest [OF boot_pages(1)])

text \<open>C8: \<open>alloc_contiguous\<close> is first fit: it returns the lowest run of \<open>n\<close> free frames, marks
  exactly these allocated, and fails exactly when \<open>n\<close> is zero or no such run exists, although
  the scan skips fully allocated words and \<open>n = 1\<close> takes the single-frame path.\<close>

theorem alloc_contiguous_first_fit:
  assumes "page_inv s"
  shows "case alloc_contiguous n s of
      (Some a, s') \<Rightarrow> (\<exists>st. a = frame_addr s st \<and>
          first_fit (page_bit (page_bitmap s)) n (32 * length (page_bitmap s)) st \<and>
          free_set (page_bitmap s') = free_set (page_bitmap s) - {st..<st + n}) \<and> page_inv s'
    | (None, s') \<Rightarrow> s' = s \<and> (n = 0 \<or>
        (\<nexists>st. {st..<st + n} \<subseteq> free_set (page_bitmap s) \<and> st + n \<le> 32 * length (page_bitmap s)))"
proof (cases "n = 0 \<or> no_fit (page_bit (page_bitmap s)) n (32 * length (page_bitmap s))")
  case True
  then show ?thesis using alloc_contiguous_None [OF assms] no_fit_free_set by auto
next
  case False
  then obtain st where fit: "first_fit (page_bit (page_bitmap s)) n (32 * length (page_bitmap s)) st"
    using fit_cases by blast
  show ?thesis
    using alloc_contiguous_Some(1,2) [OF assms fit] page_inv_alloc_contiguous [OF assms, of n] False fit
    by (auto simp: split_beta split: option.splits)
qed

theorem alloc_contiguous_first_fit_witness:
  "case alloc_contiguous 4 boot_pages of
      (Some a, s') \<Rightarrow> (\<exists>st. a = frame_addr boot_pages st \<and>
          first_fit (page_bit (page_bitmap boot_pages)) 4 (32 * length (page_bitmap boot_pages)) st \<and>
          free_set (page_bitmap s') = free_set (page_bitmap boot_pages) - {st..<st + 4}) \<and> page_inv s'
    | (None, s') \<Rightarrow> s' = boot_pages \<and> ((4 :: nat) = 0 \<or>
        (\<nexists>st. {st..<st + 4} \<subseteq> free_set (page_bitmap boot_pages) \<and> st + 4 \<le> 32 * length (page_bitmap boot_pages)))"
  by (rule alloc_contiguous_first_fit [OF boot_pages(1)])



text \<open>C15: Allocating a run and freeing it again restores the set of free frames and the free
  counter, and leaves the run zeroed.\<close>

theorem alloc_free_roundtrip:
  assumes "page_inv s" "alloc_contiguous n s = (Some a, s')"
  shows "fst (free_contiguous a n s') \<and>
    free_set (page_bitmap (snd (free_contiguous a n s'))) = free_set (page_bitmap s) \<and>
    free_count (snd (free_contiguous a n s')) = free_count s \<and>
    (\<forall>x. a \<le> x \<and> x < a + n * PAGE_SIZE \<longrightarrow> phys_mem (snd (free_contiguous a n s')) x = 0)"
proof -
  have n: "0 < n" using assms(2) by (cases n) (auto simp: alloc_contiguous_def)
  have "\<not> no_fit (page_bit (page_bitmap s)) n (32 * length (page_bitmap s))"
    using alloc_contiguous_None [OF assms(1), of n] assms(2) by auto
  then obtain st where fit: "first_fit (page_bit (page_bitmap s)) n (32 * length (page_bitmap s)) st"
    using fit_cases [OF n] by blast
  note al = alloc_contiguous_Some [OF assms(1) fit n, unfolded assms(2) fst_conv snd_conv]
  have inv: "page_inv s'" using page_inv_alloc_contiguous [OF assms(1), of n] assms(2) by simp
  have a: "a = frame_addr s' st" using al(1,5) by (simp add: frame_addr_def)
  have lim: "st + n \<le> 32 * length (page_bitmap s')" using fit al(4) by (simp add: first_fit_def)
  have sub: "{st..<st + n} \<subseteq> free_set (page_bitmap s)" by (rule first_fit_free_set [OF fit])
  have used: "{st..<st + n} \<inter> free_set (page_bitmap s') = {}" using al(2) by auto
  have ps: "\<forall>p\<in>set [st..<st + n]. p < 32 * length (page_bitmap s')" using lim by auto
  have "n \<le> free_pages s" using card_mono [OF finite_free_set sub] assms(1) by (simp add: page_inv_def)
  moreover have "frame_addr s' (st + n) = a + n * PAGE_SIZE" using a by (simp add: frame_addr_def algebra_simps)
  moreover have "free_set (page_bitmap s') \<union> {st..<st + n} = free_set (page_bitmap s)" using al(2) sub by auto
  ultimately show ?thesis
    using free_contiguous_ok [OF inv n lim used] fold_bitmap_clear [OF ps] a al(3)
    by (simp add: free_count_def)
qed

theorem alloc_free_roundtrip_witness:
  "\<exists>a s'. alloc_contiguous 4 boot_pages = (Some a, s') \<and> fst (free_contiguous a 4 s') \<and>
    free_set (page_bitmap (snd (free_contiguous a 4 s'))) = free_set (page_bitmap boot_pages) \<and>
    free_count (snd (free_contiguous a 4 s')) = free_count boot_pages"
proof -
  have "first_fit (page_bit (page_bitmap boot_pages)) 4 (32 * length (page_bitmap boot_pages)) 512"
  proof -
    have len: "length (page_bitmap boot_pages) = 8192" using boot_pages(1) by (simp add: page_inv_def MAX_PAGES_val)
    have bits: "page_bit (page_bitmap boot_pages) p \<longleftrightarrow> p \<notin> {512..<261888}" if "p < 262144" for p
      using that boot_pages(4) len by (auto simp: free_set_def set_eq_iff)
    have "\<not> page_bit (page_bitmap boot_pages) p" if "512 \<le> p \<and> p < 516" for p using that bits by simp
    moreover have "\<exists>p. t \<le> p \<and> p < t + 4 \<and> page_bit (page_bitmap boot_pages) p" if "t < 512" for t
      using that bits by (intro exI [of _ t]) simp
    ultimately show ?thesis using len by (simp add: first_fit_def)
  qed
  from alloc_contiguous_Some(1) [OF boot_pages(1) this]
  obtain s' where s': "alloc_contiguous 4 boot_pages = (Some (frame_addr boot_pages 512), s')"
    by (cases "alloc_contiguous 4 boot_pages") auto
  show ?thesis using alloc_free_roundtrip [OF boot_pages(1) s'] s' by blast
qed

end
