(* ===== verification/Capability.thy ===== *)
theory Capability
  imports Prelude
begin

text \<open>
  The capability bits of \<open>src/crates/thumos/src/capability.rs\<close>. A capability set is the 32-bit
  word of the newtype; \<open>cap_check\<close> takes the word of the current process as its argument (the source
  reads it from the process table) and leaves out the denial line written to the UART.
\<close>

definition MODEM :: u32 where "MODEM = push_bit 0 1"
definition RAW_NET :: u32 where "RAW_NET = push_bit 1 1"
definition KILL :: u32 where "KILL = push_bit 2 1"
definition CRYPTO :: u32 where "CRYPTO = push_bit 3 1"
definition RADIO :: u32 where "RADIO = push_bit 4 1"
definition AUDIT :: u32 where "AUDIT = push_bit 5 1"
definition IPC_INIT :: u32 where "IPC_INIT = push_bit 6 1"
definition CAP_ALL :: u32 where "CAP_ALL = 0x7F"

definition FORK_DEFAULT :: u32 where
  "FORK_DEFAULT = CAP_ALL AND NOT (MODEM OR AUDIT OR IPC_INIT)"

definition contains :: "u32 \<Rightarrow> u32 \<Rightarrow> bool" where
  "contains self cap \<longleftrightarrow> self AND cap = cap"

definition cap_check :: "u32 \<Rightarrow> u32 \<Rightarrow> unit res" where
  "cap_check caps required = (if caps AND required = required then Inr () else Inl EPERM)"

definition cap_has :: "u32 \<Rightarrow> u32 \<Rightarrow> bool" where
  "cap_has caps cap \<longleftrightarrow> caps AND cap = cap"

lemmas capability_bits [const_defs] =
  MODEM_def RAW_NET_def KILL_def CRYPTO_def RADIO_def AUDIT_def IPC_INIT_def CAP_ALL_def

text \<open>Capability sets are ordered by inclusion of bits.\<close>

definition caps_le :: "u32 \<Rightarrow> u32 \<Rightarrow> bool" where
  "caps_le a b \<longleftrightarrow> a AND b = a"

lemma caps_le_bits: "caps_le a b \<longleftrightarrow> (\<forall>i. bit a i \<longrightarrow> bit b i)"
proof
  assume "caps_le a b"
  then have "a = a AND b" by (simp add: caps_le_def)
  then show "\<forall>i. bit a i \<longrightarrow> bit b i" by (metis bit_and_iff)
next
  assume "\<forall>i. bit a i \<longrightarrow> bit b i"
  then show "caps_le a b"
    unfolding caps_le_def by (intro bit_eqI) (auto simp: bit_and_iff)
qed

lemma caps_le_refl [simp]: "caps_le a a"
  by (simp add: caps_le_def)

lemma caps_le_trans: "caps_le a b \<Longrightarrow> caps_le b c \<Longrightarrow> caps_le a c"
  by (simp add: caps_le_bits)

lemma caps_le_and [simp]: "caps_le (a AND b) a" "caps_le (a AND b) b"
  by (auto simp: caps_le_bits bit_and_iff)

lemma cap_check_mono:
  assumes "caps_le a b" "cap_check a r = Inr ()"
  shows "cap_check b r = Inr ()"
proof -
  have ar: "a AND r = r" using assms(2) by (simp add: cap_check_def split: if_splits)
  have "bit b i" if "bit r i" for i
    using that ar assms(1) by (metis bit_and_iff caps_le_bits)
  then have "b AND r = r" by (intro bit_eqI) (auto simp: bit_and_iff)
  then show ?thesis by (simp add: cap_check_def)
qed

lemma FORK_DEFAULT_val: "FORK_DEFAULT = 0x1E"
  by (simp add: FORK_DEFAULT_def const_defs)

lemma fork_default_checks:
  "cap_check FORK_DEFAULT MODEM = Inl EPERM" "cap_check FORK_DEFAULT AUDIT = Inl EPERM"
  "cap_check FORK_DEFAULT IPC_INIT = Inl EPERM" "cap_check FORK_DEFAULT KILL = Inr ()"
  "cap_check CAP_ALL IPC_INIT = Inr ()"
  by (simp_all add: cap_check_def FORK_DEFAULT_val const_defs)

end
