(* ===== verification/Ipc.thy ===== *)
theory Ipc
  imports Prelude
begin

text \<open>
  Inter-process messages of \<open>src/crates/thumos/src/ipc.rs\<close>: a fixed-size message, the ring buffer
  \<open>Inbox\<close> and the array of inboxes indexed by process id. The current process id, which the
  source reads from the process table, is an argument. The ring refines a bounded queue of
  ib_messages (an interpretation of \<open>bounded_fifo\<close>), and no taken message stays in a slot.
\<close>

section \<open>Data and operations\<close>

definition MSG_MAX_SIZE :: nat where "MSG_MAX_SIZE = 256"
definition INBOX_SIZE :: nat where "INBOX_SIZE = 16"
definition MAX_INBOX_PROCS :: nat where "MAX_INBOX_PROCS = 16"

lemmas ipc_consts [const_defs] = MSG_MAX_SIZE_def INBOX_SIZE_def MAX_INBOX_PROCS_def

record message =
  msg_from :: pid
  msg_tag :: u32
  msg_len :: usize
  msg_data :: "u8 list"

definition message_new :: "u32 \<Rightarrow> u8 list \<Rightarrow> message" where
  "message_new tag payload =
    (let n = min (length payload) MSG_MAX_SIZE in
     \<lparr>msg_from = 0, msg_tag = tag, msg_len = n,
      msg_data = take n payload @ drop n (replicate MSG_MAX_SIZE 0)\<rparr>)"

definition payload :: "message \<Rightarrow> u8 list" where
  "payload m = take (msg_len m) (msg_data m)"

record inbox =
  ib_messages :: "message option list"
  ib_head :: usize
  ib_tail :: usize
  ib_count :: usize

definition inbox_new :: inbox where
  "inbox_new = \<lparr>ib_messages = replicate INBOX_SIZE None, ib_head = 0, ib_tail = 0, ib_count = 0\<rparr>"

definition inbox_push :: "message \<Rightarrow> inbox \<Rightarrow> bool \<times> inbox" where
  "inbox_push msg q =
    (if INBOX_SIZE \<le> ib_count q then (False, q)
     else (True, q\<lparr>ib_messages := (ib_messages q)[ib_tail q := Some msg],
                   ib_tail := (ib_tail q + 1) mod INBOX_SIZE, ib_count := ib_count q + 1\<rparr>))"

definition inbox_pop :: "inbox \<Rightarrow> message option \<times> inbox" where
  "inbox_pop q =
    (if ib_count q = 0 then (None, q)
     else (ib_messages q ! ib_head q,
           q\<lparr>ib_messages := (ib_messages q)[ib_head q := None],
             ib_head := (ib_head q + 1) mod INBOX_SIZE, ib_count := ib_count q - 1\<rparr>))"

definition inbox_is_empty :: "inbox \<Rightarrow> bool" where
  "inbox_is_empty q \<longleftrightarrow> ib_count q = 0"

definition inbox_is_full :: "inbox \<Rightarrow> bool" where
  "inbox_is_full q \<longleftrightarrow> INBOX_SIZE \<le> ib_count q"

definition inbox_clear :: "inbox \<Rightarrow> inbox" where
  "inbox_clear q = inbox_new"

definition validate_pid :: "pid \<Rightarrow> usize res" where
  "validate_pid pid = (if MAX_INBOX_PROCS \<le> pid then Inl ESRCH else Inr pid)"

datatype ipc_send_error = InvalidTarget | InboxFull

definition send :: "pid \<Rightarrow> pid \<Rightarrow> message \<Rightarrow> inbox list \<Rightarrow> (ipc_send_error + unit) \<times> inbox list" where
  "send current_pid to msg inboxes =
    (case validate_pid to of
       Inl _ \<Rightarrow> (Inl InvalidTarget, inboxes)
     | Inr idx \<Rightarrow>
        (let (delivered, q) = inbox_push (msg\<lparr>msg_from := current_pid\<rparr>) (inboxes ! idx)
         in (if delivered then Inr () else Inl InboxFull, inboxes[idx := q])))"

definition recv :: "pid \<Rightarrow> inbox list \<Rightarrow> message option \<times> inbox list" where
  "recv current_pid inboxes =
    (case validate_pid current_pid of
       Inl _ \<Rightarrow> (None, inboxes)
     | Inr idx \<Rightarrow> (let (m, q) = inbox_pop (inboxes ! idx) in (m, inboxes[idx := q])))"

definition has_messages :: "pid \<Rightarrow> inbox list \<Rightarrow> bool" where
  "has_messages current_pid inboxes =
    (case validate_pid current_pid of
       Inl _ \<Rightarrow> False
     | Inr idx \<Rightarrow> \<not> inbox_is_empty (inboxes ! idx))"

definition clear_inbox :: "pid \<Rightarrow> inbox list \<Rightarrow> inbox list" where
  "clear_inbox pid inboxes =
    (case validate_pid pid of
       Inl _ \<Rightarrow> inboxes
     | Inr idx \<Rightarrow> inboxes[idx := inbox_clear (inboxes ! idx)])"

section \<open>Abstraction and invariant\<close>

definition inbox_items :: "inbox \<Rightarrow> message list" where
  "inbox_items q = map the (ring_items (ib_messages q) (ib_head q) (ib_count q))"

definition inbox_inv :: "inbox \<Rightarrow> bool" where
  "inbox_inv q \<longleftrightarrow> length (ib_messages q) = INBOX_SIZE \<and> ib_head q < INBOX_SIZE \<and> ib_count q \<le> INBOX_SIZE \<and>
     ib_tail q = (ib_head q + ib_count q) mod INBOX_SIZE \<and>
     (\<forall>i<INBOX_SIZE. (ib_messages q ! ((ib_head q + i) mod INBOX_SIZE) \<noteq> None) \<longleftrightarrow> i < ib_count q)"

lemma inbox_inv_new: "inbox_inv inbox_new" "inbox_items inbox_new = []"
  by (auto simp: inbox_inv_def inbox_new_def inbox_items_def const_defs)

lemma inbox_push_inv [inv_pres]:
  assumes "inbox_inv q"
  shows "inbox_inv (snd (inbox_push m q))"
proof (cases "ib_count q < INBOX_SIZE")
  case True
  have tl: "ib_tail q = (ib_head q + ib_count q) mod INBOX_SIZE" "ib_tail q < length (ib_messages q)"
    using assms by (auto simp: inbox_inv_def const_defs)
  have "((ib_messages q)[ib_tail q := Some m] ! ((ib_head q + i) mod INBOX_SIZE) \<noteq> None) \<longleftrightarrow> i < Suc (ib_count q)"
    if i: "i < INBOX_SIZE" for i
  proof (cases "i = ib_count q")
    case False
    then have "(ib_head q + i) mod INBOX_SIZE \<noteq> ib_tail q"
      using ring_slot_inj [OF i True, of "ib_head q"] tl(1) by auto
    then show ?thesis using i False assms by (auto simp: inbox_inv_def)
  qed (use tl in simp)
  then show ?thesis
    using True assms by (auto simp: inbox_inv_def inbox_push_def mod_simps)
next
  case False
  then show ?thesis using assms by (simp add: inbox_push_def)
qed

lemma inbox_pop_inv [inv_pres]:
  assumes "inbox_inv q"
  shows "inbox_inv (snd (inbox_pop q))"
proof (cases "ib_count q = 0")
  case True
  then show ?thesis using assms by (simp add: inbox_pop_def)
next
  case False
  have len: "length (ib_messages q) = INBOX_SIZE" "ib_head q < INBOX_SIZE" using assms by (auto simp: inbox_inv_def)
  have slot: "((ib_messages q)[ib_head q := None] ! ((Suc (ib_head q) mod INBOX_SIZE + i) mod INBOX_SIZE) \<noteq> None) \<longleftrightarrow>
      i < ib_count q - 1" if i: "i < INBOX_SIZE" for i
  proof (cases "Suc i < INBOX_SIZE")
    case True
    have "Suc (ib_head q + i) mod INBOX_SIZE \<noteq> ib_head q"
      by (rule ring_slot_next [OF True len(2)])
    then show ?thesis using True assms by (auto simp: inbox_inv_def mod_simps)
  next
    case False
    then have "Suc i = INBOX_SIZE" using i by simp
    then have "(Suc (ib_head q) mod INBOX_SIZE + i) mod INBOX_SIZE = ib_head q"
      using len by (metis add_Suc add_Suc_right mod_add_left_eq mod_add_self2 mod_less)
    then show ?thesis using len assms \<open>Suc i = INBOX_SIZE\<close> by (auto simp: inbox_inv_def)
  qed
  obtain n where n: "ib_count q = Suc n" using \<open>ib_count q \<noteq> 0\<close> by (cases "ib_count q") auto
  have "(Suc (ib_head q) mod INBOX_SIZE + (ib_count q - 1)) mod INBOX_SIZE = (ib_head q + ib_count q) mod INBOX_SIZE"
    unfolding n by (simp add: mod_simps)
  then show ?thesis
    using slot assms n len by (auto simp: inbox_pop_def inbox_inv_def const_defs)
qed

lemma inbox_items_len: "inbox_inv q \<Longrightarrow> length (inbox_items q) = ib_count q"
  by (simp add: inbox_items_def)

lemma inbox_push_items:
  assumes "inbox_inv q" "ib_count q < INBOX_SIZE"
  shows "inbox_items (snd (inbox_push m q)) = inbox_items q @ [m]"
  using assms ring_items_push [of "ib_count q" "ib_messages q" "ib_head q" "Some m"]
  by (simp add: inbox_inv_def inbox_items_def inbox_push_def)

lemma inbox_pop_items:
  assumes "inbox_inv q" "inbox_items q = m # ms"
  shows "fst (inbox_pop q) = Some m \<and> inbox_items (snd (inbox_pop q)) = ms"
proof -
  obtain n where n: "ib_count q = Suc n" using assms inbox_items_len [OF assms(1)] by (cases "ib_count q") auto
  have len: "length (ib_messages q) = INBOX_SIZE" "ib_head q < INBOX_SIZE" "n < INBOX_SIZE"
    using assms(1) n by (auto simp: inbox_inv_def)
  have "ib_messages q ! ib_head q \<noteq> None"
    using assms(1) n len by (auto simp: inbox_inv_def dest!: spec [of _ 0])
  moreover have "inbox_items q = the (ib_messages q ! ib_head q) # map the (ring_items (ib_messages q) (Suc (ib_head q) mod INBOX_SIZE) n)"
    using ring_items_Suc_front [of "ib_head q" "ib_messages q" n] len n by (simp add: inbox_items_def)
  ultimately show ?thesis
    using assms(2) n len ring_items_drop_head [of n "ib_messages q" "ib_head q" None]
    by (auto simp: inbox_pop_def inbox_items_def)
qed

interpretation ib: bounded_fifo inbox_push inbox_pop inbox_items inbox_inv INBOX_SIZE
proof (unfold_locales, goal_cases)
  case (1 q x)
  then show ?case using inbox_push_items [of q x] by (simp add: inbox_items_len) (simp add: inbox_push_def)
next
  case (2 q x)
  then show ?case by (simp add: inbox_items_len inbox_push_def)
next
  case (3 q)
  then have "ib_count q = 0" using inbox_items_len [of q] by simp
  then show ?case by (simp add: inbox_pop_def)
next
  case (4 q x xs)
  then show ?case by (rule inbox_pop_items)
next
  case (5 q x)
  then show ?case by (rule inbox_push_inv)
next
  case (6 q)
  then show ?case by (rule inbox_pop_inv)
next
  case (7 q)
  then show ?case by (simp add: inbox_items_len) (simp add: inbox_inv_def)
qed

section \<open>The array of inboxes\<close>

definition inboxes_inv :: "inbox list \<Rightarrow> bool" where
  "inboxes_inv ibs \<longleftrightarrow> length ibs = MAX_INBOX_PROCS \<and> (\<forall>q\<in>set ibs. inbox_inv q)"

definition inboxes_init :: "inbox list" where
  "inboxes_init = replicate MAX_INBOX_PROCS inbox_new"

definition mailbox :: "inbox list \<Rightarrow> pid \<Rightarrow> message list" where
  "mailbox ibs p = (if p < length ibs then inbox_items (ibs ! p) else [])"

lemma inboxes_init: "inboxes_inv inboxes_init" "mailbox inboxes_init p = []"
  by (auto simp: inboxes_inv_def inboxes_init_def mailbox_def inbox_inv_new)

lemma inboxes_update:
  assumes "inboxes_inv ibs" "i < length ibs" "inbox_inv q"
  shows "inboxes_inv (ibs[i := q])" "mailbox (ibs[i := q]) = (mailbox ibs)(i := inbox_items q)"
  using assms set_update_subset_insert [of ibs i q]
  by (auto simp: inboxes_inv_def mailbox_def fun_eq_iff)

lemma inboxes_nth: "inboxes_inv ibs \<Longrightarrow> p < length ibs \<Longrightarrow> inbox_inv (ibs ! p)"
  by (simp add: inboxes_inv_def)

text \<open>The calls as one operation type, run on the rings and on unbounded message lists.\<close>

datatype ipc_op = OpSend pid pid message | OpRecv pid | OpPoll pid | OpClear pid

datatype ipc_out = OutSend "ipc_send_error + unit" | OutRecv "message option" | OutPoll bool | OutUnit

fun ipc_step :: "ipc_op \<Rightarrow> inbox list \<Rightarrow> ipc_out \<times> inbox list" where
  "ipc_step (OpSend cur to m) ibs = (let (r, ibs') = send cur to m ibs in (OutSend r, ibs'))"
| "ipc_step (OpRecv cur) ibs = (let (r, ibs') = recv cur ibs in (OutRecv r, ibs'))"
| "ipc_step (OpPoll cur) ibs = (OutPoll (has_messages cur ibs), ibs)"
| "ipc_step (OpClear p) ibs = (OutUnit, clear_inbox p ibs)"

fun ipc_spec :: "ipc_op \<Rightarrow> (pid \<Rightarrow> message list) \<Rightarrow> ipc_out \<times> (pid \<Rightarrow> message list)" where
  "ipc_spec (OpSend cur to m) mb =
    (if MAX_INBOX_PROCS \<le> to then (OutSend (Inl InvalidTarget), mb)
     else if length (mb to) < INBOX_SIZE
       then (OutSend (Inr ()), mb(to := mb to @ [m\<lparr>msg_from := cur\<rparr>]))
     else (OutSend (Inl InboxFull), mb))"
| "ipc_spec (OpRecv cur) mb =
    (case mb cur of [] \<Rightarrow> (OutRecv None, mb) | m # ms \<Rightarrow> (OutRecv (Some m), mb(cur := ms)))"
| "ipc_spec (OpPoll cur) mb = (OutPoll (mb cur \<noteq> []), mb)"
| "ipc_spec (OpClear p) mb = (OutUnit, mb(p := []))"

lemma ipc_step_refines:
  assumes inv: "inboxes_inv ibs"
  shows "inboxes_inv (snd (ipc_step x ibs)) \<and> fst (ipc_step x ibs) = fst (ipc_spec x (mailbox ibs)) \<and>
    mailbox (snd (ipc_step x ibs)) = snd (ipc_spec x (mailbox ibs))"
proof (cases x)
  case (OpSend cur to m)
  show ?thesis
  proof (cases "to < MAX_INBOX_PROCS")
    case True
    then have to: "to < length ibs" using inv by (simp add: inboxes_inv_def)
    note q = inboxes_nth [OF inv to]
    have v: "validate_pid to = Inr to" using True by (simp add: validate_pid_def)
    let ?r = "inbox_push (m\<lparr>msg_from := cur\<rparr>) (ibs ! to)"
    note push = ib.push_items [OF q, of "m\<lparr>msg_from := cur\<rparr>"]
      and upd = inboxes_update [OF inv to inbox_push_inv [OF q, of "m\<lparr>msg_from := cur\<rparr>"]]
    show ?thesis
      using OpSend v push upd True to
      by (auto simp: send_def split_beta mailbox_def fun_eq_iff)
  next
    case False
    then show ?thesis using OpSend inv by (simp add: send_def validate_pid_def)
  qed
next
  case (OpRecv cur)
  show ?thesis
  proof (cases "cur < MAX_INBOX_PROCS")
    case True
    then have to: "cur < length ibs" using inv by (simp add: inboxes_inv_def)
    note q = inboxes_nth [OF inv to]
    have v: "validate_pid cur = Inr cur" using True by (simp add: validate_pid_def)
    have mb: "mailbox ibs cur = inbox_items (ibs ! cur)" using to by (simp add: mailbox_def)
    note pop = ib.pop_result [OF q] and upd = inboxes_update [OF inv to inbox_pop_inv [OF q]]
    show ?thesis
      using OpRecv v pop upd mb
      by (auto simp: recv_def split_beta fun_eq_iff split: list.splits)
  next
    case False
    then show ?thesis
      using OpRecv inv by (simp add: recv_def validate_pid_def mailbox_def inboxes_inv_def)
  qed
next
  case (OpPoll cur)
  then show ?thesis
    using inv inbox_items_len [OF inboxes_nth [OF inv, of cur]]
    by (auto simp: has_messages_def validate_pid_def mailbox_def inboxes_inv_def inbox_is_empty_def
        simp flip: length_greater_0_conv)
next
  case (OpClear p)
  then show ?thesis
    using inv inboxes_update [OF inv _ inbox_inv_new(1), of p]
    by (auto simp: clear_inbox_def validate_pid_def inbox_clear_def inbox_inv_new inboxes_inv_def
        mailbox_def fun_eq_iff)
qed

interpretation ipc: simulation ipc_step ipc_spec mailbox inboxes_inv
  by unfold_locales (use ipc_step_refines in blast)+

section \<open>Properties\<close>

text \<open>C6: Message passing refines per-process message queues: any interleaving of sends,
  receives, polls and inbox clears on the sixteen ring buffers returns exactly the results of the
  same calls on lists, where a send appends the message stamped with the caller's own process id
  (whatever sender the message claimed) unless sixteen are waiting, and a receive takes the
  oldest message of the caller's own queue.\<close>

theorem ipc_trace_refines:
  assumes "inboxes_inv ibs"
  shows "fst (run_ops ipc_step xs ibs) = fst (run_ops ipc_spec xs (mailbox ibs)) \<and>
    mailbox (snd (run_ops ipc_step xs ibs)) = snd (run_ops ipc_spec xs (mailbox ibs)) \<and>
    inboxes_inv (snd (run_ops ipc_step xs ibs))"
  by (rule ipc.run_refines [OF assms])

theorem ipc_trace_refines_witness:
  "fst (run_ops ipc_step [OpSend 3 1 (message_new 7 [65]), OpPoll 1, OpRecv 1, OpRecv 1] inboxes_init) =
    [OutSend (Inr ()), OutPoll True, OutRecv (Some ((message_new 7 [65])\<lparr>msg_from := 3\<rparr>)), OutRecv None]"
  using ipc_trace_refines [OF inboxes_init(1),
      of "[OpSend 3 1 (message_new 7 [65]), OpPoll 1, OpRecv 1, OpRecv 1]"]
  by (simp add: inboxes_init const_defs)

text \<open>C18: A message carries at most \<open>MSG_MAX_SIZE\<close> bytes: its payload is the given bytes cut at
  256, the buffer always has 256 bytes and the unused rest is zero, so nothing of an earlier
  message can be read through it.\<close>

theorem message_new_payload:
  "payload (message_new tag bs) = take MSG_MAX_SIZE bs \<and>
   length (msg_data (message_new tag bs)) = MSG_MAX_SIZE \<and>
   set (drop (msg_len (message_new tag bs)) (msg_data (message_new tag bs))) \<subseteq> {0}"
  by (auto simp: message_new_def payload_def Let_def min_def in_set_conv_nth)



end
