(* ===== verification/Pipe.thy ===== *)
theory Pipe
  imports Prelude
begin

text \<open>
  Pipes of \<open>src/crates/thumos/src/pipe.rs\<close>, below the system calls: the 4 KB byte ring
  \<open>PipeBuffer\<close>, the pool of eight buffers with the per-process quota, and the encoding of pipe
  ends in descriptor flags. The copy loops are written as the source has them, byte by byte;
  the ring refines a byte string of at most 4096 bytes, and pushing or popping one byte is an
  interpretation of \<open>bounded_fifo\<close>. The system calls on pipes are in the theory of the kernel
  state.
\<close>

section \<open>The byte ring\<close>

definition MAX_PIPES :: nat where "MAX_PIPES = 8"
definition PIPE_BUF_SIZE :: nat where "PIPE_BUF_SIZE = 4096"
definition PIPE_COPY_CHUNK :: nat where "PIPE_COPY_CHUNK = 1024"
definition MAX_PIPES_PER_PROCESS :: nat where "MAX_PIPES_PER_PROCESS = 4"

lemmas pipe_consts [const_defs] =
  MAX_PIPES_def PIPE_BUF_SIZE_def PIPE_COPY_CHUNK_def MAX_PIPES_PER_PROCESS_def

record pipe_buffer =
  pb_data :: "u8 list"
  read_pos :: usize
  write_pos :: usize
  pb_count :: usize
  write_closed :: bool
  read_closed :: bool
  owner_pid :: pid

definition pipe_buffer_new :: "pid \<Rightarrow> pipe_buffer" where
  "pipe_buffer_new owner = \<lparr>pb_data = replicate PIPE_BUF_SIZE 0, read_pos = 0, write_pos = 0,
     pb_count = 0, write_closed = False, read_closed = False, owner_pid = owner\<rparr>"

fun put_bytes :: "u8 list \<Rightarrow> u8 list \<Rightarrow> usize \<Rightarrow> u8 list \<times> usize" where
  "put_bytes [] data pos = (data, pos)"
| "put_bytes (b # bs) data pos = put_bytes bs (data[pos := b]) ((pos + 1) mod PIPE_BUF_SIZE)"

fun get_bytes :: "nat \<Rightarrow> u8 list \<Rightarrow> usize \<Rightarrow> u8 list \<times> usize" where
  "get_bytes 0 data pos = ([], pos)"
| "get_bytes (Suc n) data pos =
    (let (bs, pos') = get_bytes n data ((pos + 1) mod PIPE_BUF_SIZE) in (data ! pos # bs, pos'))"

definition pb_write :: "u8 list \<Rightarrow> pipe_buffer \<Rightarrow> nat \<times> pipe_buffer" where
  "pb_write src b =
    (let space = PIPE_BUF_SIZE - pb_count b in
     if space = 0 then (0, b)
     else let to_write = min (length src) space;
              (data, pos) = put_bytes (take to_write src) (pb_data b) (write_pos b)
          in (to_write, b\<lparr>pb_data := data, write_pos := pos, pb_count := pb_count b + to_write\<rparr>))"

text \<open>A read into a destination of \<open>dst_len\<close> bytes returns the bytes it stored there.\<close>

definition pb_read :: "nat \<Rightarrow> pipe_buffer \<Rightarrow> u8 list \<times> pipe_buffer" where
  "pb_read dst_len b =
    (if pb_count b = 0 then ([], b)
     else let to_read = min dst_len (pb_count b);
              (bs, pos) = get_bytes to_read (pb_data b) (read_pos b)
          in (bs, b\<lparr>read_pos := pos, pb_count := pb_count b - to_read\<rparr>))"

definition pb_peek :: "nat \<Rightarrow> pipe_buffer \<Rightarrow> u8 list" where
  "pb_peek dst_len b = fst (get_bytes (min dst_len (pb_count b)) (pb_data b) (read_pos b))"

definition pb_consume :: "nat \<Rightarrow> pipe_buffer \<Rightarrow> pipe_buffer" where
  "pb_consume len b =
    (let consumed = min len (pb_count b) in
     b\<lparr>read_pos := (read_pos b + consumed) mod PIPE_BUF_SIZE, pb_count := pb_count b - consumed\<rparr>)"

definition pb_available :: "pipe_buffer \<Rightarrow> nat" where
  "pb_available b = pb_count b"

definition pb_is_full :: "pipe_buffer \<Rightarrow> bool" where
  "pb_is_full b \<longleftrightarrow> pb_count b = PIPE_BUF_SIZE"

section \<open>The pool\<close>

definition owned_by :: "pid \<Rightarrow> pipe_buffer option \<Rightarrow> bool" where
  "owned_by p slot = (case slot of None \<Rightarrow> False | Some b \<Rightarrow> owner_pid b = p)"

definition alloc_pipe_slot :: "pid \<Rightarrow> pipe_buffer option list \<Rightarrow> nat option \<times> pipe_buffer option list" where
  "alloc_pipe_slot owner pool =
    (if MAX_PIPES_PER_PROCESS \<le> count_if (owned_by owner) pool then (None, pool)
     else case find_index Option.is_none pool of
       None \<Rightarrow> (None, pool)
     | Some i \<Rightarrow> (Some i, pool[i := Some (pipe_buffer_new owner)]))"

definition maybe_free_pipe :: "nat \<Rightarrow> pipe_buffer option list \<Rightarrow> pipe_buffer option list" where
  "maybe_free_pipe idx pool =
    (case pool ! idx of
       None \<Rightarrow> pool
     | Some b \<Rightarrow> if write_closed b \<and> read_closed b then pool[idx := None] else pool)"

definition on_pipe_fd_closed :: "nat \<Rightarrow> bool \<Rightarrow> pipe_buffer option list \<Rightarrow> pipe_buffer option list" where
  "on_pipe_fd_closed idx end_is_write pool =
    (let pool' = (case pool ! idx of
           None \<Rightarrow> pool
         | Some b \<Rightarrow> pool[idx := Some (if end_is_write then b\<lparr>write_closed := True\<rparr>
                                       else b\<lparr>read_closed := True\<rparr>)])
     in maybe_free_pipe idx pool')"

section \<open>Pipe ends in descriptor flags\<close>

definition FD_KIND_MASK :: u32 where "FD_KIND_MASK = 0x00FF"
definition FD_KIND_PIPE :: u32 where "FD_KIND_PIPE = 0x0001"
definition FD_END_MASK :: u32 where "FD_END_MASK = 0x0100"
definition FD_END_READ :: u32 where "FD_END_READ = 0x0000"
definition FD_END_WRITE :: u32 where "FD_END_WRITE = 0x0100"
definition FD_PIPE_IDX_SHIFT :: nat where "FD_PIPE_IDX_SHIFT = 9"

lemmas pipe_flag_consts [const_defs] = FD_KIND_MASK_def FD_KIND_PIPE_def FD_END_MASK_def
  FD_END_READ_def FD_END_WRITE_def FD_PIPE_IDX_SHIFT_def

definition pipe_flags :: "nat \<Rightarrow> u32 \<Rightarrow> u32" where
  "pipe_flags pipe_idx end_bit = FD_KIND_PIPE OR end_bit OR push_bit FD_PIPE_IDX_SHIFT (of_nat pipe_idx)"

definition pipe_idx_from_flags :: "u32 \<Rightarrow> nat" where
  "pipe_idx_from_flags flags = unat (drop_bit FD_PIPE_IDX_SHIFT flags AND 0x07)"

definition is_pipe_fd :: "u32 \<Rightarrow> bool" where
  "is_pipe_fd flags \<longleftrightarrow> flags AND FD_KIND_MASK = FD_KIND_PIPE"

definition is_write_end :: "u32 \<Rightarrow> bool" where
  "is_write_end flags \<longleftrightarrow> flags AND FD_END_MASK = FD_END_WRITE"

section \<open>The ring as a byte string\<close>

definition pb_bytes :: "pipe_buffer \<Rightarrow> u8 list" where
  "pb_bytes b = ring_items (pb_data b) (read_pos b) (pb_count b)"

definition pb_inv :: "pipe_buffer \<Rightarrow> bool" where
  "pb_inv b \<longleftrightarrow> length (pb_data b) = PIPE_BUF_SIZE \<and> read_pos b < PIPE_BUF_SIZE \<and>
     pb_count b \<le> PIPE_BUF_SIZE \<and> write_pos b = (read_pos b + pb_count b) mod PIPE_BUF_SIZE"

lemma pb_inv_new: "pb_inv (pipe_buffer_new p)" "pb_bytes (pipe_buffer_new p) = []"
  by (simp_all add: pb_inv_def pb_bytes_def pipe_buffer_new_def const_defs)

lemma length_pb_bytes [simp]: "length (pb_bytes b) = pb_count b"
  by (simp add: pb_bytes_def)

lemma put_bytes_ring:
  assumes "length data = PIPE_BUF_SIZE" "n + length bs \<le> PIPE_BUF_SIZE"
  shows "length (fst (put_bytes bs data ((rp + n) mod PIPE_BUF_SIZE))) = PIPE_BUF_SIZE \<and>
    ring_items (fst (put_bytes bs data ((rp + n) mod PIPE_BUF_SIZE))) rp (n + length bs) = ring_items data rp n @ bs \<and>
    snd (put_bytes bs data ((rp + n) mod PIPE_BUF_SIZE)) = (rp + n + length bs) mod PIPE_BUF_SIZE"
  using assms
proof (induction bs arbitrary: data n)
  case (Cons b bs)
  let ?d = "data[(rp + n) mod PIPE_BUF_SIZE := b]"
  have "ring_items ?d rp (Suc n) = ring_items data rp n @ [b]"
    using ring_items_push [of n data rp b] Cons.prems by simp
  moreover have "((rp + n) mod PIPE_BUF_SIZE + 1) mod PIPE_BUF_SIZE = (rp + Suc n) mod PIPE_BUF_SIZE"
    by (simp add: mod_simps)
  ultimately show ?case
    using Cons.IH [of ?d "Suc n"] Cons.prems by simp
qed simp

lemma get_bytes_ring:
  assumes "length data = PIPE_BUF_SIZE" "pos < PIPE_BUF_SIZE"
  shows "get_bytes n data pos = (ring_items data pos n, (pos + n) mod PIPE_BUF_SIZE)"
  using assms
proof (induction n arbitrary: pos)
  case (Suc n)
  then have "get_bytes n data (Suc pos mod PIPE_BUF_SIZE) =
      (ring_items data (Suc pos mod PIPE_BUF_SIZE) n, (Suc pos mod PIPE_BUF_SIZE + n) mod PIPE_BUF_SIZE)"
    by (intro Suc.IH) (simp_all add: PIPE_BUF_SIZE_def)
  then show ?case using Suc.prems ring_items_Suc_front [of pos data n] by (simp add: mod_simps)
qed simp

lemma pb_write_correct:
  assumes "pb_inv b"
  shows "pb_inv (snd (pb_write bs b))"
    "fst (pb_write bs b) = min (length bs) (PIPE_BUF_SIZE - length (pb_bytes b))"
    "pb_bytes (snd (pb_write bs b)) = pb_bytes b @ take (PIPE_BUF_SIZE - length (pb_bytes b)) bs"
proof -
  let ?bs = "take (min (length bs) (PIPE_BUF_SIZE - pb_count b)) bs"
  have len: "length (pb_data b) = PIPE_BUF_SIZE" "pb_count b + length ?bs \<le> PIPE_BUF_SIZE"
    "write_pos b = (read_pos b + pb_count b) mod PIPE_BUF_SIZE" "read_pos b < PIPE_BUF_SIZE"
    using assms by (auto simp: pb_inv_def)
  note put = put_bytes_ring [OF len(1,2), of "read_pos b", folded len(3)]
  have tk: "?bs = take (PIPE_BUF_SIZE - pb_count b) bs" by (simp add: min_def)
  show "pb_inv (snd (pb_write bs b))"
    using put len assms by (auto simp: pb_write_def Let_def split_beta pb_inv_def algebra_simps)
  show "fst (pb_write bs b) = min (length bs) (PIPE_BUF_SIZE - length (pb_bytes b))"
    by (simp add: pb_write_def Let_def split_beta)
  show "pb_bytes (snd (pb_write bs b)) = pb_bytes b @ take (PIPE_BUF_SIZE - length (pb_bytes b)) bs"
    using put tk by (auto simp: pb_write_def Let_def split_beta pb_bytes_def)
qed

lemma take_ring_items: "take k (ring_items d r n) = ring_items d r (min k n)"
  by (intro nth_equalityI) (simp_all add: ring_items_nth)

lemma drop_ring_items: "k \<le> n \<Longrightarrow> drop k (ring_items d r n) = ring_items d ((r + k) mod length d) (n - k)"
  by (intro nth_equalityI) (simp_all add: ring_items_nth mod_simps add.assoc)

lemma pb_peek_correct: "pb_inv b \<Longrightarrow> pb_peek n b = take n (pb_bytes b)"
  by (simp add: pb_peek_def pb_inv_def get_bytes_ring pb_bytes_def take_ring_items)

lemma pb_consume_correct:
  assumes "pb_inv b"
  shows "pb_inv (pb_consume n b)" "pb_bytes (pb_consume n b) = drop n (pb_bytes b)"
proof -
  have "read_pos b + min n (pb_count b) + (pb_count b - min n (pb_count b)) = read_pos b + pb_count b"
    by simp
  then have "((read_pos b + min n (pb_count b)) mod PIPE_BUF_SIZE + (pb_count b - min n (pb_count b))) mod PIPE_BUF_SIZE =
      (read_pos b + pb_count b) mod PIPE_BUF_SIZE"
    by (metis mod_add_left_eq)
  then show "pb_inv (pb_consume n b)"
    using assms by (auto simp: pb_inv_def pb_consume_def Let_def PIPE_BUF_SIZE_def)
  have "drop n (pb_bytes b) = drop (min n (pb_count b)) (pb_bytes b)" by (simp add: min_def)
  then show "pb_bytes (pb_consume n b) = drop n (pb_bytes b)"
    using assms by (simp add: pb_consume_def pb_bytes_def drop_ring_items pb_inv_def Let_def)
qed

lemma pb_read_correct:
  assumes "pb_inv b"
  shows "fst (pb_read n b) = pb_peek n b" "snd (pb_read n b) = pb_consume n b"
  using assms
  by (auto simp: pb_read_def pb_peek_def pb_consume_def pb_inv_def get_bytes_ring Let_def)

interpretation pb: bounded_fifo "\<lambda>x b. let (n, b') = pb_write [x] b in (n = 1, b')"
    "\<lambda>b. let (bs, b') = pb_read 1 b in (if bs = [] then None else Some (hd bs), b')"
    pb_bytes pb_inv PIPE_BUF_SIZE
proof (unfold_locales, goal_cases)
  case (1 b x)
  then show ?case using pb_write_correct [OF 1(1), of "[x]"] by (simp add: split_beta)
next
  case (2 b x)
  then have "pb_count b = PIPE_BUF_SIZE" by (simp add: pb_inv_def)
  then show ?case by (simp add: pb_write_def)
next
  case (3 b)
  then have "pb_count b = 0" using length_pb_bytes [of b] by simp
  then show ?case by (simp add: pb_read_def)
next
  case (4 b x xs)
  then show ?case
    using pb_read_correct [OF 4(1), of 1] pb_peek_correct [OF 4(1), of 1] pb_consume_correct [OF 4(1), of 1]
    by (simp add: split_beta)
next
  case (5 b x)
  then show ?case using pb_write_correct(1) [OF 5, of "[x]"] by (simp add: split_beta)
next
  case (6 b)
  then show ?case using pb_read_correct(2) [OF 6, of 1] pb_consume_correct(1) [OF 6, of 1] by (simp add: split_beta)
next
  case (7 b)
  then show ?case by (simp add: pb_inv_def)
qed

text \<open>Writing a block is pushing its bytes one after the other until the ring is full.\<close>

lemma pb_write_push_all:
  assumes "pb_inv b"
  shows "fst (pb_write bs b) = fst (pb.push_all bs b) \<and>
    pb_bytes (snd (pb_write bs b)) = pb_bytes (snd (pb.push_all bs b))"
  using pb.push_all_items [OF assms, of bs] pb_write_correct [OF assms, of bs] by simp

text \<open>Calls on one buffer, run on the ring and on a byte string.\<close>

datatype pipe_op = PWrite "u8 list" | PRead nat | PPeek nat | PConsume nat | PAvail

datatype pipe_out = POutN nat | POutBytes "u8 list"

fun pipe_step :: "pipe_op \<Rightarrow> pipe_buffer \<Rightarrow> pipe_out \<times> pipe_buffer" where
  "pipe_step (PWrite bs) b = (let (n, b') = pb_write bs b in (POutN n, b'))"
| "pipe_step (PRead n) b = (let (bs, b') = pb_read n b in (POutBytes bs, b'))"
| "pipe_step (PPeek n) b = (POutBytes (pb_peek n b), b)"
| "pipe_step (PConsume n) b = (POutN 0, pb_consume n b)"
| "pipe_step PAvail b = (POutN (pb_available b), b)"

fun pipe_spec :: "pipe_op \<Rightarrow> u8 list \<Rightarrow> pipe_out \<times> u8 list" where
  "pipe_spec (PWrite bs) s =
    (let acc = take (PIPE_BUF_SIZE - length s) bs in (POutN (length acc), s @ acc))"
| "pipe_spec (PRead n) s = (POutBytes (take n s), drop n s)"
| "pipe_spec (PPeek n) s = (POutBytes (take n s), s)"
| "pipe_spec (PConsume n) s = (POutN 0, drop n s)"
| "pipe_spec PAvail s = (POutN (length s), s)"

lemma pipe_step_refines:
  assumes "pb_inv b"
  shows "pb_inv (snd (pipe_step x b)) \<and> fst (pipe_step x b) = fst (pipe_spec x (pb_bytes b)) \<and>
    pb_bytes (snd (pipe_step x b)) = snd (pipe_spec x (pb_bytes b))"
  using assms
  by (cases x) (simp_all add: split_beta pb_write_correct pb_read_correct pb_peek_correct
      pb_consume_correct pb_available_def Let_def)

interpretation ps: simulation pipe_step pipe_spec pb_bytes pb_inv
  by unfold_locales (use pipe_step_refines in blast)+

section \<open>The pool\<close>

definition pool_inv :: "pipe_buffer option list \<Rightarrow> bool" where
  "pool_inv pool \<longleftrightarrow> length pool = MAX_PIPES \<and>
     (\<forall>b. Some b \<in> set pool \<longrightarrow> pb_inv b \<and> \<not> (write_closed b \<and> read_closed b)) \<and>
     (\<forall>p. count_if (owned_by p) pool \<le> MAX_PIPES_PER_PROCESS)"

definition pool_init :: "pipe_buffer option list" where
  "pool_init = replicate MAX_PIPES None"

lemma pool_init_inv: "pool_inv pool_init"
  by (auto simp: pool_inv_def pool_init_def owned_by_def)

lemma alloc_pipe_slot_SomeD:
  assumes "alloc_pipe_slot p pool = (Some i, pool')"
  shows "i < length pool" "pool ! i = None" "pool' = pool[i := Some (pipe_buffer_new p)]"
    "count_if (owned_by p) pool < MAX_PIPES_PER_PROCESS"
  using assms find_index_SomeD [of Option.is_none pool]
  by (auto simp: alloc_pipe_slot_def Option.is_none_def split: if_splits option.splits)

lemma alloc_pipe_slot_None:
  "fst (alloc_pipe_slot p pool) = None \<longleftrightarrow>
    MAX_PIPES_PER_PROCESS \<le> count_if (owned_by p) pool \<or> None \<notin> set pool"
proof -
  have "find_index Option.is_none pool = None \<longleftrightarrow> None \<notin> set pool"
    by (rule find_index_is_none)
  then show ?thesis by (auto simp: alloc_pipe_slot_def simp del: find_index_None_iff split: option.splits)
qed

lemma pool_inv_alloc [inv_pres]:
  assumes "pool_inv pool"
  shows "pool_inv (snd (alloc_pipe_slot p pool))"
proof (cases "alloc_pipe_slot p pool")
  case (Pair r pool')
  show ?thesis
  proof (cases r)
    case None
    then show ?thesis using Pair assms by (auto simp: alloc_pipe_slot_def split: if_splits option.splits)
  next
    case (Some i)
    note al = alloc_pipe_slot_SomeD [OF Pair [unfolded Some]]
    have "count_if (owned_by q) pool' \<le> MAX_PIPES_PER_PROCESS" for q
    proof (cases "q = p")
      case True
      then show ?thesis
        using count_if_update [OF al(1), of "owned_by q" "Some (pipe_buffer_new p)"] al(2-4)
        by (simp add: owned_by_def split: if_splits)
    next
      case False
      then show ?thesis
        using count_if_update [OF al(1), of "owned_by q" "Some (pipe_buffer_new p)"] al(2,3) assms
        by (auto simp: owned_by_def pool_inv_def pipe_buffer_new_def split: if_splits)
    qed
    moreover have "pb_inv b \<and> \<not> (write_closed b \<and> read_closed b)" if "Some b \<in> set pool'" for b
      using that assms al(3) set_update_subset_insert [of pool i] pb_inv_new(1) [of p]
      by (fastforce simp: pool_inv_def pipe_buffer_new_def)
    ultimately show ?thesis using Pair Some assms al(3) by (auto simp: pool_inv_def)
  qed
qed

lemma count_owned_same:
  assumes "i < length pool" "pool ! i = Some b" "owner_pid b' = owner_pid b"
  shows "count_if (owned_by p) (pool[i := Some b']) = count_if (owned_by p) pool"
  using count_if_update [OF assms(1), of "owned_by p" "Some b'"] assms(2,3)
  by (simp add: owned_by_def split: if_splits)

lemma count_owned_drop:
  assumes "i < length pool"
  shows "count_if (owned_by p) (pool[i := None]) \<le> count_if (owned_by p) pool"
  using count_if_update [OF assms, of "owned_by p" None] by (simp add: owned_by_def split: if_splits)

lemma pool_inv_update:
  assumes "pool_inv pool" "i < length pool" "pool ! i = Some b" "owner_pid b' = owner_pid b"
    "pb_inv b'" "\<not> (write_closed b' \<and> read_closed b')"
  shows "pool_inv (pool[i := Some b'])"
  using assms count_owned_same [OF assms(2-4)] set_update_subset_insert [of pool i "Some b'"]
  by (auto simp: pool_inv_def)

lemma pool_inv_drop:
  assumes "pool_inv pool" "i < length pool"
  shows "pool_inv (pool[i := None])"
proof -
  have "count_if (owned_by p) (pool[i := None]) \<le> MAX_PIPES_PER_PROCESS" for p
    using count_owned_drop [OF assms(2), of p] assms(1) by (meson le_trans pool_inv_def)
  then show ?thesis
    using assms set_update_subset_insert [of pool i None] by (auto simp: pool_inv_def)
qed

text \<open>What closing an end does to a live pipe: the buffer stays with the end marked closed, or the
  slot is free when the other end is closed already.\<close>

definition close_end :: "bool \<Rightarrow> pipe_buffer \<Rightarrow> pipe_buffer option" where
  "close_end end_is_write b =
    (if (if end_is_write then read_closed b else write_closed b) then None
     else Some (if end_is_write then b\<lparr>write_closed := True\<rparr> else b\<lparr>read_closed := True\<rparr>))"

lemma on_pipe_fd_closed_Some:
  assumes "i < length pool" "pool ! i = Some b"
  shows "on_pipe_fd_closed i w pool = pool[i := close_end w b]"
  using assms by (simp add: on_pipe_fd_closed_def maybe_free_pipe_def close_end_def)

lemma on_pipe_fd_closed_None:
  "pool ! i = None \<Longrightarrow> on_pipe_fd_closed i w pool = pool"
  by (simp add: on_pipe_fd_closed_def maybe_free_pipe_def)

lemma pool_inv_close [inv_pres]:
  assumes "pool_inv pool" "i < length pool"
  shows "pool_inv (on_pipe_fd_closed i w pool)"
proof (cases "pool ! i")
  case None
  then show ?thesis using assms(1) by (simp add: on_pipe_fd_closed_None)
next
  case (Some b)
  have b: "pb_inv b" using assms Some nth_mem [OF assms(2)] by (auto simp: pool_inv_def)
  show ?thesis
  proof (cases "if w then read_closed b else write_closed b")
    case True
    then show ?thesis
      using pool_inv_drop [OF assms] on_pipe_fd_closed_Some [OF assms(2) Some, of w] by (simp add: close_end_def)
  next
    case False
    let ?b = "if w then b\<lparr>write_closed := True\<rparr> else b\<lparr>read_closed := True\<rparr>"
    have "pool_inv (pool[i := Some ?b])"
      using b False by (intro pool_inv_update [OF assms Some]) (auto simp: pb_inv_def)
    then show ?thesis
      using on_pipe_fd_closed_Some [OF assms(2) Some, of w] False by (simp add: close_end_def)
  qed
qed

section \<open>Properties\<close>

text \<open>C7: A pipe is a byte stream: any sequence of writes, reads, peeks and consumes on the
  4096-byte ring returns exactly what it would return on a byte string that accepts a write up
  to 4096 pending bytes. Bytes come out once, in the order written, across every wrap of the
  ring; a peek followed by a consume of the same length is a read.\<close>

theorem pipe_stream_refines:
  assumes "pb_inv b"
  shows "fst (run_ops pipe_step xs b) = fst (run_ops pipe_spec xs (pb_bytes b)) \<and>
    pb_bytes (snd (run_ops pipe_step xs b)) = snd (run_ops pipe_spec xs (pb_bytes b)) \<and>
    pb_inv (snd (run_ops pipe_step xs b))"
  by (rule ps.run_refines [OF assms])

theorem pipe_stream_refines_witness:
  "fst (run_ops pipe_step [PWrite [1, 2, 3], PPeek 2, PConsume 2, PWrite [4], PRead 9] (pipe_buffer_new 5)) =
    [POutN 3, POutBytes [1, 2], POutN 0, POutN 1, POutBytes [3, 4]]"
  using pipe_stream_refines [OF pb_inv_new(1), of "[PWrite [1, 2, 3], PPeek 2, PConsume 2, PWrite [4], PRead 9]" 5]
  by (simp add: pb_inv_new const_defs)

text \<open>C19: The descriptor flags of a pipe end decode to what was encoded: for each of the eight
  slots and both ends they are recognised as a pipe, give back the slot and tell the ends apart;
  and whatever bits a flags word has, the decoded slot is inside the pool.\<close>

theorem pipe_flags_roundtrip:
  assumes "i < MAX_PIPES" "e = FD_END_READ \<or> e = FD_END_WRITE"
  shows "is_pipe_fd (pipe_flags i e) \<and> pipe_idx_from_flags (pipe_flags i e) = i \<and>
    (is_write_end (pipe_flags i e) \<longleftrightarrow> e = FD_END_WRITE) \<and> pipe_idx_from_flags f < MAX_PIPES"
proof -
  have "drop_bit FD_PIPE_IDX_SHIFT f AND 7 \<le> 7" by (simp add: word_and_le1)
  then have "unat (drop_bit FD_PIPE_IDX_SHIFT f AND 7) \<le> unat (7 :: u32)" by (simp only: word_le_nat_alt)
  then have "pipe_idx_from_flags f < MAX_PIPES" by (simp add: pipe_idx_from_flags_def const_defs)
  moreover have "i \<in> {0, 1, 2, 3, 4, 5, 6, 7}" using assms(1) by (auto simp: const_defs)
  ultimately show ?thesis
    using assms(2)
    by (elim insertE emptyE disjE)
      (simp_all add: pipe_flags_def pipe_idx_from_flags_def is_pipe_fd_def is_write_end_def const_defs)
qed

theorem pipe_flags_roundtrip_witness:
  "is_pipe_fd (pipe_flags 6 FD_END_WRITE) \<and> pipe_idx_from_flags (pipe_flags 6 FD_END_WRITE) = 6 \<and>
   (is_write_end (pipe_flags 6 FD_END_WRITE) \<longleftrightarrow> FD_END_WRITE = FD_END_WRITE) \<and>
   pipe_idx_from_flags 0xFFFFFFFF < MAX_PIPES"
  by (rule pipe_flags_roundtrip) (simp_all add: const_defs)

end
