(* ===== verification/Cpu.thy ===== *)
theory Cpu
  imports Prelude
begin

text \<open>
  The CPU state the kernel saves for a process and the decisions it takes from the saved program
  status register: the data part of \<open>src/crates/thumos/src/process.rs\<close> (lines 46 to 199).
\<close>

section \<open>Program status register\<close>

definition CPSR_MODE_MASK :: u32 where "CPSR_MODE_MASK = 0x1F"
definition CPSR_MODE_USER :: u32 where "CPSR_MODE_USER = 0x10"

definition CPSR_USER_SETTABLE :: u32 where
  "CPSR_USER_SETTABLE = 0xF8000000 OR 0x06000000 OR 0x000F0000 OR 0x0000FC00 OR 0x00000200 OR 0x00000020"

lemmas cpsr_consts [const_defs] = CPSR_MODE_MASK_def CPSR_MODE_USER_def CPSR_USER_SETTABLE_def

definition sanitize_user_cpsr :: "u32 \<Rightarrow> u32" where
  "sanitize_user_cpsr untrusted = (untrusted AND CPSR_USER_SETTABLE) OR CPSR_MODE_USER"

datatype fault_kind = DataAbort u32 u32 | PrefetchAbort u32 u32 | UndefinedInstruction

datatype fault_disposition = KillUser | KernelHalt

definition fault_disposition :: "u32 \<Rightarrow> fault_disposition" where
  "fault_disposition saved_cpsr =
    (if saved_cpsr AND CPSR_MODE_MASK = CPSR_MODE_USER then KillUser else KernelHalt)"

fun fault_exit_status :: "fault_kind \<Rightarrow> int" where
  "fault_exit_status (DataAbort _ _) = 139"
| "fault_exit_status (PrefetchAbort _ _) = 139"
| "fault_exit_status UndefinedInstruction = 132"

section \<open>Saved registers\<close>

record cpu_context =
  ctx_r :: "u32 list"
  ctx_sp :: u32
  ctx_lr :: u32
  ctx_pc :: u32
  ctx_cpsr :: u32

definition context_zero :: cpu_context where
  "context_zero = \<lparr>ctx_r = replicate 13 0, ctx_sp = 0, ctx_lr = 0, ctx_pc = 0, ctx_cpsr = 0\<rparr>"

definition context_initial :: "u32 \<Rightarrow> u32 \<Rightarrow> u32 \<Rightarrow> cpu_context" where
  "context_initial entry sp mode = \<lparr>ctx_r = replicate 13 0, ctx_sp = sp, ctx_lr = 0,
     ctx_pc = entry AND NOT 1, ctx_cpsr = mode OR push_bit 5 (entry AND 1)\<rparr>"

definition context_wf :: "cpu_context \<Rightarrow> bool" where
  "context_wf c \<longleftrightarrow> length (ctx_r c) = 13"

lemma context_wf_simps [simp]: "context_wf context_zero" "context_wf (context_initial e s m)"
  by (simp_all add: context_wf_def context_zero_def context_initial_def)

section \<open>Facts\<close>

lemma sanitize_eq: "sanitize_user_cpsr c = (c AND 0xFE0FFE20) OR 0x10"
  by (simp add: sanitize_user_cpsr_def const_defs)

lemma and_or_distrib_u32: "(a OR b) AND c = (a AND c) OR ((b :: u32) AND c)"
  by (rule bit_eqI) (auto simp: bit_and_iff bit_or_iff)

lemma and_absorb_u32: "(a AND b) AND c = a AND ((b :: u32) AND c)"
  by (rule bit_eqI) (auto simp: bit_and_iff)

lemma sanitize_mode: "sanitize_user_cpsr c AND CPSR_MODE_MASK = CPSR_MODE_USER"
  unfolding sanitize_eq and_or_distrib_u32 and_absorb_u32 by (simp add: const_defs)

text \<open>The interrupt masks (A, I, F: bits 8, 7, 6) and the Jazelle bit 24 come out clear.\<close>

lemma sanitize_masks_clear: "sanitize_user_cpsr c AND 0x010001C0 = 0"
  unfolding sanitize_eq and_or_distrib_u32 and_absorb_u32 by simp

lemma sanitize_keeps_user_bits:
  "sanitize_user_cpsr c AND CPSR_USER_SETTABLE = c AND CPSR_USER_SETTABLE"
  unfolding sanitize_eq and_or_distrib_u32 and_absorb_u32 by (simp add: const_defs)

lemma sanitize_idem [simp]: "sanitize_user_cpsr (sanitize_user_cpsr c) = sanitize_user_cpsr c"
  unfolding sanitize_user_cpsr_def [of "sanitize_user_cpsr c"] sanitize_keeps_user_bits
  by (simp add: sanitize_user_cpsr_def)

lemma sanitize_user_fault: "fault_disposition (sanitize_user_cpsr c) = KillUser"
  by (simp add: fault_disposition_def sanitize_mode)

lemma context_initial_user:
  "sanitize_user_cpsr (ctx_cpsr (context_initial e s 0x10)) = ctx_cpsr (context_initial e s 0x10)"
proof -
  have "e AND 1 = 0 \<or> e AND 1 = 1" by (simp add: and_one_eq, cases "even e") (auto simp: even_iff_mod_2_eq_zero odd_iff_mod_2_eq_one)
  then show ?thesis
    by (elim disjE) (simp_all add: context_initial_def sanitize_eq)
qed

end
