(* ===== verification/Signal.thy ===== *)
theory Signal
  imports Cpu
begin

text \<open>
  Signals of \<open>src/crates/thumos/src/signal.rs\<close>, below the process table: the signal numbers and
  their default actions, the per-process signal state, and the frame of seventeen words saved on
  the user stack. Encoding and decoding the frame is byte by byte, little endian (the target's
  native order); a frame that could not be read back is \<open>None\<close>.
\<close>

section \<open>Signals\<close>

datatype signal = Sigkill | Sigusr1 | Sigusr2 | Sigpipe | Sigterm | Sigchld

primrec signal_num :: "signal \<Rightarrow> nat" where
  "signal_num Sigkill = 9"
| "signal_num Sigusr1 = 10"
| "signal_num Sigusr2 = 12"
| "signal_num Sigpipe = 13"
| "signal_num Sigterm = 15"
| "signal_num Sigchld = 17"

definition signal_from_u32 :: "nat \<Rightarrow> signal option" where
  "signal_from_u32 n =
    (if n = 9 then Some Sigkill else if n = 10 then Some Sigusr1 else if n = 12 then Some Sigusr2
     else if n = 13 then Some Sigpipe else if n = 15 then Some Sigterm
     else if n = 17 then Some Sigchld else None)"

datatype sig_default = Terminate | Ignore

fun default_action :: "signal \<Rightarrow> sig_default" where
  "default_action Sigchld = Ignore"
| "default_action _ = Terminate"

definition can_catch :: "signal \<Rightarrow> bool" where
  "can_catch s \<longleftrightarrow> s \<noteq> Sigkill"

datatype signal_action = ActDefault | ActIgnore | ActHandler u32

definition SIG_IGN :: u32 where "SIG_IGN = 1"
definition SIG_DFL :: u32 where "SIG_DFL = 0"

lemmas signal_consts [const_defs] = SIG_IGN_def SIG_DFL_def

section \<open>Per-process signal state\<close>

record signal_state =
  handlers :: "signal_action list"
  pending :: u32

definition signal_state_new :: signal_state where
  "signal_state_new = \<lparr>handlers = replicate 18 ActDefault, pending = 0\<rparr>"

definition set_pending :: "signal \<Rightarrow> signal_state \<Rightarrow> signal_state" where
  "set_pending sig s = s\<lparr>pending := pending s OR push_bit (signal_num sig) 1\<rparr>"

definition clear_pending :: "signal \<Rightarrow> signal_state \<Rightarrow> signal_state" where
  "clear_pending sig s = s\<lparr>pending := pending s AND NOT (push_bit (signal_num sig) 1)\<rparr>"

definition next_pending :: "signal_state \<Rightarrow> signal option" where
  "next_pending s =
    (case find (\<lambda>n. pending s AND push_bit n 1 \<noteq> 0 \<and> signal_from_u32 n \<noteq> None) [0..<18] of
       None \<Rightarrow> None | Some n \<Rightarrow> signal_from_u32 n)"

definition action :: "signal \<Rightarrow> signal_state \<Rightarrow> signal_action" where
  "action sig s = handlers s ! signal_num sig"

definition set_action :: "signal \<Rightarrow> signal_action \<Rightarrow> signal_state \<Rightarrow> signal_state" where
  "set_action sig act s = s\<lparr>handlers := (handlers s)[signal_num sig := act]\<rparr>"

text \<open>The checks of \<open>sys_sigaction\<close> and the action it installs.\<close>

definition sigaction_action :: "u32 \<Rightarrow> signal_action" where
  "sigaction_action handler_ptr =
    (if handler_ptr = SIG_DFL then ActDefault else if handler_ptr = SIG_IGN then ActIgnore
     else ActHandler handler_ptr)"

section \<open>The signal frame\<close>

definition SIGNAL_FRAME_REGS :: nat where "SIGNAL_FRAME_REGS = 17"
definition SIGNAL_FRAME_SIZE :: nat where "SIGNAL_FRAME_SIZE = SIGNAL_FRAME_REGS * 4"
definition SIGNAL_TRAMPOLINE_VA :: usize where "SIGNAL_TRAMPOLINE_VA = USER_TEXT_BASE - 4096"
definition SIGRETURN_NUM :: u32 where "SIGRETURN_NUM = 81"
definition TRAMPOLINE_MOV_R7_SIGRETURN :: u32 where "TRAMPOLINE_MOV_R7_SIGRETURN = 0xE3A07051"
definition TRAMPOLINE_SVC_0 :: u32 where "TRAMPOLINE_SVC_0 = 0xEF000000"

definition trampoline_words :: "u32 list" where
  "trampoline_words = [TRAMPOLINE_MOV_R7_SIGRETURN, TRAMPOLINE_SVC_0]"

lemmas frame_consts [const_defs] = SIGNAL_FRAME_REGS_def SIGNAL_FRAME_SIZE_def
  SIGNAL_TRAMPOLINE_VA_def SIGRETURN_NUM_def TRAMPOLINE_MOV_R7_SIGRETURN_def TRAMPOLINE_SVC_0_def

definition signal_frame_address :: "u32 \<Rightarrow> u32 option" where
  "signal_frame_address sp =
    (if unat sp < SIGNAL_FRAME_SIZE then None else Some (sp - of_nat SIGNAL_FRAME_SIZE))"

definition to_bytes :: "u32 \<Rightarrow> u8 list" where
  "to_bytes w = [ucast w, ucast (drop_bit 8 w), ucast (drop_bit 16 w), ucast (drop_bit 24 w)]"

definition from_bytes :: "u8 \<Rightarrow> u8 \<Rightarrow> u8 \<Rightarrow> u8 \<Rightarrow> u32" where
  "from_bytes b0 b1 b2 b3 =
    ucast b0 OR push_bit 8 (ucast b1) OR push_bit 16 (ucast b2) OR push_bit 24 (ucast b3)"

definition encode_signal_frame :: "cpu_context \<Rightarrow> u8 list" where
  "encode_signal_frame c =
    concat (map to_bytes (ctx_r c @ [ctx_sp c, ctx_lr c, ctx_pc c, ctx_cpsr c]))"

fun decode_words :: "u8 list \<Rightarrow> u32 list" where
  "decode_words (b0 # b1 # b2 # b3 # bs) = from_bytes b0 b1 b2 b3 # decode_words bs"
| "decode_words _ = []"

definition decode_signal_frame :: "u8 list \<Rightarrow> cpu_context option" where
  "decode_signal_frame encoded =
    (let words = decode_words encoded in
     case drop 13 words of
       [sp, lr, pc, cpsr] \<Rightarrow> Some \<lparr>ctx_r = take 13 words, ctx_sp = sp, ctx_lr = lr, ctx_pc = pc,
         ctx_cpsr = sanitize_user_cpsr cpsr\<rparr>
     | _ \<Rightarrow> None)"

section \<open>Facts about signal numbers and pending bits\<close>

lemma signal_from_num [simp]: "signal_from_u32 (signal_num s) = Some s"
  by (cases s) (simp_all add: signal_from_u32_def)

lemma signal_from_SomeD: "signal_from_u32 n = Some s \<Longrightarrow> n = signal_num s"
  by (auto simp: signal_from_u32_def split: if_splits)

lemma signal_num_less [simp]: "signal_num s < 18"
  by (cases s) simp_all

lemma signal_num_inj [simp]: "signal_num s = signal_num t \<longleftrightarrow> s = t"
  by (cases s; cases t) simp_all

definition is_pending :: "signal \<Rightarrow> signal_state \<Rightarrow> bool" where
  "is_pending sig s \<longleftrightarrow> bit (pending s) (signal_num sig)"

lemma is_pending_set [simp]: "is_pending t (set_pending s st) \<longleftrightarrow> t = s \<or> is_pending t st"
  using signal_num_less [of t]
  by (auto simp: is_pending_def set_pending_def bit_or_iff bit_exp_iff simp del: signal_num_less)

lemma is_pending_clear [simp]: "is_pending t (clear_pending s st) \<longleftrightarrow> t \<noteq> s \<and> is_pending t st"
  using signal_num_less [of t]
  by (auto simp: is_pending_def clear_pending_def bit_and_iff bit_not_iff bit_exp_iff simp del: signal_num_less)

lemma handlers_pending [simp]:
  "handlers (set_pending s st) = handlers st" "handlers (clear_pending s st) = handlers st"
  by (simp_all add: set_pending_def clear_pending_def)

lemma action_set_action:
  assumes "length (handlers st) = 18"
  shows "action t (set_action s a st) = (if t = s then a else action t st)"
  using assms by (simp add: action_def set_action_def)

lemma next_pending_Some_iff:
  "next_pending st = Some s \<longleftrightarrow>
    is_pending s st \<and> (\<forall>t. is_pending t st \<longrightarrow> signal_num s \<le> signal_num t)"
proof -
  let ?P = "\<lambda>n. pending st AND push_bit n 1 \<noteq> 0 \<and> signal_from_u32 n \<noteq> None"
  have P: "?P n \<longleftrightarrow> (\<exists>t. n = signal_num t \<and> is_pending t st)" for n
  proof
    assume n: "?P n"
    then obtain t where t: "signal_from_u32 n = Some t" by blast
    then have "n = signal_num t" by (rule signal_from_SomeD)
    moreover have "n < 32" using calculation signal_num_less [of t] by linarith
    ultimately show "\<exists>t. n = signal_num t \<and> is_pending t st"
      using n mask_bit_test [of n "pending st"] by (auto simp: is_pending_def)
  next
    assume "\<exists>t. n = signal_num t \<and> is_pending t st"
    then obtain t where t: "n = signal_num t" "is_pending t st" by blast
    have "n < 32" using t(1) signal_num_less [of t] by linarith
    then show "?P n" using t mask_bit_test [of n "pending st"] by (simp add: is_pending_def)
  qed
  have "next_pending st = Some s \<longleftrightarrow> find ?P [0..<18] = Some (signal_num s)"
  proof (cases "find ?P [0..<18]")
    case (Some n)
    then have "?P n" unfolding find_upt_Some by blast
    then obtain t where "signal_from_u32 n = Some t" "n = signal_num t" using signal_from_SomeD by blast
    then show ?thesis unfolding next_pending_def Some by simp
  qed (simp add: next_pending_def)
  also have "\<dots> \<longleftrightarrow> is_pending s st \<and> (\<forall>t. is_pending t st \<longrightarrow> signal_num s \<le> signal_num t)"
    unfolding find_upt_Some P by (auto simp: not_less)
  finally show ?thesis .
qed

section \<open>Facts about the frame\<close>

lemma from_to_bytes:
  "from_bytes (ucast w) (ucast (drop_bit 8 w)) (ucast (drop_bit 16 w)) (ucast (drop_bit 24 (w :: u32))) = w"
proof (rule bit_word_eqI)
  fix n assume "n < LENGTH(32)"
  then consider "n < 8" | "8 \<le> n \<and> n < 16" | "16 \<le> n \<and> n < 24" | "24 \<le> n \<and> n < 32" by fastforce
  then show "bit (from_bytes (ucast w) (ucast (drop_bit 8 w)) (ucast (drop_bit 16 w)) (ucast (drop_bit 24 w))) n = bit w n"
    by cases (auto simp: from_bytes_def bit_or_iff bit_push_bit_iff bit_unsigned_iff bit_drop_bit_eq)
qed

lemma length_to_bytes [simp]: "length (to_bytes w) = 4"
  by (simp add: to_bytes_def)

lemma decode_words_concat: "decode_words (concat (map to_bytes ws)) = ws"
  by (induction ws) (simp_all add: to_bytes_def from_to_bytes)

lemma length_concat_to_bytes: "length (concat (map to_bytes ws)) = 4 * length ws"
  by (induction ws) simp_all

lemma encode_length: "context_wf c \<Longrightarrow> length (encode_signal_frame c) = SIGNAL_FRAME_SIZE"
  by (simp add: encode_signal_frame_def length_concat_to_bytes context_wf_def const_defs)

lemma decode_encode:
  assumes "context_wf c"
  shows "decode_signal_frame (encode_signal_frame c) = Some (c\<lparr>ctx_cpsr := sanitize_user_cpsr (ctx_cpsr c)\<rparr>)"
  using assms
  by (simp add: decode_signal_frame_def encode_signal_frame_def decode_words_concat context_wf_def
      del: map_append concat_append)

lemma length_decode_words: "length (decode_words bs) = length bs div 4"
  by (induction bs rule: decode_words.induct) simp_all

lemma length_4_conv: "length xs = 4 \<Longrightarrow> \<exists>a b c d. xs = [a, b, c, d]"
  by (auto simp: numeral_eq_Suc length_Suc_conv)

lemma decode_total:
  assumes "length bs = SIGNAL_FRAME_SIZE"
  shows "\<exists>c. decode_signal_frame bs = Some c \<and> context_wf c \<and> ctx_cpsr c = sanitize_user_cpsr (ctx_cpsr c)"
proof -
  let ?w = "decode_words bs"
  have len: "length ?w = 17" using assms by (simp add: length_decode_words const_defs)
  then have "length (drop 13 ?w) = 4" by simp
  then obtain a b c d where "drop 13 ?w = [a, b, c, d]"
    using length_4_conv by blast
  then show ?thesis using len by (auto simp: decode_signal_frame_def context_wf_def)
qed

end
