(* ===== verification/Supervisor.thy ===== *)
theory Supervisor
  imports Prelude
begin

text \<open>
  The fault supervisor of \<open>src/crates/thumos/src/supervisor.rs\<close>: the ring of fault reports filled
  by the abort handler and drained by process 0, the registry of supervised services, and the
  restart decision with its crash-loop limit. Scheduler ticks are natural numbers
  (\<open>saturating_sub\<close> is the truncated difference); the UART line for a dropped report is left out.
\<close>

section \<open>Data\<close>

definition RING_SIZE :: nat where "RING_SIZE = 16"
definition MAX_SUPERVISED :: nat where "MAX_SUPERVISED = 4"
definition MAX_RESTARTS :: nat where "MAX_RESTARTS = 3"
definition WINDOW_TICKS :: nat where "WINDOW_TICKS = 500"
definition DETAIL_CAP :: nat where "DETAIL_CAP = 64"

lemmas supervisor_consts [const_defs] =
  RING_SIZE_def MAX_SUPERVISED_def MAX_RESTARTS_def WINDOW_TICKS_def DETAIL_CAP_def

record fault_report =
  fr_pid :: pid
  fr_kind :: u8
  fr_addr :: u32
  fr_status :: u32
  fr_service :: "string option"

record supervised_service =
  svc_path :: string
  svc_pid :: "pid option"
  restarts_in_window :: nat
  window_start_tick :: nat
  gave_up :: bool

datatype decision = DNone | DRestart string | DGiveUp string

record supervisor =
  ring :: "fault_report option list"
  ring_head :: usize
  ring_count :: usize
  services :: "supervised_service option list"

definition supervisor_init :: supervisor where
  "supervisor_init = \<lparr>ring = replicate RING_SIZE None, ring_head = 0, ring_count = 0,
     services = replicate MAX_SUPERVISED None\<rparr>"

section \<open>Operations\<close>

definition claims :: "pid \<Rightarrow> supervised_service option \<Rightarrow> bool" where
  "claims p slot = (case slot of None \<Rightarrow> False | Some svc \<Rightarrow> svc_pid svc = Some p)"

definition named :: "string \<Rightarrow> supervised_service option \<Rightarrow> bool" where
  "named path slot = (case slot of None \<Rightarrow> False | Some svc \<Rightarrow> svc_path svc = path)"

text \<open>The first half of \<open>report_fault\<close>: the first service that claims the pid loses it.\<close>

definition release_claim :: "pid \<Rightarrow> supervised_service option list \<Rightarrow> string option \<times> supervised_service option list" where
  "release_claim p svcs =
    (case find_index (claims p) svcs of
       None \<Rightarrow> (None, svcs)
     | Some i \<Rightarrow> (Some (svc_path (the (svcs ! i))), svcs[i := Some ((the (svcs ! i))\<lparr>svc_pid := None\<rparr>)]))"

definition ring_push :: "fault_report \<Rightarrow> supervisor \<Rightarrow> bool \<times> supervisor" where
  "ring_push r s =
    (if RING_SIZE \<le> ring_count s then (False, s)
     else (True, s\<lparr>ring := (ring s)[(ring_head s + ring_count s) mod RING_SIZE := Some r],
                   ring_count := ring_count s + 1\<rparr>))"

definition report_fault :: "pid \<Rightarrow> u8 \<Rightarrow> u32 \<Rightarrow> u32 \<Rightarrow> supervisor \<Rightarrow> supervisor" where
  "report_fault p kind addr status s =
    (let (service, svcs) = release_claim p (services s) in
     snd (ring_push \<lparr>fr_pid = p, fr_kind = kind, fr_addr = addr, fr_status = status, fr_service = service\<rparr>
       (s\<lparr>services := svcs\<rparr>)))"

definition pop_report :: "supervisor \<Rightarrow> fault_report option \<times> supervisor" where
  "pop_report s =
    (if ring_count s = 0 then (None, s)
     else (ring s ! ring_head s,
           s\<lparr>ring := (ring s)[ring_head s := None],
             ring_head := (ring_head s + 1) mod RING_SIZE, ring_count := ring_count s - 1\<rparr>))"

definition register :: "string \<Rightarrow> pid \<Rightarrow> supervisor \<Rightarrow> supervisor" where
  "register path p s =
    (case find_index (named path) (services s) of
       Some i \<Rightarrow> s\<lparr>services := (services s)[i := Some ((the (services s ! i))\<lparr>svc_pid := Some p\<rparr>)]\<rparr>
     | None \<Rightarrow>
        (case find_index Option.is_none (services s) of
           None \<Rightarrow> s
         | Some i \<Rightarrow> s\<lparr>services := (services s)[i := Some \<lparr>svc_path = path, svc_pid = Some p,
             restarts_in_window = 0, window_start_tick = 0, gave_up = False\<rparr>]\<rparr>))"

definition set_current_pid :: "string \<Rightarrow> pid option \<Rightarrow> supervisor \<Rightarrow> supervisor" where
  "set_current_pid path p s =
    (case find_index (named path) (services s) of
       None \<Rightarrow> s
     | Some i \<Rightarrow> s\<lparr>services := (services s)[i := Some ((the (services s ! i))\<lparr>svc_pid := p\<rparr>)]\<rparr>)"

text \<open>The body of \<open>decide\<close> for the service found.\<close>

definition decide_service :: "nat \<Rightarrow> supervised_service \<Rightarrow> decision \<times> supervised_service" where
  "decide_service now svc =
    (if gave_up svc then (DNone, svc)
     else let svc1 = (if WINDOW_TICKS < now - window_start_tick svc
                      then svc\<lparr>window_start_tick := now, restarts_in_window := 0\<rparr> else svc)
          in if restarts_in_window svc1 < MAX_RESTARTS
             then (DRestart (svc_path svc1), svc1\<lparr>restarts_in_window := restarts_in_window svc1 + 1\<rparr>)
             else (DGiveUp (svc_path svc1), svc1\<lparr>gave_up := True\<rparr>))"

definition decide :: "fault_report \<Rightarrow> nat \<Rightarrow> supervisor \<Rightarrow> decision \<times> supervisor" where
  "decide report now s =
    (case fr_service report of
       None \<Rightarrow> (DNone, s)
     | Some path \<Rightarrow>
        (case find_index (named path) (services s) of
           None \<Rightarrow> (DNone, s)
         | Some i \<Rightarrow> (let (d, svc) = decide_service now (the (services s ! i))
                     in (d, s\<lparr>services := (services s)[i := Some svc]\<rparr>))))"

definition clear_pid :: "pid \<Rightarrow> supervisor \<Rightarrow> supervisor" where
  "clear_pid p s =
    s\<lparr>services := map (\<lambda>slot. if claims p slot then Some ((the slot)\<lparr>svc_pid := None\<rparr>) else slot) (services s)\<rparr>"

section \<open>Audit detail\<close>

text \<open>\<open>dec\<close> prints a \<open>u8\<close> as the formatter does; \<open>hex8\<close> is the format \<open>{:#010x}\<close>: the prefix and
  eight lower-case digits.\<close>

definition digit :: "nat \<Rightarrow> char" where
  "digit d = (if d < 10 then char_of (48 + d) else char_of (87 + d))"

definition dec :: "u8 \<Rightarrow> string" where
  "dec k = (let n = unat k in
     if n < 10 then [digit n]
     else if n < 100 then [digit (n div 10), digit (n mod 10)]
     else [digit (n div 100), digit (n div 10 mod 10), digit (n mod 10)])"

definition hex8 :: "u32 \<Rightarrow> string" where
  "hex8 w = ''0x'' @ map (\<lambda>i. digit (unat w div 16 ^ i mod 16)) (rev [0..<8])"

text \<open>The buffer keeps what fits and reports the length used.\<close>

definition audit_detail :: "fault_report \<Rightarrow> string \<times> nat" where
  "audit_detail r =
    (let text = take DETAIL_CAP (''kind='' @ dec (fr_kind r) @ '' addr='' @ hex8 (fr_addr r) @ '' status='' @ hex8 (fr_status r))
     in (text @ replicate (DETAIL_CAP - length text) (char_of (0 :: nat)), length text))"

section \<open>The ring as a queue\<close>

definition ring_reports :: "supervisor \<Rightarrow> fault_report list" where
  "ring_reports s = map the (ring_items (ring s) (ring_head s) (ring_count s))"

definition ring_inv :: "supervisor \<Rightarrow> bool" where
  "ring_inv s \<longleftrightarrow> length (ring s) = RING_SIZE \<and> ring_head s < RING_SIZE \<and> ring_count s \<le> RING_SIZE \<and>
     (\<forall>i<ring_count s. ring s ! ((ring_head s + i) mod RING_SIZE) \<noteq> None)"

lemma ring_push_inv:
  assumes "ring_inv s" "ring_count s < RING_SIZE"
  shows "ring_inv (snd (ring_push r s))"
proof -
  have "(ring s)[(ring_head s + ring_count s) mod RING_SIZE := Some r] ! ((ring_head s + i) mod RING_SIZE) \<noteq> None"
    if i: "i < Suc (ring_count s)" for i
  proof (cases "(ring_head s + i) mod RING_SIZE = (ring_head s + ring_count s) mod RING_SIZE")
    case True
    then show ?thesis using assms by (simp add: ring_inv_def RING_SIZE_def)
  next
    case False
    then have "i < ring_count s" using i by (cases "i = ring_count s") auto
    then show ?thesis using False assms by (auto simp: ring_inv_def)
  qed
  then show ?thesis using assms by (auto simp: ring_inv_def ring_push_def)
qed

lemma ring_pop_inv:
  assumes "ring_inv s" "0 < ring_count s"
  shows "ring_inv (snd (pop_report s))"
proof -
  have len: "length (ring s) = RING_SIZE" "ring_head s < RING_SIZE" "ring_count s \<le> RING_SIZE"
    using assms(1) by (auto simp: ring_inv_def)
  have "(ring s)[ring_head s := None] ! ((Suc (ring_head s) mod RING_SIZE + i) mod RING_SIZE) \<noteq> None"
    if i: "i < ring_count s - 1" for i
  proof -
    have "Suc (ring_head s + i) mod RING_SIZE \<noteq> ring_head s"
      using i len by (intro ring_slot_next) auto
    moreover have "ring s ! ((ring_head s + Suc i) mod RING_SIZE) \<noteq> None"
      using assms(1) i by (auto simp: ring_inv_def dest!: spec [of _ "Suc i"])
    ultimately show ?thesis by (simp add: mod_simps)
  qed
  then show ?thesis using assms len by (auto simp: ring_inv_def pop_report_def RING_SIZE_def)
qed

interpretation fault_ring: bounded_fifo ring_push pop_report ring_reports ring_inv RING_SIZE
proof (unfold_locales, goal_cases)
  case (1 s r)
  then show ?case
    using ring_items_push [of "ring_count s" "ring s" "ring_head s" "Some r"]
    by (simp add: ring_reports_def ring_push_def ring_inv_def)
next
  case (2 s r)
  then show ?case by (simp add: ring_reports_def ring_push_def)
next
  case (3 s)
  then show ?case by (simp add: ring_reports_def pop_report_def ring_items_def)
next
  case (4 s x xs)
  then obtain n where n: "ring_count s = Suc n" by (cases "ring_count s") (auto simp: ring_reports_def)
  have len: "length (ring s) = RING_SIZE" "ring_head s < RING_SIZE" "n < RING_SIZE"
    using 4(1) n by (auto simp: ring_inv_def)
  have "ring s ! ring_head s \<noteq> None"
    using 4(1) n len by (auto simp: ring_inv_def dest!: spec [of _ 0])
  then show ?case
    using 4(2) n len ring_items_Suc_front [of "ring_head s" "ring s" n]
      ring_items_drop_head [of n "ring s" "ring_head s" None]
    by (auto simp: pop_report_def ring_reports_def)
next
  case (5 s r)
  then show ?case
    using ring_push_inv [of s r] by (cases "ring_count s < RING_SIZE") (simp_all add: ring_push_def)
next
  case (6 s)
  then show ?case
    using ring_pop_inv [of s] by (cases "0 < ring_count s") (simp_all add: pop_report_def)
next
  case (7 s)
  then show ?case by (simp add: ring_reports_def ring_inv_def)
qed

lemma supervisor_init_inv: "ring_inv supervisor_init" "ring_reports supervisor_init = []"
  by (simp_all add: ring_inv_def ring_reports_def supervisor_init_def const_defs)

lemma ring_services_indep [simp]:
  "ring_inv (s\<lparr>services := v\<rparr>) = ring_inv s" "ring_reports (s\<lparr>services := v\<rparr>) = ring_reports s"
  by (simp_all add: ring_inv_def ring_reports_def)

lemma ring_register [simp]:
  "ring_inv (register path p s) = ring_inv s" "ring_reports (register path p s) = ring_reports s"
  by (simp_all add: register_def split: option.split)

lemma services_ring_push [simp]: "services (snd (ring_push r s)) = services s"
  by (simp add: ring_push_def)

section \<open>Claims\<close>

definition unique_claims :: "supervisor \<Rightarrow> bool" where
  "unique_claims s \<longleftrightarrow> (\<forall>i j. i < length (services s) \<and> j < length (services s) \<and> i \<noteq> j \<longrightarrow>
     (\<forall>p. \<not> (claims p (services s ! i) \<and> claims p (services s ! j))))"

lemma release_claim_None:
  "\<forall>slot\<in>set svcs. \<not> claims p slot \<Longrightarrow> release_claim p svcs = (None, svcs)"
proof -
  assume "\<forall>slot\<in>set svcs. \<not> claims p slot"
  then have "find_index (claims p) svcs = None" by simp
  then show ?thesis by (simp only: release_claim_def option.case)
qed

lemma release_claim_Some:
  assumes "i < length svcs" "svcs ! i = Some svc" "svc_pid svc = Some p"
    and "\<And>j. j < i \<Longrightarrow> \<not> claims p (svcs ! j)"
  shows "release_claim p svcs = (Some (svc_path svc), svcs[i := Some (svc\<lparr>svc_pid := None\<rparr>)])"
proof -
  have "find_index (claims p) svcs = Some i"
    using assms by (intro find_index_SomeI) (auto simp: claims_def)
  then show ?thesis using assms by (simp add: release_claim_def)
qed

lemma clear_pid_no_claim: "slot \<in> set (services (clear_pid p s)) \<Longrightarrow> \<not> claims p slot"
  by (auto simp: clear_pid_def claims_def split: option.splits)

section \<open>Crash loops\<close>

fun is_restart :: "decision \<Rightarrow> bool" where
  "is_restart (DRestart _) = True"
| "is_restart _ = False"

lemma gave_up_sticky:
  "gave_up svc \<Longrightarrow> run_ops decide_service ts svc = (replicate (length ts) DNone, svc)"
  by (induction ts) (simp_all add: decide_service_def)

lemma decide_same_window:
  assumes "\<not> gave_up svc" "\<forall>t\<in>set ts. t - window_start_tick svc \<le> WINDOW_TICKS"
  shows "count_if is_restart (fst (run_ops decide_service ts svc)) \<le> MAX_RESTARTS - restarts_in_window svc"
  using assms
proof (induction ts arbitrary: svc)
  case (Cons t ts)
  have t: "\<not> WINDOW_TICKS < t - window_start_tick svc" using Cons.prems(2) by auto
  show ?case
  proof (cases "restarts_in_window svc < MAX_RESTARTS")
    case True
    let ?svc = "svc\<lparr>restarts_in_window := restarts_in_window svc + 1\<rparr>"
    have "decide_service t svc = (DRestart (svc_path svc), ?svc)"
      using t True Cons.prems(1) by (simp add: decide_service_def)
    moreover have "count_if is_restart (fst (run_ops decide_service ts ?svc)) \<le> MAX_RESTARTS - Suc (restarts_in_window svc)"
      using Cons.IH [of ?svc] Cons.prems by simp
    ultimately show ?thesis using True by (simp add: split_beta)
  next
    case False
    let ?svc = "svc\<lparr>gave_up := True\<rparr>"
    have "decide_service t svc = (DGiveUp (svc_path svc), ?svc)"
      using t False Cons.prems(1) by (simp add: decide_service_def)
    then show ?thesis using gave_up_sticky [of ?svc ts] by (simp add: split_beta)
  qed
qed simp

lemma decide_span:
  assumes "\<not> gave_up svc" "\<forall>t\<in>set ts. lo \<le> t \<and> t \<le> lo + WINDOW_TICKS"
  shows "count_if is_restart (fst (run_ops decide_service ts svc)) \<le> (MAX_RESTARTS - restarts_in_window svc) + MAX_RESTARTS"
  using assms
proof (induction ts arbitrary: svc)
  case (Cons t ts)
  show ?case
  proof (cases "WINDOW_TICKS < t - window_start_tick svc")
    case True
    let ?svc = "svc\<lparr>window_start_tick := t, restarts_in_window := 1\<rparr>"
    have "decide_service t svc = (DRestart (svc_path svc), ?svc)"
      using True Cons.prems(1) by (simp add: decide_service_def MAX_RESTARTS_def)
    moreover have "count_if is_restart (fst (run_ops decide_service ts ?svc)) \<le> MAX_RESTARTS - 1"
      using decide_same_window [of ?svc ts] Cons.prems by fastforce
    ultimately show ?thesis by (simp add: split_beta MAX_RESTARTS_def)
  next
    case win: False
    show ?thesis
    proof (cases "restarts_in_window svc < MAX_RESTARTS")
      case True
      let ?svc = "svc\<lparr>restarts_in_window := restarts_in_window svc + 1\<rparr>"
      have "decide_service t svc = (DRestart (svc_path svc), ?svc)"
        using win True Cons.prems(1) by (simp add: decide_service_def)
      moreover have "count_if is_restart (fst (run_ops decide_service ts ?svc)) \<le>
          (MAX_RESTARTS - Suc (restarts_in_window svc)) + MAX_RESTARTS"
        using Cons.IH [of ?svc] Cons.prems by simp
      ultimately show ?thesis using True by (simp add: split_beta)
    next
      case False
      let ?svc = "svc\<lparr>gave_up := True\<rparr>"
      have "decide_service t svc = (DGiveUp (svc_path svc), ?svc)"
        using win False Cons.prems(1) by (simp add: decide_service_def)
      then show ?thesis using gave_up_sticky [of ?svc ts] by (simp add: split_beta)
    qed
  qed
qed simp

lemma svc_path_decide_service [simp]: "svc_path (snd (decide_service now svc)) = svc_path svc"
  by (simp add: decide_service_def Let_def)

text \<open>Deciding repeatedly on the reports of one service acts on that service's entry alone.\<close>

definition watches :: "fault_report \<Rightarrow> nat \<Rightarrow> supervisor \<Rightarrow> bool" where
  "watches r i s = (case fr_service r of None \<Rightarrow> False
     | Some path \<Rightarrow> find_index (named path) (services s) = Some i)"

lemma watches_step:
  assumes "watches r i s"
  shows "decide r now s = (fst (decide_service now (the (services s ! i))),
    s\<lparr>services := (services s)[i := Some (snd (decide_service now (the (services s ! i))))]\<rparr>)"
    "watches r i (snd (decide r now s))" "i < length (services s)"
proof -
  obtain path where p: "fr_service r = Some path" "find_index (named path) (services s) = Some i"
    using assms by (auto simp: watches_def split: option.splits)
  show eq: "decide r now s = (fst (decide_service now (the (services s ! i))),
    s\<lparr>services := (services s)[i := Some (snd (decide_service now (the (services s ! i))))]\<rparr>)"
    using p by (simp add: decide_def split_beta)
  note i = find_index_SomeD [OF p(2)]
  show "i < length (services s)" using i by blast
  then show "watches r i (snd (decide r now s))"
    using i p unfolding eq watches_def
    by (auto simp: named_def nth_list_update split: option.splits intro!: find_index_SomeI)
qed

interpretation dec: simulation "decide r" decide_service "\<lambda>s. the (services s ! i)" "watches r i" for r i
proof (unfold_locales, goal_cases)
  case (1 s x)
  then show ?case by (rule watches_step(2))
next
  case (2 s x)
  then show ?case by (simp add: watches_step(1))
next
  case (3 s x)
  then show ?case using watches_step(3) [OF 3] by (simp add: watches_step(1))
qed

section \<open>Properties\<close>





lemma length_dec: "length (dec k) \<le> 3"
  by (simp add: dec_def Let_def)

lemma length_hex8 [simp]: "length (hex8 w) = 10"
  by (simp add: hex8_def)

text \<open>C17: The audit record of a fault is never truncated: for every report the rendered text has
  at most 42 characters, so it fits the 64-byte buffer whole, and the used length tells where it
  ends.\<close>

theorem audit_detail_fits:
  "snd (audit_detail r) \<le> 42 \<and> length (fst (audit_detail r)) = DETAIL_CAP \<and>
   take (snd (audit_detail r)) (fst (audit_detail r)) =
     ''kind='' @ dec (fr_kind r) @ '' addr='' @ hex8 (fr_addr r) @ '' status='' @ hex8 (fr_status r)"
proof -
  let ?t = "''kind='' @ dec (fr_kind r) @ '' addr='' @ hex8 (fr_addr r) @ '' status='' @ hex8 (fr_status r)"
  have len: "length ?t \<le> 42" using length_dec [of "fr_kind r"] by simp
  then have "take DETAIL_CAP ?t = ?t" by (intro take_all) (simp only: DETAIL_CAP_def)
  then have "audit_detail r = (?t @ replicate (DETAIL_CAP - length ?t) (char_of (0 :: nat)), length ?t)"
    by (simp only: audit_detail_def Let_def)
  then show ?thesis using len by (simp add: DETAIL_CAP_def del: append_Cons append_assoc)
qed

end
