(* ===== verification/Mmu.thy ===== *)
theory Mmu
  imports Page
begin

text \<open>
  Page tables of \<open>src/crates/thumos/src/mmu.rs\<close>. The tables are statics of the kernel image; their
  words are a store \<open>tbl\<close> indexed by byte address, and the addresses the linker gives the four
  statics (\<open>L1\<close>, \<open>KERNEL_L2\<close>, \<open>L2_TABLES\<close>, \<open>USER_TABLES\<close>) are fields of the state that no operation
  changes, constrained by \<open>layout_ok\<close> (alignment and disjointness, which the \<open>repr\<close> attributes and
  the linker guarantee). \<open>ttbr0\<close> is the translation base register that \<open>switch_addr_space\<close> writes;
  cache and TLB maintenance have no effect on this state.

  The ownership invariant \<open>mmu_inv\<close> says that every second-level table of the pool that some live
  first-level entry points to is allocated and is pointed to by that entry alone; from it
  follows that mapping a page in one address space leaves every other one as it was.
\<close>

section \<open>Descriptor flags\<close>

definition SECTION :: u32 where "SECTION = 0b10"
definition S_AP_PL1_ONLY :: u32 where "S_AP_PL1_ONLY = push_bit 10 0b01"
definition S_SHAREABLE :: u32 where "S_SHAREABLE = push_bit 16 1"
definition S_NORMAL_WB_WA :: u32 where "S_NORMAL_WB_WA = push_bit 12 0b001 OR push_bit 3 1 OR push_bit 2 1"
definition S_DEVICE :: u32 where "S_DEVICE = push_bit 2 1"
definition S_XN :: u32 where "S_XN = push_bit 4 1"

definition L1_PAGE_TABLE :: u32 where "L1_PAGE_TABLE = 0b01"
definition SMALL_PAGE :: u32 where "SMALL_PAGE = 0b10"
definition AP_FULL :: u32 where "AP_FULL = push_bit 4 0b11"
definition AP_READ_ONLY :: u32 where "AP_READ_ONLY = push_bit 4 0b10"
definition AP_KERNEL_ONLY :: u32 where "AP_KERNEL_ONLY = push_bit 4 0b01"
definition AP_KERNEL_RO :: u32 where "AP_KERNEL_RO = push_bit 4 0b01 OR push_bit 9 1"
definition XN :: u32 where "XN = 1"
definition SHAREABLE :: u32 where "SHAREABLE = push_bit 10 1"
definition NORMAL_WB_WA :: u32 where "NORMAL_WB_WA = push_bit 6 0b001 OR push_bit 3 1 OR push_bit 2 1"
definition NG :: u32 where "NG = push_bit 11 1"

definition PROT_READ :: u32 where "PROT_READ = 1"
definition PROT_WRITE :: u32 where "PROT_WRITE = 2"
definition PROT_EXEC :: u32 where "PROT_EXEC = 4"

lemmas mmu_flags [const_defs] = SECTION_def S_AP_PL1_ONLY_def S_SHAREABLE_def S_NORMAL_WB_WA_def
  S_DEVICE_def S_XN_def L1_PAGE_TABLE_def SMALL_PAGE_def AP_FULL_def AP_READ_ONLY_def
  AP_KERNEL_ONLY_def AP_KERNEL_RO_def XN_def SHAREABLE_def NORMAL_WB_WA_def NG_def
  PROT_READ_def PROT_WRITE_def PROT_EXEC_def

definition KERNEL_DEFAULT_PAGE :: u32 where
  "KERNEL_DEFAULT_PAGE = SMALL_PAGE OR SHAREABLE OR NORMAL_WB_WA OR AP_KERNEL_ONLY OR XN"

section \<open>State\<close>

definition L2_POOL_SIZE :: nat where "L2_POOL_SIZE = 64"
definition USER_TABLE_COUNT :: nat where "USER_TABLE_COUNT = 16"
definition SECTION_SIZE :: nat where "SECTION_SIZE = 2 ^ 20"
definition KERNEL_SECTIONS :: nat where "KERNEL_SECTIONS = (KERNEL_END - RAM_START) div SECTION_SIZE"
definition KERNEL_MB :: nat where "KERNEL_MB = RAM_START div SECTION_SIZE"

lemma mmu_sizes [const_defs]: "L2_POOL_SIZE = 64" "USER_TABLE_COUNT = 16" "SECTION_SIZE = 1048576"
    "KERNEL_SECTIONS = 2" "KERNEL_MB = 1024"
  by (simp_all add: L2_POOL_SIZE_def USER_TABLE_COUNT_def SECTION_SIZE_def KERNEL_SECTIONS_def
      KERNEL_MB_def memory_map)

record mmu_state =
  l1_base :: usize
  kernel_l2_base :: usize
  l2_base :: usize
  user_base :: usize
  tbl :: "usize \<Rightarrow> u32"
  l2_alloc :: u64
  addr_space_alloc :: u16
  ttbr0 :: usize

definition table_base :: "mmu_state \<Rightarrow> usize" where
  "table_base m = l1_base m"

definition l2_table_addr :: "mmu_state \<Rightarrow> nat \<Rightarrow> usize" where
  "l2_table_addr m i = l2_base m + i * 1024"

definition user_table_addr :: "mmu_state \<Rightarrow> nat \<Rightarrow> usize" where
  "user_table_addr m i = user_base m + i * 16384"

text \<open>A loop that writes \<open>n\<close> consecutive table words.\<close>

definition fill_words :: "usize \<Rightarrow> nat \<Rightarrow> (nat \<Rightarrow> u32) \<Rightarrow> (usize \<Rightarrow> u32) \<Rightarrow> (usize \<Rightarrow> u32)" where
  "fill_words base n f t = fold (\<lambda>i t. t(base + 4 * i := f i)) [0..<n] t"

definition l1_index :: "usize \<Rightarrow> nat" where
  "l1_index va = va div 2 ^ 20"

definition l2_index :: "usize \<Rightarrow> nat" where
  "l2_index va = va div 2 ^ 12 mod 256"

text \<open>The address field of a page-table descriptor.\<close>

definition l2_of :: "u32 \<Rightarrow> usize" where
  "l2_of l1_val = unat (l1_val AND 0xFFFFFC00)"

section \<open>Second-level tables\<close>

definition alloc_l2_table :: "mmu_state \<Rightarrow> usize option \<times> mmu_state" where
  "alloc_l2_table m =
    (case find (\<lambda>i. l2_alloc m AND push_bit i 1 = 0) [0..<L2_POOL_SIZE] of
       None \<Rightarrow> (None, m)
     | Some slot \<Rightarrow>
        (Some (l2_table_addr m slot),
         m\<lparr>l2_alloc := l2_alloc m OR push_bit slot 1,
           tbl := fill_words (l2_table_addr m slot) 256 (\<lambda>_. 0) (tbl m)\<rparr>))"

definition free_l2_table :: "usize \<Rightarrow> mmu_state \<Rightarrow> bool \<times> mmu_state" where
  "free_l2_table phys_addr m =
    (case find (\<lambda>i. l2_table_addr m i = phys_addr) [0..<L2_POOL_SIZE] of
       None \<Rightarrow> (False, m)
     | Some i \<Rightarrow> (True, m\<lparr>l2_alloc := l2_alloc m AND NOT (push_bit i 1)\<rparr>))"

definition prot_to_l2_flags :: "u32 \<Rightarrow> u32" where
  "prot_to_l2_flags prot_flags =
    (let attrs = SMALL_PAGE OR SHAREABLE OR NORMAL_WB_WA OR NG;
         attrs = attrs OR (if prot_flags AND PROT_WRITE \<noteq> 0 then AP_FULL
           else if prot_flags AND PROT_READ \<noteq> 0 then AP_READ_ONLY else AP_KERNEL_ONLY)
     in if prot_flags AND PROT_WRITE \<noteq> 0 \<or> prot_flags AND PROT_EXEC = 0 then attrs OR XN else attrs)"

definition map_page :: "usize \<Rightarrow> usize \<Rightarrow> usize \<Rightarrow> u32 \<Rightarrow> mmu_state \<Rightarrow> bool \<times> mmu_state" where
  "map_page l1_phys virt_addr phys_addr l2_attrs m =
    (let l1_entry = l1_phys + 4 * l1_index virt_addr;
         l1_val = tbl m l1_entry;
         write = (\<lambda>l2_phys m. (True, m\<lparr>tbl := (tbl m)(l2_phys + 4 * l2_index virt_addr :=
           (of_nat phys_addr AND 0xFFFFF000) OR l2_attrs)\<rparr>))
     in if l1_val AND 0b11 = L1_PAGE_TABLE then write (l2_of l1_val) m
        else if l1_val AND 0b11 = 0 then
          (case alloc_l2_table m of
             (None, m1) \<Rightarrow> (False, m1)
           | (Some new_l2, m1) \<Rightarrow>
               write new_l2 (m1\<lparr>tbl := (tbl m1)(l1_entry := of_nat new_l2 OR L1_PAGE_TABLE)\<rparr>))
        else (False, m))"

definition shatter_section :: "usize \<Rightarrow> usize \<Rightarrow> mmu_state \<Rightarrow> bool \<times> mmu_state" where
  "shatter_section l1_phys virt_addr m =
    (let l1_entry = l1_phys + 4 * l1_index virt_addr; l1_val = tbl m l1_entry in
     if l1_val AND 0b11 = L1_PAGE_TABLE then (True, m)
     else if l1_val AND 0b11 \<noteq> SECTION then (False, m)
     else case alloc_l2_table m of
       (None, m1) \<Rightarrow> (False, m1)
     | (Some l2_phys, m1) \<Rightarrow>
        (True, m1\<lparr>tbl := (fill_words l2_phys 256
            (\<lambda>i. ((l1_val AND 0xFFF00000) + push_bit 12 (of_nat i)) OR KERNEL_DEFAULT_PAGE) (tbl m1))
            (l1_entry := of_nat l2_phys OR L1_PAGE_TABLE)\<rparr>))"

definition ensure_page_mappable :: "usize \<Rightarrow> usize \<Rightarrow> mmu_state \<Rightarrow> bool \<times> mmu_state" where
  "ensure_page_mappable l1_phys virt_addr m =
    (if tbl m (l1_phys + 4 * l1_index virt_addr) AND 0b11 \<noteq> SECTION then (True, m)
     else shatter_section l1_phys virt_addr m)"

definition reset_shattered_section :: "usize \<Rightarrow> usize \<Rightarrow> mmu_state \<Rightarrow> bool \<times> mmu_state" where
  "reset_shattered_section l1_phys virt_addr m =
    (let l1_val = tbl m (l1_phys + 4 * l1_index virt_addr) in
     if l1_val AND 0b11 \<noteq> L1_PAGE_TABLE then (False, m)
     else (True, m\<lparr>tbl := fill_words (l2_of l1_val) 256
        (\<lambda>i. ((of_nat virt_addr AND 0xFFF00000) + push_bit 12 (of_nat i)) OR KERNEL_DEFAULT_PAGE) (tbl m)\<rparr>))"

definition read_l2_entry :: "usize \<Rightarrow> usize \<Rightarrow> mmu_state \<Rightarrow> u32 option" where
  "read_l2_entry l1_phys virt_addr m =
    (let l1_val = tbl m (l1_phys + 4 * l1_index virt_addr) in
     if l1_val AND 0b11 \<noteq> L1_PAGE_TABLE then None
     else Some (tbl m (l2_of l1_val + 4 * l2_index virt_addr)))"

definition l2_entry_is_user :: "u32 \<Rightarrow> bool" where
  "l2_entry_is_user entry \<longleftrightarrow> entry AND SMALL_PAGE \<noteq> 0 \<and> entry AND NG \<noteq> 0"

text \<open>\<open>for_each_user_page\<close> calls \<open>f\<close> on every user page until it returns false. The tables are read
  while \<open>f\<close> runs, so the loops carry the caller's state \<open>'s\<close>, in which \<open>get\<close> finds the tables.\<close>

fun each_l2_entry :: "('s \<Rightarrow> mmu_state) \<Rightarrow> (usize \<Rightarrow> usize \<Rightarrow> u32 \<Rightarrow> 's \<Rightarrow> bool \<times> 's) \<Rightarrow>
    usize \<Rightarrow> nat \<Rightarrow> nat list \<Rightarrow> 's \<Rightarrow> bool \<times> 's" where
  "each_l2_entry get f l2 l1_idx [] s = (True, s)"
| "each_l2_entry get f l2 l1_idx (l2_idx # is) s =
    (let entry = tbl (get s) (l2 + 4 * l2_idx) in
     if \<not> l2_entry_is_user entry then each_l2_entry get f l2 l1_idx is s
     else case f (l1_idx * 2 ^ 20 + l2_idx * 2 ^ 12) (unat (entry AND 0xFFFFF000)) (entry AND 0xFFF) s of
       (False, s') \<Rightarrow> (False, s')
     | (True, s') \<Rightarrow> each_l2_entry get f l2 l1_idx is s')"

fun each_l1_entry :: "('s \<Rightarrow> mmu_state) \<Rightarrow> (usize \<Rightarrow> usize \<Rightarrow> u32 \<Rightarrow> 's \<Rightarrow> bool \<times> 's) \<Rightarrow>
    usize \<Rightarrow> nat list \<Rightarrow> 's \<Rightarrow> bool \<times> 's" where
  "each_l1_entry get f l1 [] s = (True, s)"
| "each_l1_entry get f l1 (l1_idx # is) s =
    (let l1_val = tbl (get s) (l1 + 4 * l1_idx) in
     if l1_val AND 0b11 \<noteq> L1_PAGE_TABLE then each_l1_entry get f l1 is s
     else case each_l2_entry get f (l2_of l1_val) l1_idx [0..<256] s of
       (False, s') \<Rightarrow> (False, s')
     | (True, s') \<Rightarrow> each_l1_entry get f l1 is s')"

definition for_each_user_page :: "('s \<Rightarrow> mmu_state) \<Rightarrow> (usize \<Rightarrow> usize \<Rightarrow> u32 \<Rightarrow> 's \<Rightarrow> bool \<times> 's) \<Rightarrow>
    usize \<Rightarrow> 's \<Rightarrow> bool \<times> 's" where
  "for_each_user_page get f l1_phys s = each_l1_entry get f l1_phys [0..<4096] s"

definition unmap_page :: "usize \<Rightarrow> usize \<Rightarrow> mmu_state \<Rightarrow> mmu_state" where
  "unmap_page l1_phys virt_addr m =
    (let l1_entry = l1_phys + 4 * l1_index virt_addr; l1_val = tbl m l1_entry in
     if l1_val AND 0b11 = L1_PAGE_TABLE then
       let l2_phys = l2_of l1_val;
           m1 = m\<lparr>tbl := (tbl m)(l2_phys + 4 * l2_index virt_addr := 0)\<rparr>
       in if list_all (\<lambda>i. tbl m1 (l2_phys + 4 * i) = 0) [0..<256]
          then snd (free_l2_table l2_phys (m1\<lparr>tbl := (tbl m1)(l1_entry := 0)\<rparr>))
          else m1
     else m)"

definition read_l2_phys :: "usize \<Rightarrow> usize \<Rightarrow> mmu_state \<Rightarrow> usize option" where
  "read_l2_phys l1_phys virt_addr m =
    (let l1_val = tbl m (l1_phys + 4 * l1_index virt_addr) in
     if l1_val AND 0b11 \<noteq> L1_PAGE_TABLE then None
     else let l2_val = tbl m (l2_of l1_val + 4 * l2_index virt_addr) in
       if l2_val AND 0b11 = 0 then None else Some (unat (l2_val AND 0xFFFFF000)))"

definition update_page_prot :: "usize \<Rightarrow> usize \<Rightarrow> u32 \<Rightarrow> mmu_state \<Rightarrow> bool \<times> mmu_state" where
  "update_page_prot l1_phys virt_addr l2_attrs m =
    (let l1_val = tbl m (l1_phys + 4 * l1_index virt_addr) in
     if l1_val AND 0b11 \<noteq> L1_PAGE_TABLE then (False, m)
     else let l2_entry = l2_of l1_val + 4 * l2_index virt_addr; old = tbl m l2_entry in
       if old AND 0b11 = 0 then (False, m)
       else (True, m\<lparr>tbl := (tbl m)(l2_entry := (old AND 0xFFFFF000) OR l2_attrs)\<rparr>))"

section \<open>Address spaces\<close>

definition alloc_addr_space :: "mmu_state \<Rightarrow> usize option \<times> mmu_state" where
  "alloc_addr_space m =
    (case find (\<lambda>i. addr_space_alloc m AND push_bit i 1 = 0) [0..<USER_TABLE_COUNT] of
       None \<Rightarrow> (None, m)
     | Some slot \<Rightarrow>
        (Some (user_table_addr m slot),
         m\<lparr>addr_space_alloc := addr_space_alloc m OR push_bit slot 1,
           tbl := fill_words (user_table_addr m slot) 4096 (\<lambda>_. 0) (tbl m)\<rparr>))"

definition free_addr_space :: "usize \<Rightarrow> mmu_state \<Rightarrow> bool \<times> mmu_state" where
  "free_addr_space phys_addr m =
    (case find (\<lambda>i. user_table_addr m i = phys_addr) [0..<USER_TABLE_COUNT] of
       None \<Rightarrow> (False, m)
     | Some i \<Rightarrow>
        (let m1 = fold (\<lambda>idx m. let entry = tbl m (phys_addr + 4 * idx) in
               if entry AND 0b11 = L1_PAGE_TABLE then snd (free_l2_table (l2_of entry) m) else m)
               [0..<4096] m
         in (True, m1\<lparr>addr_space_alloc := addr_space_alloc m1 AND NOT (push_bit i 1)\<rparr>)))"

definition clone_addr_space :: "usize \<Rightarrow> usize \<Rightarrow> mmu_state \<Rightarrow> mmu_state" where
  "clone_addr_space src_phys dst_phys m =
    m\<lparr>tbl := fold (\<lambda>i t. t(dst_phys + 4 * i := t (src_phys + 4 * i))) [0..<4096] (tbl m)\<rparr>"

definition switch_addr_space :: "usize \<Rightarrow> mmu_state \<Rightarrow> mmu_state" where
  "switch_addr_space l1_phys m = m\<lparr>ttbr0 := l1_phys\<rparr>"

section \<open>The kernel's own map\<close>

definition wx_page_attrs :: "usize \<Rightarrow> usize \<Rightarrow> usize \<Rightarrow> usize \<Rightarrow> u32" where
  "wx_page_attrs va text_start etext erodata =
    (if text_start \<le> va \<and> va < etext then AP_KERNEL_RO
     else if etext \<le> va \<and> va < erodata then AP_KERNEL_RO OR XN
     else AP_KERNEL_ONLY OR XN)"

text \<open>The image boundaries are linker symbols, arguments here.\<close>

definition map_kernel_wx :: "usize \<Rightarrow> usize \<Rightarrow> usize \<Rightarrow> mmu_state \<Rightarrow> mmu_state" where
  "map_kernel_wx text_start etext erodata m =
    m\<lparr>tbl := fill_words (kernel_l2_base m) (KERNEL_SECTIONS * 256)
      (\<lambda>i. let va = RAM_START + i * 4096 in
         of_nat va OR SMALL_PAGE OR SHAREABLE OR NORMAL_WB_WA OR wx_page_attrs va text_start etext erodata)
      (tbl m)\<rparr>"

datatype memory_type = Ram | Device

definition section_attrs :: "memory_type \<Rightarrow> u32" where
  "section_attrs mem_type = (case mem_type of
      Ram \<Rightarrow> SECTION OR S_AP_PL1_ONLY OR S_SHAREABLE OR S_NORMAL_WB_WA OR S_XN
    | Device \<Rightarrow> SECTION OR S_AP_PL1_ONLY OR S_DEVICE OR S_XN)"

definition map_section :: "nat \<Rightarrow> nat \<Rightarrow> memory_type \<Rightarrow> mmu_state \<Rightarrow> mmu_state" where
  "map_section virt_mb phys_mb mem_type m =
    m\<lparr>tbl := (tbl m)(l1_base m + 4 * virt_mb := push_bit 20 (of_nat phys_mb) OR section_attrs mem_type)\<rparr>"

definition init_and_enable :: "usize \<Rightarrow> usize \<Rightarrow> usize \<Rightarrow> mmu_state \<Rightarrow> mmu_state" where
  "init_and_enable text_start etext erodata m =
    (let m = m\<lparr>tbl := fill_words (l1_base m) 4096 (\<lambda>_. 0) (tbl m)\<rparr>;
         m = fold (\<lambda>mb. map_section mb mb Device) [0..<0x100] m;
         m = fold (\<lambda>mb. map_section mb mb Device) [0x100..<0x200] m;
         m = fold (\<lambda>mb. map_section mb mb Device) [0x200..<0x300] m;
         m = map_kernel_wx text_start etext erodata m;
         m = fold (\<lambda>section m. m\<lparr>tbl := (tbl m)(l1_base m + 4 * (KERNEL_MB + section) :=
                of_nat (kernel_l2_base m + section * 1024) OR L1_PAGE_TABLE)\<rparr>) [0..<KERNEL_SECTIONS] m;
         m = fold (\<lambda>mb. map_section mb mb Ram) [KERNEL_MB + KERNEL_SECTIONS..<0x800] m
     in m\<lparr>ttbr0 := l1_base m\<rparr>)"

section \<open>Words and addresses\<close>

lemma fill_words_apply:
  "fill_words base n f t a = (if \<exists>i<n. a = base + 4 * i then f ((a - base) div 4) else t a)"
proof (induction n arbitrary: a)
  case 0
  then show ?case by (simp add: fill_words_def)
next
  case (Suc n)
  have "fill_words base (Suc n) f t = (fill_words base n f t)(base + 4 * n := f n)"
    by (simp add: fill_words_def)
  then show ?case using Suc [of a] by (auto simp: less_Suc_eq)
qed

lemma fill_words_in [simp]: "i < n \<Longrightarrow> fill_words base n f t (base + 4 * i) = f i"
  by (auto simp: fill_words_apply)

lemma bit_u32_mask10: "(w :: u32) AND 0xFFFFFC00 = push_bit 10 (drop_bit 10 w)"
proof -
  have m: "(0xFFFFFC00 :: u32) = NOT (mask 10)" by (simp add: mask_eq_exp_minus_1)
  show ?thesis
    unfolding m by (rule bit_word_eqI) (auto simp: bit_and_iff bit_not_iff bit_mask_iff bit_push_bit_iff bit_drop_bit_eq)
qed

lemma l2_of_desc:
  assumes "a mod 1024 = 0" "a < USIZE_MOD"
  shows "l2_of (of_nat a OR L1_PAGE_TABLE) = a" "(of_nat a OR L1_PAGE_TABLE :: u32) AND 0b11 = L1_PAGE_TABLE"
proof -
  obtain k where k: "a = push_bit 10 k" using assms(1) by (auto simp: push_bit_eq_mult mult.commute)
  have bits: "bit (of_nat a :: u32) n \<longleftrightarrow> n < 32 \<and> 10 \<le> n \<and> bit k (n - 10)" for n
    unfolding k by (auto simp: bit_of_nat_iff bit_push_bit_iff)
  have "(of_nat a OR L1_PAGE_TABLE :: u32) AND 0xFFFFFC00 = of_nat a"
    unfolding bit_u32_mask10
    by (rule bit_word_eqI) (auto simp: bit_push_bit_iff bit_drop_bit_eq bit_or_iff bits L1_PAGE_TABLE_def bit_1_iff)
  then show "l2_of (of_nat a OR L1_PAGE_TABLE) = a"
    using assms(2) by (simp add: l2_of_def unat_of_nat USIZE_MOD_def)
  have "(of_nat a OR L1_PAGE_TABLE :: u32) AND mask 2 = L1_PAGE_TABLE"
    by (rule bit_word_eqI) (auto simp: bit_and_iff bit_or_iff bits L1_PAGE_TABLE_def bit_mask_iff bit_1_iff)
  then show "(of_nat a OR L1_PAGE_TABLE :: u32) AND 0b11 = L1_PAGE_TABLE"
    by (simp add: mask_eq_exp_minus_1)
qed

lemma l1_index_less: "va < USIZE_MOD \<Longrightarrow> l1_index va < 4096"
  by (simp add: l1_index_def USIZE_MOD_def)

lemma l2_index_less [simp]: "l2_index va < 256"
  by (simp add: l2_index_def)

section \<open>Layout of the tables\<close>

definition apart :: "nat \<Rightarrow> nat \<Rightarrow> nat \<Rightarrow> nat \<Rightarrow> bool" where
  "apart a n b m \<longleftrightarrow> a + n \<le> b \<or> b + m \<le> a"

definition layout_ok :: "mmu_state \<Rightarrow> bool" where
  "layout_ok m \<longleftrightarrow>
     l1_base m mod 16384 = 0 \<and> user_base m mod 16384 = 0 \<and>
     l2_base m mod 1024 = 0 \<and> kernel_l2_base m mod 1024 = 0 \<and>
     l1_base m + 16384 \<le> USIZE_MOD \<and> user_base m + 262144 \<le> USIZE_MOD \<and>
     l2_base m + 65536 \<le> USIZE_MOD \<and> kernel_l2_base m + 2048 \<le> USIZE_MOD \<and>
     0 < l1_base m \<and> 0 < user_base m \<and>
     apart (l1_base m) 16384 (user_base m) 262144 \<and> apart (l1_base m) 16384 (l2_base m) 65536 \<and>
     apart (l1_base m) 16384 (kernel_l2_base m) 2048 \<and> apart (user_base m) 262144 (l2_base m) 65536 \<and>
     apart (user_base m) 262144 (kernel_l2_base m) 2048 \<and> apart (l2_base m) 65536 (kernel_l2_base m) 2048"

definition same_layout :: "mmu_state \<Rightarrow> mmu_state \<Rightarrow> bool" where
  "same_layout m m' \<longleftrightarrow> l1_base m' = l1_base m \<and> kernel_l2_base m' = kernel_l2_base m \<and>
     l2_base m' = l2_base m \<and> user_base m' = user_base m"

definition is_l1 :: "mmu_state \<Rightarrow> usize \<Rightarrow> bool" where
  "is_l1 m t \<longleftrightarrow> t = l1_base m \<or> (\<exists>i<USER_TABLE_COUNT. t = user_table_addr m i)"

lemma is_l1_range:
  assumes "is_l1 m t" "layout_ok m"
  shows "t mod 16384 = 0" "(t = l1_base m) \<or> (user_base m \<le> t \<and> t + 16384 \<le> user_base m + 262144)"
  using assms by (auto simp: is_l1_def layout_ok_def user_table_addr_def mmu_sizes mod_simps)

lemma aligned_slot_unique:
  fixes t t' :: nat
  assumes "t mod 16384 = 0" "t' mod 16384 = 0" "i < 4096" "i' < 4096" "t + 4 * i = t' + 4 * i'"
  shows "t = t' \<and> i = i'"
proof -
  obtain a where a: "t = 16384 * a" using assms(1) by blast
  obtain b where b: "t' = 16384 * b" using assms(2) by blast
  note ab = a b
  then have "a = b" using assms(3-5) by (cases a b rule: linorder_cases) auto
  then show ?thesis using ab assms(5) by simp
qed

lemma l1_words_unique:
  assumes "layout_ok m" "is_l1 m t" "is_l1 m t'" "i < 4096" "i' < 4096" "t + 4 * i = t' + 4 * i'"
  shows "t = t' \<and> i = i'"
  using aligned_slot_unique [OF is_l1_range(1) [OF assms(2,1)] is_l1_range(1) [OF assms(3,1)] assms(4-6)] .

lemma apart_neq: "apart a n b k \<Longrightarrow> a \<le> x \<Longrightarrow> x < a + n \<Longrightarrow> b \<le> y \<Longrightarrow> y < b + k \<Longrightarrow> x \<noteq> y"
  by (auto simp: apart_def)

lemma l1_word_apart:
  assumes "is_l1 m t" "layout_ok m" "i < 4096" "apart (l1_base m) 16384 b k" "apart (user_base m) 262144 b k"
    "b \<le> y" "y < b + k"
  shows "t + 4 * i \<noteq> y"
proof (cases "t = l1_base m")
  case True
  then show ?thesis using assms(3) by (intro apart_neq [OF assms(4) _ _ assms(6,7)]) auto
next
  case False
  then have "user_base m \<le> t \<and> t + 16384 \<le> user_base m + 262144"
    using is_l1_range(2) [OF assms(1,2)] by blast
  then show ?thesis using assms(3) by (intro apart_neq [OF assms(5) _ _ assms(6,7)]) linarith+
qed

lemma l1_l2_words_apart:
  assumes "layout_ok m" "is_l1 m t" "i < 4096" "s < L2_POOL_SIZE" "j < 256"
  shows "t + 4 * i \<noteq> l2_table_addr m s + 4 * j"
proof (rule l1_word_apart [OF assms(2,1,3)])
  show "apart (l1_base m) 16384 (l2_base m) 65536" "apart (user_base m) 262144 (l2_base m) 65536"
    using assms(1) by (simp_all add: layout_ok_def)
  show "l2_base m \<le> l2_table_addr m s + 4 * j" "l2_table_addr m s + 4 * j < l2_base m + 65536"
    using assms(4,5) by (simp_all add: l2_table_addr_def mmu_sizes)
qed

lemma l1_kernel_l2_words_apart:
  assumes "layout_ok m" "is_l1 m t" "i < 4096" "k < 2" "j < 256"
  shows "t + 4 * i \<noteq> kernel_l2_base m + k * 1024 + 4 * j"
proof (rule l1_word_apart [OF assms(2,1,3)])
  show "apart (l1_base m) 16384 (kernel_l2_base m) 2048" "apart (user_base m) 262144 (kernel_l2_base m) 2048"
    using assms(1) by (simp_all add: layout_ok_def)
  show "kernel_l2_base m \<le> kernel_l2_base m + k * 1024 + 4 * j"
    "kernel_l2_base m + k * 1024 + 4 * j < kernel_l2_base m + 2048"
    using assms(4,5) by simp_all
qed

lemma l2_words_unique:
  assumes "j < 256" "j' < 256" "l2_table_addr m s + 4 * j = l2_table_addr m s' + 4 * j'"
  shows "s = s' \<and> j = j'"
  using assms by (cases s s' rule: linorder_cases) (auto simp: l2_table_addr_def)

lemma l2_kernel_words_apart:
  assumes "layout_ok m" "s < L2_POOL_SIZE" "j < 256" "k < 2" "j' < 256"
  shows "l2_table_addr m s + 4 * j \<noteq> kernel_l2_base m + k * 1024 + 4 * j'"
proof -
  have "apart (l2_base m) 65536 (kernel_l2_base m) 2048" using assms(1) by (simp add: layout_ok_def)
  then show ?thesis
    by (rule apart_neq) (use assms(2-5) in \<open>simp_all add: l2_table_addr_def mmu_sizes\<close>)
qed

lemma l2_table_addr_inj [simp]: "l2_table_addr m s = l2_table_addr m s' \<longleftrightarrow> s = s'"
  by (simp add: l2_table_addr_def)

lemma user_table_addr_inj [simp]: "user_table_addr m s = user_table_addr m s' \<longleftrightarrow> s = s'"
  by (simp add: user_table_addr_def)

lemma l2_table_addr_desc:
  assumes "layout_ok m" "s < L2_POOL_SIZE"
  shows "l2_of (of_nat (l2_table_addr m s) OR L1_PAGE_TABLE) = l2_table_addr m s"
    "(of_nat (l2_table_addr m s) OR L1_PAGE_TABLE :: u32) AND 0b11 = L1_PAGE_TABLE"
proof -
  have "l2_table_addr m s mod 1024 = 0" "l2_table_addr m s < USIZE_MOD"
    using assms by (auto simp: layout_ok_def l2_table_addr_def mmu_sizes mod_simps)
  then show "l2_of (of_nat (l2_table_addr m s) OR L1_PAGE_TABLE) = l2_table_addr m s"
    "(of_nat (l2_table_addr m s) OR L1_PAGE_TABLE :: u32) AND 0b11 = L1_PAGE_TABLE"
    by (simp_all only: l2_of_desc)
qed

section \<open>Ownership of second-level tables\<close>

definition live_l1 :: "mmu_state \<Rightarrow> usize \<Rightarrow> bool" where
  "live_l1 m t \<longleftrightarrow> t = l1_base m \<or>
     (\<exists>i<USER_TABLE_COUNT. bit (addr_space_alloc m) i \<and> t = user_table_addr m i)"

definition pt_entry :: "mmu_state \<Rightarrow> usize \<Rightarrow> nat \<Rightarrow> bool" where
  "pt_entry m t i \<longleftrightarrow> tbl m (t + 4 * i) AND 0b11 = L1_PAGE_TABLE"

definition target :: "mmu_state \<Rightarrow> usize \<Rightarrow> nat \<Rightarrow> usize" where
  "target m t i = l2_of (tbl m (t + 4 * i))"

definition entry_ok :: "mmu_state \<Rightarrow> usize \<Rightarrow> nat \<Rightarrow> bool" where
  "entry_ok m t i \<longleftrightarrow>
     (\<exists>s<L2_POOL_SIZE. bit (l2_alloc m) s \<and> target m t i = l2_table_addr m s \<and> t \<noteq> l1_base m) \<or>
     (\<exists>k<KERNEL_SECTIONS. i = KERNEL_MB + k \<and> target m t i = kernel_l2_base m + k * 1024)"

definition mmu_inv :: "mmu_state \<Rightarrow> bool" where
  "mmu_inv m \<longleftrightarrow> layout_ok m \<and>
     (\<forall>t i. live_l1 m t \<and> i < 4096 \<and> pt_entry m t i \<longrightarrow> entry_ok m t i) \<and>
     (\<forall>t i t' i' s. live_l1 m t \<and> i < 4096 \<and> pt_entry m t i \<and> live_l1 m t' \<and> i' < 4096 \<and> pt_entry m t' i' \<and>
        s < L2_POOL_SIZE \<and> target m t i = l2_table_addr m s \<and> target m t' i' = l2_table_addr m s
        \<longrightarrow> t = t' \<and> i = i')"

lemma mmu_invD:
  assumes "mmu_inv m"
  shows "layout_ok m"
    "\<lbrakk>live_l1 m t; i < 4096; pt_entry m t i\<rbrakk> \<Longrightarrow> entry_ok m t i"
    "\<lbrakk>live_l1 m t; i < 4096; pt_entry m t i; live_l1 m t'; i' < 4096; pt_entry m t' i'; s < L2_POOL_SIZE;
      target m t i = l2_table_addr m s; target m t' i' = l2_table_addr m s\<rbrakk> \<Longrightarrow> t = t' \<and> i = i'"
  using assms unfolding mmu_inv_def by blast+

lemma live_is_l1: "live_l1 m t \<Longrightarrow> is_l1 m t"
  by (auto simp: live_l1_def is_l1_def)

lemma same_layout_simps:
  assumes "same_layout m m'"
  shows "l2_table_addr m' = l2_table_addr m" "user_table_addr m' = user_table_addr m"
    "layout_ok m' = layout_ok m" "is_l1 m' = is_l1 m" "l1_base m' = l1_base m"
    "kernel_l2_base m' = kernel_l2_base m"
  using assms
  by (auto simp: same_layout_def l2_table_addr_def user_table_addr_def layout_ok_def is_l1_def fun_eq_iff)

lemma live_l1_cong:
  "same_layout m m' \<Longrightarrow> addr_space_alloc m' = addr_space_alloc m \<Longrightarrow> live_l1 m' t = live_l1 m t"
  by (simp add: live_l1_def same_layout_simps)

text \<open>The invariant only reads first-level words and the two allocation masks.\<close>

lemma mmu_inv_cong:
  assumes inv: "mmu_inv m" and lay: "same_layout m m'"
    and masks: "l2_alloc m' = l2_alloc m" "addr_space_alloc m' = addr_space_alloc m"
    and words: "\<And>t i. live_l1 m t \<Longrightarrow> i < 4096 \<Longrightarrow> tbl m' (t + 4 * i) = tbl m (t + 4 * i)"
  shows "mmu_inv m'"
proof -
  note l = same_layout_simps [OF lay] live_l1_cong [OF lay masks(2)]
  have e: "pt_entry m' t i = pt_entry m t i" "target m' t i = target m t i"
    if "live_l1 m t" "i < 4096" for t i
    using words [OF that] by (simp_all add: pt_entry_def target_def)
  have ok: "entry_ok m' t i" if "live_l1 m' t" "i < 4096" "pt_entry m' t i" for t i
  proof -
    have t: "live_l1 m t" using that(1) l by blast
    then have "entry_ok m t i" using mmu_invD(2) [OF inv] that(2,3) e by blast
    then show ?thesis using e(2) [OF t that(2)] l masks(1) by (auto simp: entry_ok_def)
  qed
  have uniq: "t = t' \<and> i = i'"
    if a: "live_l1 m' t" "i < 4096" "pt_entry m' t i" "live_l1 m' t'" "i' < 4096" "pt_entry m' t' i'"
      "s < L2_POOL_SIZE" "target m' t i = l2_table_addr m' s" "target m' t' i' = l2_table_addr m' s" for t i t' i' s
  proof -
    have t: "live_l1 m t" "live_l1 m t'" using a(1,4) l by blast+
    show ?thesis
      using mmu_invD(3) [OF inv t(1) a(2) _ t(2) a(5) _ a(7)] a e [OF t(1) a(2)] e [OF t(2) a(5)] l(1) by auto
  qed
  have "layout_ok m'" using mmu_invD(1) [OF inv] l by blast
  then show ?thesis unfolding mmu_inv_def using ok uniq by blast
qed

text \<open>Linking a free pool table into an entry of a user table.\<close>

lemma mmu_inv_link:
  assumes inv: "mmu_inv m" and lay: "same_layout m m'"
    and t0: "live_l1 m t0" "t0 \<noteq> l1_base m" "i0 < 4096" and s0: "s0 < L2_POOL_SIZE" "\<not> bit (l2_alloc m) s0"
    and masks: "\<And>s. bit (l2_alloc m') s \<longleftrightarrow> s = s0 \<or> bit (l2_alloc m) s"
      "addr_space_alloc m' = addr_space_alloc m"
    and words: "\<And>t i. live_l1 m t \<Longrightarrow> i < 4096 \<Longrightarrow> tbl m' (t + 4 * i) =
      (if t = t0 \<and> i = i0 then of_nat (l2_table_addr m s0) OR L1_PAGE_TABLE else tbl m (t + 4 * i))"
  shows "mmu_inv m'"
proof -
  note l = same_layout_simps [OF lay] live_l1_cong [OF lay masks(2)]
  have lay_ok: "layout_ok m" by (rule mmu_invD(1) [OF inv])
  have new: "target m' t0 i0 = l2_table_addr m s0"
    using words [OF t0(1,3)] l2_table_addr_desc(1) [OF lay_ok s0(1)] by (simp add: target_def)
  have old: "pt_entry m' t i = pt_entry m t i" "target m' t i = target m t i"
    if "live_l1 m t" "i < 4096" "\<not> (t = t0 \<and> i = i0)" for t i
    using words [OF that(1,2)] that(3) by (auto simp: pt_entry_def target_def)
  have not_s0: "target m t i \<noteq> l2_table_addr m s0" if "live_l1 m t" "i < 4096" "pt_entry m t i" for t i
  proof
    assume tgt: "target m t i = l2_table_addr m s0"
    have "l2_table_addr m s0 + 4 * 0 \<noteq> kernel_l2_base m + k * 1024 + 4 * 0" if "k < 2" for k
      using that by (intro l2_kernel_words_apart [OF lay_ok s0(1)]) auto
    then show False
      using mmu_invD(2) [OF inv that] s0(2) tgt by (auto simp: entry_ok_def mmu_sizes)
  qed
  have ok: "entry_ok m' t i" if "live_l1 m' t" "i < 4096" "pt_entry m' t i" for t i
  proof (cases "t = t0 \<and> i = i0")
    case True
    then show ?thesis using new s0(1) masks(1) t0(2) l unfolding entry_ok_def by auto
  next
    case False
    have t: "live_l1 m t" using that(1) l by blast
    then have "entry_ok m t i" using mmu_invD(2) [OF inv t that(2)] that(3) old [OF t that(2) False] by blast
    then show ?thesis using old(2) [OF t that(2) False] l masks(1) unfolding entry_ok_def by auto
  qed
  have uniq: "t = t' \<and> i = i'"
    if a: "live_l1 m' t" "i < 4096" "pt_entry m' t i" "live_l1 m' t'" "i' < 4096" "pt_entry m' t' i'"
      "s < L2_POOL_SIZE" "target m' t i = l2_table_addr m' s" "target m' t' i' = l2_table_addr m' s" for t i t' i' s
  proof -
    have t: "live_l1 m t" "live_l1 m t'" using a(1,4) l by blast+
    consider "t = t0 \<and> i = i0" "t' = t0 \<and> i' = i0" | "t = t0 \<and> i = i0" "\<not> (t' = t0 \<and> i' = i0)"
      | "\<not> (t = t0 \<and> i = i0)" "t' = t0 \<and> i' = i0" | "\<not> (t = t0 \<and> i = i0)" "\<not> (t' = t0 \<and> i' = i0)" by blast
    then show ?thesis
    proof cases
      case 2
      have "target m t' i' = l2_table_addr m s0" using 2 a(8,9) new old(2) [OF t(2) a(5)] by auto
      then show ?thesis using not_s0 [OF t(2) a(5)] a(6) old(1) [OF t(2) a(5)] 2 by blast
    next
      case 3
      have "target m t i = l2_table_addr m s0" using 3 a(8,9) new old(2) [OF t(1) a(2)] by auto
      then show ?thesis using not_s0 [OF t(1) a(2)] a(3) old(1) [OF t(1) a(2)] 3 by blast
    next
      case 4
      then show ?thesis
        using mmu_invD(3) [OF inv t(1) a(2) _ t(2) a(5) _ a(7)] a old [OF t(1) a(2)] old [OF t(2) a(5)] l(1) by auto
    qed blast
  qed
  have "layout_ok m'" using lay_ok l by blast
  then show ?thesis unfolding mmu_inv_def using ok uniq by blast
qed

section \<open>Operations keep the invariant\<close>

lemma alloc_l2_SomeE:
  assumes "alloc_l2_table m = (Some a, m')"
  obtains s where "s < L2_POOL_SIZE" "a = l2_table_addr m s" "\<not> bit (l2_alloc m) s"
    "m' = m\<lparr>l2_alloc := l2_alloc m OR push_bit s 1, tbl := fill_words (l2_table_addr m s) 256 (\<lambda>_. 0) (tbl m)\<rparr>"
    "\<And>i. bit (l2_alloc m') i \<longleftrightarrow> i = s \<or> bit (l2_alloc m) i" "same_layout m m'"
proof -
  obtain s where f: "find (\<lambda>i. l2_alloc m AND push_bit i 1 = 0) [0..<L2_POOL_SIZE] = Some s"
    and m': "a = l2_table_addr m s" "m' = m\<lparr>l2_alloc := l2_alloc m OR push_bit s 1,
      tbl := fill_words (l2_table_addr m s) 256 (\<lambda>_. 0) (tbl m)\<rparr>"
    using assms by (auto simp: alloc_l2_table_def split: option.splits)
  have s: "s < L2_POOL_SIZE" "l2_alloc m AND push_bit s 1 = 0"
    using f unfolding find_upt_Some by blast+
  have len: "s < LENGTH(64)" using s(1) by (simp add: mmu_sizes)
  have "\<not> bit (l2_alloc m) s" using s(2) mask_bit_test [OF len] by blast
  moreover have "bit (l2_alloc m') i \<longleftrightarrow> i = s \<or> bit (l2_alloc m) i" for i
    unfolding m'(2) using bit_or_mask [OF len] by simp
  moreover have "same_layout m m'" unfolding m'(2) by (simp add: same_layout_def)
  ultimately show thesis using that s(1) m' by blast
qed

lemma alloc_l2_None: "alloc_l2_table m = (None, m') \<Longrightarrow> m' = m"
  by (auto simp: alloc_l2_table_def split: option.splits)

lemma entry_word_not_l1:
  assumes "mmu_inv m" "live_l1 m t" "i < 4096" "pt_entry m t i" "is_l1 m t'" "i' < 4096" "j < 256"
  shows "t' + 4 * i' \<noteq> target m t i + 4 * j"
proof -
  note lay = mmu_invD(1) [OF assms(1)]
  consider s where "s < L2_POOL_SIZE" "target m t i = l2_table_addr m s"
    | k where "k < 2" "target m t i = kernel_l2_base m + k * 1024"
    using mmu_invD(2) [OF assms(1-4)] by (auto simp: entry_ok_def mmu_sizes)
  then show ?thesis
  proof cases
    case 1
    then show ?thesis using l1_l2_words_apart [OF lay assms(5,6) 1(1) assms(7)] by simp
  next
    case 2
    then show ?thesis using l1_kernel_l2_words_apart [OF lay assms(5,6) 2(1) assms(7)] by simp
  qed
qed

lemma mmu_inv_write_l2:
  assumes "mmu_inv m" "live_l1 m t" "i < 4096" "pt_entry m t i" "j < 256"
  shows "mmu_inv (m\<lparr>tbl := (tbl m)(target m t i + 4 * j := d)\<rparr>)"
  using entry_word_not_l1 [OF assms(1-4) live_is_l1 _ assms(5)]
  by (intro mmu_inv_cong [OF assms(1)]) (simp_all add: same_layout_def)

lemma fill_words_out: "(\<And>i. i < n \<Longrightarrow> a \<noteq> base + 4 * i) \<Longrightarrow> fill_words base n f t a = t a"
  by (auto simp: fill_words_apply)

lemma map_page_cases:
  assumes "map_page t va pa at m = (ok, m')"
  defines "d \<equiv> (of_nat pa AND 0xFFFFF000) OR at"
  obtains (present) "pt_entry m t (l1_index va)" "ok"
      "m' = m\<lparr>tbl := (tbl m)(target m t (l1_index va) + 4 * l2_index va := d)\<rparr>"
  | (fresh) a m1 where "tbl m (t + 4 * l1_index va) AND 0b11 = 0" "alloc_l2_table m = (Some a, m1)" "ok"
      "m' = m1\<lparr>tbl := (tbl m1)(t + 4 * l1_index va := of_nat a OR L1_PAGE_TABLE, a + 4 * l2_index va := d)\<rparr>"
  | (failed) "\<not> ok" "m' = m"
proof -
  let ?v = "tbl m (t + 4 * l1_index va)"
  consider "?v AND 0b11 = L1_PAGE_TABLE" | "?v AND 0b11 = 0" "?v AND 0b11 \<noteq> L1_PAGE_TABLE"
    | "?v AND 0b11 \<noteq> L1_PAGE_TABLE" "?v AND 0b11 \<noteq> 0" by blast
  then show thesis
  proof cases
    case 1
    then show thesis using present assms(1) by (simp add: map_page_def Let_def pt_entry_def target_def d_def)
  next
    case 2
    obtain r m1 where al: "alloc_l2_table m = (r, m1)" by fastforce
    show thesis
    proof (cases r)
      case None
      then show thesis using failed assms(1) 2 al alloc_l2_None [of m m1] by (simp add: map_page_def Let_def)
    next
      case (Some a)
      then show thesis using fresh [OF 2(1)] assms(1) 2 al by (simp add: map_page_def d_def Let_def)
    qed
  next
    case 3
    then show thesis using failed assms(1) by (simp add: map_page_def Let_def)
  qed
qed

lemma map_page_inv:
  assumes inv: "mmu_inv m" and t: "live_l1 m t" "t \<noteq> l1_base m" and va: "va < USIZE_MOD"
  shows "mmu_inv (snd (map_page t va pa at m))"
proof -
  obtain ok m' where mp: "map_page t va pa at m = (ok, m')" by fastforce
  note i = l1_index_less [OF va]
  from mp show ?thesis
  proof (cases rule: map_page_cases)
    case present
    then show ?thesis using mmu_inv_write_l2 [OF inv t(1) i present(1) l2_index_less] mp by simp
  next
    case (fresh a m1)
    obtain s where s: "s < L2_POOL_SIZE" "a = l2_table_addr m s" "\<not> bit (l2_alloc m) s"
      "m1 = m\<lparr>l2_alloc := l2_alloc m OR push_bit s 1, tbl := fill_words (l2_table_addr m s) 256 (\<lambda>_. 0) (tbl m)\<rparr>"
      "\<And>i. bit (l2_alloc m1) i \<longleftrightarrow> i = s \<or> bit (l2_alloc m) i" "same_layout m m1"
      using alloc_l2_SomeE [OF fresh(2)] by blast
    have "mmu_inv m'"
    proof (rule mmu_inv_link [OF inv _ t i s(1,3)])
      show "same_layout m m'" using fresh(4) s(6) by (simp add: same_layout_def)
      show "bit (l2_alloc m') x \<longleftrightarrow> x = s \<or> bit (l2_alloc m) x" for x using fresh(4) s(5) by simp
      show "addr_space_alloc m' = addr_space_alloc m" using fresh(4) s(4) by simp
      fix t' i' assume t': "live_l1 m t'" "i' < (4096 :: nat)"
      note ap = l1_l2_words_apart [OF mmu_invD(1) [OF inv] live_is_l1 [OF t'(1)] t'(2) s(1)]
      have "(t' + 4 * i' = t + 4 * l1_index va) \<longleftrightarrow> t' = t \<and> i' = l1_index va"
        using l1_words_unique [OF mmu_invD(1) [OF inv] live_is_l1 [OF t'(1)] live_is_l1 [OF t(1)] t'(2) i] by auto
      then show "tbl m' (t' + 4 * i') =
          (if t' = t \<and> i' = l1_index va then of_nat (l2_table_addr m s) OR L1_PAGE_TABLE else tbl m (t' + 4 * i'))"
        using ap ap [OF l2_index_less, of va] fill_words_out [of 256 "t' + 4 * i'" "l2_table_addr m s"]
        by (auto simp: fresh(4) s(2,4))
    qed
    then show ?thesis using mp by simp
  next
    case failed
    then show ?thesis using inv mp by simp
  qed
qed

lemma shatter_section_cases:
  assumes "shatter_section t va m = (ok, m')"
  obtains (present) "pt_entry m t (l1_index va)" "ok" "m' = m"
  | (fresh) a m1 where "tbl m (t + 4 * l1_index va) AND 0b11 = SECTION" "alloc_l2_table m = (Some a, m1)" "ok"
      "m' = m1\<lparr>tbl := (fill_words a 256 (\<lambda>i. ((tbl m (t + 4 * l1_index va) AND 0xFFF00000) + push_bit 12 (of_nat i))
        OR KERNEL_DEFAULT_PAGE) (tbl m1))(t + 4 * l1_index va := of_nat a OR L1_PAGE_TABLE)\<rparr>"
  | (failed) "\<not> ok" "m' = m"
proof -
  let ?v = "tbl m (t + 4 * l1_index va)"
  consider "?v AND 0b11 = L1_PAGE_TABLE" | "?v AND 0b11 = SECTION" "?v AND 0b11 \<noteq> L1_PAGE_TABLE"
    | "?v AND 0b11 \<noteq> L1_PAGE_TABLE" "?v AND 0b11 \<noteq> SECTION" by blast
  then show thesis
  proof cases
    case 1
    then show thesis using present assms by (simp add: shatter_section_def Let_def pt_entry_def)
  next
    case 2
    obtain r m1 where al: "alloc_l2_table m = (r, m1)" by fastforce
    show thesis
    proof (cases r)
      case None
      then show thesis using failed assms 2 al alloc_l2_None [of m m1] by (simp add: shatter_section_def Let_def)
    next
      case (Some a)
      then show thesis using fresh [OF 2(1)] assms 2 al by (simp add: shatter_section_def Let_def)
    qed
  next
    case 3
    then show thesis using failed assms by (simp add: shatter_section_def Let_def)
  qed
qed

lemma shatter_section_inv:
  assumes inv: "mmu_inv m" and t: "live_l1 m t" "t \<noteq> l1_base m" and va: "va < USIZE_MOD"
  shows "mmu_inv (snd (shatter_section t va m))"
proof -
  obtain ok m' where mp: "shatter_section t va m = (ok, m')" by fastforce
  note i = l1_index_less [OF va]
  from mp show ?thesis
  proof (cases rule: shatter_section_cases)
    case (fresh a m1)
    obtain s where s: "s < L2_POOL_SIZE" "a = l2_table_addr m s" "\<not> bit (l2_alloc m) s"
      "m1 = m\<lparr>l2_alloc := l2_alloc m OR push_bit s 1, tbl := fill_words (l2_table_addr m s) 256 (\<lambda>_. 0) (tbl m)\<rparr>"
      "\<And>i. bit (l2_alloc m1) i \<longleftrightarrow> i = s \<or> bit (l2_alloc m) i" "same_layout m m1"
      using alloc_l2_SomeE [OF fresh(2)] by blast
    have "mmu_inv m'"
    proof (rule mmu_inv_link [OF inv _ t i s(1,3)])
      show "same_layout m m'" using fresh(4) s(6) by (simp add: same_layout_def)
      show "bit (l2_alloc m') x \<longleftrightarrow> x = s \<or> bit (l2_alloc m) x" for x using fresh(4) s(5) by simp
      show "addr_space_alloc m' = addr_space_alloc m" using fresh(4) s(4) by simp
      fix t' i' assume t': "live_l1 m t'" "i' < (4096 :: nat)"
      note ap = l1_l2_words_apart [OF mmu_invD(1) [OF inv] live_is_l1 [OF t'(1)] t'(2) s(1)]
      have "(t' + 4 * i' = t + 4 * l1_index va) \<longleftrightarrow> t' = t \<and> i' = l1_index va"
        using l1_words_unique [OF mmu_invD(1) [OF inv] live_is_l1 [OF t'(1)] live_is_l1 [OF t(1)] t'(2) i] by auto
      then show "tbl m' (t' + 4 * i') =
          (if t' = t \<and> i' = l1_index va then of_nat (l2_table_addr m s) OR L1_PAGE_TABLE else tbl m (t' + 4 * i'))"
        using ap fill_words_out [of 256 "t' + 4 * i'" "l2_table_addr m s"]
        by (auto simp: fresh(4) s(2,4))
    qed
    then show ?thesis using mp by simp
  qed (use inv mp in simp_all)
qed

text \<open>Any other change of the tables: entries disappear, keep their target, or point into the
  kernel's own tables.\<close>

lemma mmu_inv_step:
  assumes inv: "mmu_inv m" and lay: "same_layout m m'"
    and entries: "\<And>t i. live_l1 m' t \<Longrightarrow> i < 4096 \<Longrightarrow> pt_entry m' t i \<Longrightarrow>
      (live_l1 m t \<and> pt_entry m t i \<and> target m' t i = target m t i \<and>
        (\<forall>s<L2_POOL_SIZE. target m t i = l2_table_addr m s \<longrightarrow> bit (l2_alloc m) s \<longrightarrow> bit (l2_alloc m') s)) \<or>
      (\<exists>k<KERNEL_SECTIONS. i = KERNEL_MB + k \<and> target m' t i = kernel_l2_base m + k * 1024)"
  shows "mmu_inv m'"
proof -
  note l = same_layout_simps [OF lay] and lay_ok = mmu_invD(1) [OF inv]
  have ok: "entry_ok m' t i" if "live_l1 m' t" "i < 4096" "pt_entry m' t i" for t i
    using entries [OF that] mmu_invD(2) [OF inv, of t i] that(2) l unfolding entry_ok_def by metis
  have pool: "live_l1 m t \<and> pt_entry m t i \<and> target m t i = l2_table_addr m s"
    if a: "live_l1 m' t" "i < 4096" "pt_entry m' t i" "s < L2_POOL_SIZE" "target m' t i = l2_table_addr m' s" for t i s
  proof -
    have "l2_table_addr m s + 4 * 0 \<noteq> kernel_l2_base m + k * 1024 + 4 * 0" if "k < 2" for k
      using that by (intro l2_kernel_words_apart [OF lay_ok a(4)]) auto
    then have "\<not> (\<exists>k<KERNEL_SECTIONS. i = KERNEL_MB + k \<and> target m' t i = kernel_l2_base m + k * 1024)"
      using a(5) l(1) by (auto simp: mmu_sizes)
    then show ?thesis using entries [OF a(1-3)] a(5) l(1) by auto
  qed
  have uniq: "t = t' \<and> i = i'"
    if a: "live_l1 m' t" "i < 4096" "pt_entry m' t i" "live_l1 m' t'" "i' < 4096" "pt_entry m' t' i'"
      "s < L2_POOL_SIZE" "target m' t i = l2_table_addr m' s" "target m' t' i' = l2_table_addr m' s" for t i t' i' s
    using pool [OF a(1-3,7,8)] pool [OF a(4-6,7,9)] mmu_invD(3) [OF inv, of t i t' i' s] a by blast
  have "layout_ok m'" using lay_ok l by blast
  then show ?thesis unfolding mmu_inv_def using ok uniq by blast
qed

lemma free_l2_table_facts:
  shows "tbl (snd (free_l2_table a m)) = tbl m" "same_layout m (snd (free_l2_table a m))"
    "addr_space_alloc (snd (free_l2_table a m)) = addr_space_alloc m" "ttbr0 (snd (free_l2_table a m)) = ttbr0 m"
    "bit (l2_alloc (snd (free_l2_table a m))) s \<longleftrightarrow> bit (l2_alloc m) s \<and> \<not> (s < L2_POOL_SIZE \<and> a = l2_table_addr m s)"
proof -
  show "tbl (snd (free_l2_table a m)) = tbl m" "same_layout m (snd (free_l2_table a m))"
    "addr_space_alloc (snd (free_l2_table a m)) = addr_space_alloc m" "ttbr0 (snd (free_l2_table a m)) = ttbr0 m"
    by (auto simp: free_l2_table_def same_layout_def split: option.splits)
  show "bit (l2_alloc (snd (free_l2_table a m))) s \<longleftrightarrow> bit (l2_alloc m) s \<and> \<not> (s < L2_POOL_SIZE \<and> a = l2_table_addr m s)"
  proof (cases "find (\<lambda>i. l2_table_addr m i = a) [0..<L2_POOL_SIZE]")
    case None
    then have "\<not> (s < L2_POOL_SIZE \<and> a = l2_table_addr m s)" unfolding find_upt_None by blast
    then show ?thesis using None by (simp add: free_l2_table_def)
  next
    case (Some i)
    then have "i < L2_POOL_SIZE" "l2_table_addr m i = a" unfolding find_upt_Some by blast+
    then have "(s < L2_POOL_SIZE \<and> a = l2_table_addr m s) \<longleftrightarrow> s = i" by auto
    moreover have "l2_alloc (snd (free_l2_table a m)) = l2_alloc m AND NOT (push_bit i 1)"
      using Some by (simp add: free_l2_table_def)
    ultimately show ?thesis using bit_and_not_mask [of "l2_alloc m" i s] by (simp del: push_bit_of_1) blast
  qed
qed

lemma unmap_page_cases:
  obtains (present) "pt_entry m t (l1_index va)"
      "unmap_page t va m = m\<lparr>tbl := (tbl m)(target m t (l1_index va) + 4 * l2_index va := 0)\<rparr>"
  | (emptied) "pt_entry m t (l1_index va)"
      "unmap_page t va m = snd (free_l2_table (target m t (l1_index va))
         (m\<lparr>tbl := (tbl m)(target m t (l1_index va) + 4 * l2_index va := 0, t + 4 * l1_index va := 0)\<rparr>))"
  | (absent) "\<not> pt_entry m t (l1_index va)" "unmap_page t va m = m"
proof (cases "pt_entry m t (l1_index va)")
  case True
  let ?m1 = "m\<lparr>tbl := (tbl m)(target m t (l1_index va) + 4 * l2_index va := 0)\<rparr>"
  show thesis
  proof (cases "list_all (\<lambda>i. tbl ?m1 (target m t (l1_index va) + 4 * i) = 0) [0..<256]")
    case e: True
    show thesis
      using emptied [OF True] e True
      by (simp add: unmap_page_def Let_def pt_entry_def target_def del: upt.simps)
  next
    case False
    then show thesis
      using present [OF True] True by (simp add: unmap_page_def Let_def pt_entry_def target_def del: upt.simps)
  qed
next
  case False
  then show thesis using absent by (simp add: unmap_page_def Let_def pt_entry_def)
qed

lemma L1_PAGE_TABLE_nz [simp]: "L1_PAGE_TABLE \<noteq> 0" "0 \<noteq> L1_PAGE_TABLE"
  by (simp_all add: L1_PAGE_TABLE_def)

lemma unmap_page_inv:
  assumes inv: "mmu_inv m" and t: "live_l1 m t" and va: "va < USIZE_MOD"
  shows "mmu_inv (unmap_page t va m)"
proof (cases rule: unmap_page_cases [of m t va])
  case present
  then show ?thesis using mmu_inv_write_l2 [OF inv t l1_index_less [OF va] present(1) l2_index_less] by simp
next
  case emptied
  note i = l1_index_less [OF va] and lay_ok = mmu_invD(1) [OF inv]
  let ?i = "l1_index va" and ?m' = "unmap_page t va m"
  let ?m2 = "m\<lparr>tbl := (tbl m)(target m t ?i + 4 * l2_index va := 0, t + 4 * ?i := 0)\<rparr>"
  have m': "tbl ?m' = tbl ?m2" "same_layout m ?m'" "addr_space_alloc ?m' = addr_space_alloc m"
    "\<And>s. bit (l2_alloc ?m') s \<longleftrightarrow> bit (l2_alloc m) s \<and> \<not> (s < L2_POOL_SIZE \<and> target m t ?i = l2_table_addr m s)"
    unfolding emptied(2) by (simp_all add: free_l2_table_facts same_layout_def l2_table_addr_def)
      (use free_l2_table_facts(2) [of ?m2 "target m t ?i"] in \<open>simp add: same_layout_def\<close>)
  show ?thesis
  proof (rule mmu_inv_step [OF inv m'(2)], rule disjI1)
    fix t' i' assume a: "live_l1 ?m' t'" "i' < 4096" "pt_entry ?m' t' i'"
    have live: "live_l1 m t'" using a(1) live_l1_cong [OF m'(2,3)] by blast
    have ne: "\<not> (t' = t \<and> i' = ?i)" using a(3) m'(1) by (auto simp: pt_entry_def)
    then have "t' + 4 * i' \<noteq> t + 4 * ?i"
      using l1_words_unique [OF lay_ok live_is_l1 [OF live] live_is_l1 [OF t] a(2) i] by blast
    moreover have "t' + 4 * i' \<noteq> target m t ?i + 4 * l2_index va"
      by (rule entry_word_not_l1 [OF inv t i emptied(1) live_is_l1 [OF live] a(2) l2_index_less])
    ultimately have same: "tbl ?m' (t' + 4 * i') = tbl m (t' + 4 * i')" using m'(1) by simp
    then have e: "pt_entry m t' i'" "target ?m' t' i' = target m t' i'"
      using a(3) by (simp_all add: pt_entry_def target_def)
    have "target m t ?i \<noteq> l2_table_addr m s" if "s < L2_POOL_SIZE" "target m t' i' = l2_table_addr m s" for s
      using mmu_invD(3) [OF inv live a(2) e(1) t i emptied(1) that(1,2)] ne by blast
    then show "live_l1 m t' \<and> pt_entry m t' i' \<and> target ?m' t' i' = target m t' i' \<and>
        (\<forall>s<L2_POOL_SIZE. target m t' i' = l2_table_addr m s \<longrightarrow> bit (l2_alloc m) s \<longrightarrow> bit (l2_alloc ?m') s)"
      using live e m'(4) by blast
  qed
next
  case absent
  then show ?thesis using inv by simp
qed

lemma alloc_addr_space_SomeE:
  assumes "alloc_addr_space m = (Some a, m')"
  obtains u where "u < USER_TABLE_COUNT" "a = user_table_addr m u" "\<not> bit (addr_space_alloc m) u"
    "m' = m\<lparr>addr_space_alloc := addr_space_alloc m OR push_bit u 1,
      tbl := fill_words (user_table_addr m u) 4096 (\<lambda>_. 0) (tbl m)\<rparr>"
    "\<And>i. bit (addr_space_alloc m') i \<longleftrightarrow> i = u \<or> bit (addr_space_alloc m) i" "same_layout m m'"
proof -
  obtain u where f: "find (\<lambda>i. addr_space_alloc m AND push_bit i 1 = 0) [0..<USER_TABLE_COUNT] = Some u"
    and m': "a = user_table_addr m u" "m' = m\<lparr>addr_space_alloc := addr_space_alloc m OR push_bit u 1,
      tbl := fill_words (user_table_addr m u) 4096 (\<lambda>_. 0) (tbl m)\<rparr>"
    using assms by (auto simp: alloc_addr_space_def split: option.splits)
  have u: "u < USER_TABLE_COUNT" "addr_space_alloc m AND push_bit u 1 = 0"
    using f unfolding find_upt_Some by blast+
  have len: "u < LENGTH(16)" using u(1) by (simp add: mmu_sizes)
  have "\<not> bit (addr_space_alloc m) u" using u(2) mask_bit_test [OF len] by blast
  moreover have "bit (addr_space_alloc m') i \<longleftrightarrow> i = u \<or> bit (addr_space_alloc m) i" for i
    unfolding m'(2) using bit_or_mask [OF len] by simp
  moreover have "same_layout m m'" unfolding m'(2) by (simp add: same_layout_def)
  ultimately show thesis using that u(1) m' by blast
qed

lemma user_not_kernel_table:
  assumes "layout_ok m" "u < USER_TABLE_COUNT"
  shows "user_table_addr m u \<noteq> l1_base m"
  using assms by (auto simp: layout_ok_def apart_def user_table_addr_def mmu_sizes)

lemma fill_other_l1:
  assumes "layout_ok m" "is_l1 m t" "is_l1 m t'" "i < 4096" "t \<noteq> t'"
  shows "fill_words t' 4096 f (tbl m) (t + 4 * i) = tbl m (t + 4 * i)"
  using l1_words_unique [OF assms(1-4)] assms(5) by (intro fill_words_out) blast

lemma alloc_addr_space_inv:
  assumes inv: "mmu_inv m" and al: "alloc_addr_space m = (Some a, m')"
  shows "mmu_inv m'" "live_l1 m' a" "a \<noteq> l1_base m'" "\<not> live_l1 m a"
    "\<And>t. live_l1 m' t \<longleftrightarrow> t = a \<or> live_l1 m t" "\<And>i. i < 4096 \<Longrightarrow> tbl m' (a + 4 * i) = 0"
    "\<And>t i. live_l1 m t \<Longrightarrow> i < 4096 \<Longrightarrow> tbl m' (t + 4 * i) = tbl m (t + 4 * i)"
proof -
  note lay_ok = mmu_invD(1) [OF inv]
  obtain u where u: "u < USER_TABLE_COUNT" "a = user_table_addr m u" "\<not> bit (addr_space_alloc m) u"
    "m' = m\<lparr>addr_space_alloc := addr_space_alloc m OR push_bit u 1,
      tbl := fill_words (user_table_addr m u) 4096 (\<lambda>_. 0) (tbl m)\<rparr>"
    "\<And>i. bit (addr_space_alloc m') i \<longleftrightarrow> i = u \<or> bit (addr_space_alloc m) i" "same_layout m m'"
    using alloc_addr_space_SomeE [OF al] by blast
  note l = same_layout_simps [OF u(6)]
  have ne: "a \<noteq> l1_base m" using user_not_kernel_table [OF lay_ok u(1)] u(2) by simp
  then show "a \<noteq> l1_base m'" using l by simp
  show notlive: "\<not> live_l1 m a" using ne u(2,3) by (auto simp: live_l1_def)
  show live: "live_l1 m' t \<longleftrightarrow> t = a \<or> live_l1 m t" for t
    using u(1,2,5) l by (auto simp: live_l1_def)
  then show "live_l1 m' a" by blast
  have isl1: "is_l1 m a" using u(1,2) by (auto simp: is_l1_def)
  show zero: "tbl m' (a + 4 * i) = 0" if "i < 4096" for i using that u(2,4) by simp
  show old: "tbl m' (t + 4 * i) = tbl m (t + 4 * i)" if "live_l1 m t" "i < 4096" for t i
    using fill_other_l1 [OF lay_ok live_is_l1 [OF that(1)] isl1 that(2)] notlive that(1) u(2,4) by auto
  show "mmu_inv m'"
  proof (rule mmu_inv_step [OF inv u(6)], rule disjI1)
    fix t i assume a: "live_l1 m' t" "i < 4096" "pt_entry m' t i"
    then have "t \<noteq> user_table_addr m u" using zero u(2) by (auto simp: pt_entry_def)
    then have t: "live_l1 m t" using a(1) live u(2) by blast
    moreover have "l2_alloc m' = l2_alloc m" using u(4) by simp
    ultimately show "live_l1 m t \<and> pt_entry m t i \<and> target m' t i = target m t i \<and>
        (\<forall>s<L2_POOL_SIZE. target m t i = l2_table_addr m s \<longrightarrow> bit (l2_alloc m) s \<longrightarrow> bit (l2_alloc m') s)"
      using a(3) old [OF t a(2)] by (simp add: pt_entry_def target_def)
  qed
qed

lemma clone_words:
  assumes "layout_ok m" "is_l1 m src" "is_l1 m dst" "src \<noteq> dst"
  shows "tbl (clone_addr_space src dst m) = fill_words dst 4096 (\<lambda>i. tbl m (src + 4 * i)) (tbl m)"
proof -
  have "fold (\<lambda>i t. t(dst + 4 * i := t (src + 4 * i))) [0..<n] (tbl m) = fill_words dst n (\<lambda>i. tbl m (src + 4 * i)) (tbl m)"
    if "n \<le> 4096" for n
    using that
  proof (induction n)
    case 0
    show ?case by (simp add: fill_words_def)
  next
    case (Suc n)
    have "fill_words dst n (\<lambda>i. tbl m (src + 4 * i)) (tbl m) (src + 4 * n) = tbl m (src + 4 * n)"
    proof (rule fill_words_out)
      fix i assume "i < n"
      then show "src + 4 * n \<noteq> dst + 4 * i"
        using l1_words_unique [OF assms(1-3), of n i] assms(4) Suc.prems by auto
    qed
    moreover have "[0..<Suc n] = [0..<n] @ [n]" by simp
    moreover have "n \<le> 4096" using Suc.prems by simp
    ultimately show ?case
      using Suc.IH by (simp only: fill_words_def fold_append fold_Cons fold_Nil comp_apply id_apply)
  qed
  then show ?thesis by (simp add: clone_addr_space_def del: upt.simps)
qed

text \<open>A fresh address space is a copy of the kernel map.\<close>

lemma clone_kernel_inv:
  assumes inv: "mmu_inv m" and t: "live_l1 m dst" "dst \<noteq> l1_base m"
  shows "mmu_inv (clone_addr_space (table_base m) dst m)"
    "\<And>i. i < 4096 \<Longrightarrow> tbl (clone_addr_space (table_base m) dst m) (dst + 4 * i) = tbl m (l1_base m + 4 * i)"
    "\<And>t i. live_l1 m t \<Longrightarrow> i < 4096 \<Longrightarrow> t \<noteq> dst \<Longrightarrow>
      tbl (clone_addr_space (table_base m) dst m) (t + 4 * i) = tbl m (t + 4 * i)"
proof -
  let ?m = "clone_addr_space (table_base m) dst m"
  note lay_ok = mmu_invD(1) [OF inv]
  have w: "tbl ?m = fill_words dst 4096 (\<lambda>i. tbl m (l1_base m + 4 * i)) (tbl m)"
    using clone_words [OF lay_ok _ live_is_l1 [OF t(1)]] t(2) by (simp add: table_base_def is_l1_def)
  have f: "same_layout m ?m" "addr_space_alloc ?m = addr_space_alloc m" "l2_alloc ?m = l2_alloc m"
    by (simp_all add: clone_addr_space_def same_layout_def)
  show new: "tbl ?m (dst + 4 * i) = tbl m (l1_base m + 4 * i)" if "i < 4096" for i using that w by simp
  show old: "tbl ?m (t + 4 * i) = tbl m (t + 4 * i)" if "live_l1 m t" "i < 4096" "t \<noteq> dst" for t i
    unfolding w by (rule fill_other_l1 [OF lay_ok live_is_l1 [OF that(1)] live_is_l1 [OF assms(2)] that(2,3)])
  show "mmu_inv ?m"
  proof (rule mmu_inv_step [OF inv f(1)])
    fix t i assume a: "live_l1 ?m t" "i < 4096" "pt_entry ?m t i"
    have live: "live_l1 m t" using a(1) live_l1_cong [OF f(1,2)] by blast
    show "(live_l1 m t \<and> pt_entry m t i \<and> target ?m t i = target m t i \<and>
        (\<forall>s<L2_POOL_SIZE. target m t i = l2_table_addr m s \<longrightarrow> bit (l2_alloc m) s \<longrightarrow> bit (l2_alloc ?m) s)) \<or>
      (\<exists>k<KERNEL_SECTIONS. i = KERNEL_MB + k \<and> target ?m t i = kernel_l2_base m + k * 1024)"
    proof (cases "t = dst")
      case True
      have k: "live_l1 m (l1_base m)" by (simp add: live_l1_def)
      have "pt_entry m (l1_base m) i" "target ?m t i = target m (l1_base m) i"
        using a(3) new [OF a(2)] True by (simp_all add: pt_entry_def target_def)
      then show ?thesis using mmu_invD(2) [OF inv k a(2)] by (simp add: entry_ok_def)
    next
      case False
      then show ?thesis using a(3) old [OF live a(2) False] live f(3) by (simp add: pt_entry_def target_def)
    qed
  qed
qed

lemma free_entries_fold:
  defines "step \<equiv> \<lambda>t idx m. let entry = tbl m (t + 4 * idx) in
    if entry AND 0b11 = L1_PAGE_TABLE then snd (free_l2_table (l2_of entry) m) else m"
  shows "tbl (fold (step t) idxs m) = tbl m \<and> same_layout m (fold (step t) idxs m) \<and>
    addr_space_alloc (fold (step t) idxs m) = addr_space_alloc m \<and>
    (\<forall>s. bit (l2_alloc (fold (step t) idxs m)) s \<longleftrightarrow> bit (l2_alloc m) s \<and>
      \<not> (s < L2_POOL_SIZE \<and> (\<exists>i\<in>set idxs. pt_entry m t i \<and> target m t i = l2_table_addr m s)))"
proof (induction idxs arbitrary: m)
  case Nil
  show ?case by (simp add: same_layout_def)
next
  case (Cons i idxs)
  let ?m = "step t i m"
  have m: "tbl ?m = tbl m" "same_layout m ?m" "addr_space_alloc ?m = addr_space_alloc m"
    "\<And>s. bit (l2_alloc ?m) s \<longleftrightarrow> bit (l2_alloc m) s \<and>
      \<not> (s < L2_POOL_SIZE \<and> pt_entry m t i \<and> target m t i = l2_table_addr m s)"
    unfolding step_def Let_def pt_entry_def target_def
    using free_l2_table_facts [where a = "l2_of (tbl m (t + 4 * i))" and m = m] by (auto simp: same_layout_def)
  have e: "pt_entry ?m t j = pt_entry m t j" "target ?m t j = target m t j" for j
    by (simp_all add: pt_entry_def target_def m(1))
  show ?case
    using Cons.IH [of ?m] m e same_layout_simps(1) [OF m(2)] by (auto simp: same_layout_def)
qed

lemma free_addr_space_inv:
  assumes inv: "mmu_inv m" and t: "live_l1 m t" "t \<noteq> l1_base m"
  shows "fst (free_addr_space t m)" "mmu_inv (snd (free_addr_space t m))"
    "\<And>t'. live_l1 (snd (free_addr_space t m)) t' \<longleftrightarrow> live_l1 m t' \<and> t' \<noteq> t"
    "tbl (snd (free_addr_space t m)) = tbl m" "same_layout m (snd (free_addr_space t m))"
    "\<And>s. s < L2_POOL_SIZE \<Longrightarrow> bit (l2_alloc (snd (free_addr_space t m))) s \<longleftrightarrow>
      bit (l2_alloc m) s \<and> (\<nexists>i. i < 4096 \<and> pt_entry m t i \<and> target m t i = l2_table_addr m s)"
proof -
  note lay_ok = mmu_invD(1) [OF inv]
  obtain u where u: "u < USER_TABLE_COUNT" "bit (addr_space_alloc m) u" "t = user_table_addr m u"
    using t by (auto simp: live_l1_def)
  have f: "find (\<lambda>i. user_table_addr m i = t) [0..<USER_TABLE_COUNT] = Some u"
    unfolding find_upt_Some using u by auto
  let ?step = "\<lambda>idx m. let entry = tbl m (t + 4 * idx) in
    if entry AND 0b11 = L1_PAGE_TABLE then snd (free_l2_table (l2_of entry) m) else m"
  define m1 where "m1 = fold ?step [0..<4096] m"
  let ?m' = "snd (free_addr_space t m)"
  have res: "free_addr_space t m = (True, m1\<lparr>addr_space_alloc := addr_space_alloc m1 AND NOT (push_bit u 1)\<rparr>)"
    using f unfolding free_addr_space_def m1_def by (simp only: option.case Let_def)
  have m1: "tbl m1 = tbl m" "same_layout m m1" "addr_space_alloc m1 = addr_space_alloc m"
    "\<And>s. bit (l2_alloc m1) s \<longleftrightarrow> bit (l2_alloc m) s \<and>
      \<not> (s < L2_POOL_SIZE \<and> (\<exists>i\<in>set [0..<4096]. pt_entry m t i \<and> target m t i = l2_table_addr m s))"
    using free_entries_fold [where t = t and idxs = "[0..<4096]" and m = m] unfolding m1_def by blast+
  show "fst (free_addr_space t m)" unfolding res by simp
  show tb: "tbl ?m' = tbl m" and lay: "same_layout m ?m'"
    unfolding res using m1(1,2) by (simp_all add: same_layout_def)
  note l = same_layout_simps [OF lay]
  have as: "bit (addr_space_alloc ?m') i \<longleftrightarrow> bit (addr_space_alloc m) i \<and> i \<noteq> u" for i
    unfolding res using bit_and_not_mask [of "addr_space_alloc m" u i] m1(3) by auto
  show live: "live_l1 ?m' t' \<longleftrightarrow> live_l1 m t' \<and> t' \<noteq> t" for t'
    unfolding live_l1_def l(2,5) as using t(2) u(3) user_table_addr_inj [of m] by metis
  have bits: "bit (l2_alloc ?m') s \<longleftrightarrow> bit (l2_alloc m) s \<and>
      \<not> (s < L2_POOL_SIZE \<and> (\<exists>i<4096. pt_entry m t i \<and> target m t i = l2_table_addr m s))" for s
    unfolding res using m1(4) by auto
  then show "bit (l2_alloc ?m') s \<longleftrightarrow>
      bit (l2_alloc m) s \<and> (\<nexists>i. i < 4096 \<and> pt_entry m t i \<and> target m t i = l2_table_addr m s)" if "s < L2_POOL_SIZE" for s
    using that by blast
  have e: "pt_entry ?m' t' i = pt_entry m t' i" "target ?m' t' i = target m t' i" for t' i
    by (simp_all add: pt_entry_def target_def tb)
  show "mmu_inv ?m'"
  proof (rule mmu_inv_step [OF inv lay], rule disjI1)
    fix t' i assume a: "live_l1 ?m' t'" "i < 4096" "pt_entry ?m' t' i"
    have t': "live_l1 m t'" "t' \<noteq> t" "pt_entry m t' i" using a live e by blast+
    have "\<not> (\<exists>j<4096. pt_entry m t j \<and> target m t j = l2_table_addr m s)"
      if "s < L2_POOL_SIZE" "target m t' i = l2_table_addr m s" for s
      using mmu_invD(3) [OF inv t'(1) a(2) t'(3) t(1) _ _ that(1,2)] t'(2) by blast
    then show "live_l1 m t' \<and> pt_entry m t' i \<and> target ?m' t' i = target m t' i \<and>
        (\<forall>s<L2_POOL_SIZE. target m t' i = l2_table_addr m s \<longrightarrow> bit (l2_alloc m) s \<longrightarrow> bit (l2_alloc ?m') s)"
      using t' e bits by blast
  qed
qed

section \<open>Confinement\<close>

text \<open>The words an operation on address space \<open>t\<close> may write: the table itself, the pool tables it
  points to, and pool tables nobody owns.\<close>

definition own_word :: "mmu_state \<Rightarrow> usize \<Rightarrow> usize \<Rightarrow> bool" where
  "own_word m t a \<longleftrightarrow> (\<exists>i<4096. a = t + 4 * i) \<or>
     (\<exists>s<L2_POOL_SIZE. \<exists>j<256. a = l2_table_addr m s + 4 * j \<and>
       (\<not> bit (l2_alloc m) s \<or> (\<exists>i<4096. pt_entry m t i \<and> target m t i = l2_table_addr m s)))"

definition confined :: "usize \<Rightarrow> mmu_state \<Rightarrow> mmu_state \<Rightarrow> bool" where
  "confined t m m' \<longleftrightarrow> same_layout m m' \<and> (\<forall>a. tbl m' a \<noteq> tbl m a \<longrightarrow> own_word m t a)"

lemma confined_refl [simp]: "confined t m m"
  by (simp add: confined_def same_layout_def)

lemma confined_words:
  assumes inv: "mmu_inv m" and t: "live_l1 m t" "live_l1 m t'" "t \<noteq> t'" and c: "confined t m m'" and i: "i < 4096"
  shows "tbl m' (t' + 4 * i) = tbl m (t' + 4 * i)"
    "pt_entry m t' i \<Longrightarrow> j < 256 \<Longrightarrow> tbl m' (target m t' i + 4 * j) = tbl m (target m t' i + 4 * j)"
proof -
  note lay_ok = mmu_invD(1) [OF inv]
  have "\<not> own_word m t (t' + 4 * i)"
    using l1_words_unique [OF lay_ok live_is_l1 [OF t(2)] live_is_l1 [OF t(1)] i]
      l1_l2_words_apart [OF lay_ok live_is_l1 [OF t(2)] i] t(3) unfolding own_word_def by blast
  then show "tbl m' (t' + 4 * i) = tbl m (t' + 4 * i)" using c unfolding confined_def by blast
  show "tbl m' (target m t' i + 4 * j) = tbl m (target m t' i + 4 * j)" if pt: "pt_entry m t' i" and j: "j < 256"
  proof -
    let ?a = "target m t' i + 4 * j"
    have "\<not> own_word m t ?a"
    proof
      assume ow: "own_word m t ?a"
      have "\<not> (\<exists>i<4096. ?a = t + 4 * i)"
        using entry_word_not_l1 [OF inv t(2) i pt live_is_l1 [OF t(1)] _ j] by metis
      then obtain s j' where s: "s < L2_POOL_SIZE" "j' < 256" "?a = l2_table_addr m s + 4 * j'"
        "\<not> bit (l2_alloc m) s \<or> (\<exists>i<4096. pt_entry m t i \<and> target m t i = l2_table_addr m s)"
        using ow unfolding own_word_def by blast
      have "\<not> (\<exists>k<2. target m t' i = kernel_l2_base m + k * 1024)"
        using l2_kernel_words_apart [OF lay_ok s(1,2) _ j] s(3) by metis
      then obtain s' where s': "s' < L2_POOL_SIZE" "bit (l2_alloc m) s'" "target m t' i = l2_table_addr m s'"
        using mmu_invD(2) [OF inv t(2) i pt] by (auto simp: entry_ok_def mmu_sizes)
      then have "s = s'" using l2_words_unique [OF s(2) j] s(3) by metis
      then show False using s(4) s' mmu_invD(3) [OF inv t(2) i pt t(1) _ _ s(1)] t(3) by blast
    qed
    then show ?thesis using c unfolding confined_def by blast
  qed
qed

lemma confined_isolates:
  assumes "mmu_inv m" "live_l1 m t" "live_l1 m t'" "t \<noteq> t'" "confined t m m'" "va < USIZE_MOD"
  shows "read_l2_entry t' va m' = read_l2_entry t' va m"
  using confined_words [OF assms(1-5) l1_index_less [OF assms(6)]] l2_index_less [of va]
  by (simp add: read_l2_entry_def Let_def pt_entry_def target_def)

lemma write_target_confined:
  assumes inv: "mmu_inv m" and t: "live_l1 m t" "i < 4096" "pt_entry m t i" "i \<notin> {KERNEL_MB..<KERNEL_MB + KERNEL_SECTIONS}"
    and j: "j < 256"
  shows "own_word m t (target m t i + 4 * j)"
proof -
  obtain s where s: "s < L2_POOL_SIZE" "target m t i = l2_table_addr m s"
    using mmu_invD(2) [OF inv t(1-3)] t(4) by (auto simp: entry_ok_def)
  then show ?thesis using t j unfolding own_word_def by auto
qed

lemma map_page_confined:
  assumes inv: "mmu_inv m" and t: "live_l1 m t" and va: "va < USIZE_MOD"
    and k: "l1_index va \<notin> {KERNEL_MB..<KERNEL_MB + KERNEL_SECTIONS}"
  shows "confined t m (snd (map_page t va pa at m))"
proof -
  obtain ok m' where mp: "map_page t va pa at m = (ok, m')" by fastforce
  note i = l1_index_less [OF va]
  from mp have "confined t m m'"
  proof (cases rule: map_page_cases)
    case present
    then show ?thesis
      using write_target_confined [OF inv t i present(1) k l2_index_less]
      by (auto simp: confined_def same_layout_def)
  next
    case (fresh a m1)
    obtain s where s: "s < L2_POOL_SIZE" "a = l2_table_addr m s" "\<not> bit (l2_alloc m) s"
      "m1 = m\<lparr>l2_alloc := l2_alloc m OR push_bit s 1, tbl := fill_words (l2_table_addr m s) 256 (\<lambda>_. 0) (tbl m)\<rparr>"
      using alloc_l2_SomeE [OF fresh(2)] by blast
    have slot: "own_word m t (a + 4 * j)" if "j < 256" for j
      using that s(1-3) unfolding own_word_def by auto
    have l1: "own_word m t (t + 4 * l1_index va)" using i unfolding own_word_def by auto
    have "own_word m t x" if "tbl m' x \<noteq> tbl m x" for x
    proof (rule ccontr)
      assume n: "\<not> own_word m t x"
      then have "x \<noteq> a + 4 * l2_index va" "x \<noteq> t + 4 * l1_index va" "\<And>j. j < 256 \<Longrightarrow> x \<noteq> l2_table_addr m s + 4 * j"
        using slot l1 s(2) l2_index_less [of va] by metis+
      then show False using that fill_words_out [of 256 x "l2_table_addr m s"] by (simp add: fresh(4) s(4))
    qed
    then show ?thesis using fresh(4) s(4) by (simp add: confined_def same_layout_def)
  next
    case failed
    then show ?thesis by simp
  qed
  then show ?thesis using mp by simp
qed

lemma unmap_page_confined:
  assumes inv: "mmu_inv m" and t: "live_l1 m t" and va: "va < USIZE_MOD"
    and k: "l1_index va \<notin> {KERNEL_MB..<KERNEL_MB + KERNEL_SECTIONS}"
  shows "confined t m (unmap_page t va m)"
proof (cases rule: unmap_page_cases [of m t va])
  case present
  then show ?thesis
    using write_target_confined [OF inv t l1_index_less [OF va] present(1) k l2_index_less]
    by (auto simp: confined_def same_layout_def)
next
  case emptied
  have "own_word m t (t + 4 * l1_index va)" using l1_index_less [OF va] unfolding own_word_def by auto
  then show ?thesis
    unfolding emptied(2) confined_def free_l2_table_facts
    using write_target_confined [OF inv t l1_index_less [OF va] emptied(1) k l2_index_less]
      free_l2_table_facts(2) [where m = "m\<lparr>tbl := (tbl m)(target m t (l1_index va) + 4 * l2_index va := 0, t + 4 * l1_index va := 0)\<rparr>"]
    by (auto simp: same_layout_def)
next
  case absent
  then show ?thesis by simp
qed

lemma update_page_prot_cases:
  obtains (written) old where "pt_entry m t (l1_index va)" "old AND 0b11 \<noteq> 0"
      "old = tbl m (target m t (l1_index va) + 4 * l2_index va)"
      "update_page_prot t va at m =
        (True, m\<lparr>tbl := (tbl m)(target m t (l1_index va) + 4 * l2_index va := (old AND 0xFFFFF000) OR at)\<rparr>)"
  | (absent) "update_page_prot t va at m = (False, m)"
  by (cases "pt_entry m t (l1_index va)"; cases "tbl m (target m t (l1_index va) + 4 * l2_index va) AND 0b11 = 0")
    (auto simp: update_page_prot_def Let_def pt_entry_def target_def)

lemma update_page_prot_inv:
  assumes "mmu_inv m" "live_l1 m t" "va < USIZE_MOD"
  shows "mmu_inv (snd (update_page_prot t va at m))"
proof (cases rule: update_page_prot_cases [of m t va at])
  case (written old)
  then show ?thesis using mmu_inv_write_l2 [OF assms(1,2) l1_index_less [OF assms(3)] written(1) l2_index_less] by simp
next
  case absent
  then show ?thesis using assms(1) by simp
qed

lemma update_page_prot_confined:
  assumes "mmu_inv m" "live_l1 m t" "va < USIZE_MOD" "l1_index va \<notin> {KERNEL_MB..<KERNEL_MB + KERNEL_SECTIONS}"
  shows "confined t m (snd (update_page_prot t va at m))"
proof (cases rule: update_page_prot_cases [of m t va at])
  case (written old)
  then show ?thesis
    using write_target_confined [OF assms(1,2) l1_index_less [OF assms(3)] written(1) assms(4) l2_index_less]
    by (auto simp: confined_def same_layout_def)
next
  case absent
  then show ?thesis by simp
qed

section \<open>Boot\<close>

lemma section_desc_not_pt: "(push_bit 20 w OR section_attrs ty) AND 0b11 \<noteq> L1_PAGE_TABLE"
proof -
  have "bit (push_bit 20 w OR section_attrs ty) 1"
    by (cases ty) (simp_all add: bit_or_iff section_attrs_def const_defs)
  moreover have "\<not> bit L1_PAGE_TABLE 1" by (simp add: const_defs)
  moreover have "bit (v AND 0b11) 1 = bit v 1" for v :: u32 by (simp add: bit_and_iff)
  ultimately show ?thesis by metis
qed

lemma fold_map_section:
  "same_layout m (fold (\<lambda>mb. map_section mb mb ty) mbs m) \<and>
   l2_alloc (fold (\<lambda>mb. map_section mb mb ty) mbs m) = l2_alloc m \<and>
   addr_space_alloc (fold (\<lambda>mb. map_section mb mb ty) mbs m) = addr_space_alloc m \<and>
   (\<forall>i. tbl (fold (\<lambda>mb. map_section mb mb ty) mbs m) (l1_base m + 4 * i) =
      (if i \<in> set mbs then push_bit 20 (of_nat i) OR section_attrs ty else tbl m (l1_base m + 4 * i)))"
proof (induction mbs arbitrary: m)
  case Nil
  show ?case by (simp add: same_layout_def)
next
  case (Cons mb mbs)
  let ?m = "map_section mb mb ty m"
  have "same_layout m ?m" "l1_base ?m = l1_base m" "l2_alloc ?m = l2_alloc m" "addr_space_alloc ?m = addr_space_alloc m"
    "tbl ?m (l1_base m + 4 * i) = (if i = mb then push_bit 20 (of_nat i) OR section_attrs ty else tbl m (l1_base m + 4 * i))" for i
    by (simp_all add: map_section_def same_layout_def)
  then show ?case using Cons.IH [of ?m] by (auto simp: same_layout_def)
qed

lemma init_and_enable_l1:
  fixes ts et er :: usize
  assumes lay: "layout_ok m"
  defines "m' \<equiv> init_and_enable ts et er m"
  shows "same_layout m m'" "l2_alloc m' = l2_alloc m" "addr_space_alloc m' = addr_space_alloc m"
    "ttbr0 m' = l1_base m"
    "i < 4096 \<Longrightarrow> pt_entry m' (l1_base m) i \<Longrightarrow>
      \<exists>k<KERNEL_SECTIONS. i = KERNEL_MB + k \<and> target m' (l1_base m) i = kernel_l2_base m + k * 1024"
    "i < 4096 \<Longrightarrow> 0x800 \<le> i \<Longrightarrow> tbl m' (l1_base m + 4 * i) = 0"
    "i < 4096 \<Longrightarrow> \<not> pt_entry m' (l1_base m) i \<Longrightarrow>
      tbl m' (l1_base m + 4 * i) = 0 \<or> (\<exists>ty. tbl m' (l1_base m + 4 * i) = push_bit 20 (of_nat i) OR section_attrs ty)"
    "k < KERNEL_SECTIONS \<Longrightarrow> j < 256 \<Longrightarrow> \<exists>p. tbl m' (kernel_l2_base m + k * 1024 + 4 * j) =
      of_nat (RAM_START + (k * 256 + j) * 4096) OR SMALL_PAGE OR SHAREABLE OR NORMAL_WB_WA OR wx_page_attrs p ts et er"
    "KERNEL_MB + KERNEL_SECTIONS \<le> i \<Longrightarrow> i < 0x800 \<Longrightarrow> tbl m' (l1_base m + 4 * i) = push_bit 20 (of_nat i) OR section_attrs Ram"
proof -
  define m1 where "m1 = m\<lparr>tbl := fill_words (l1_base m) 4096 (\<lambda>_. 0) (tbl m)\<rparr>"
  define m2 where "m2 = fold (\<lambda>mb. map_section mb mb Device) [0..<0x100] m1"
  define m3 where "m3 = fold (\<lambda>mb. map_section mb mb Device) [0x100..<0x200] m2"
  define m4 where "m4 = fold (\<lambda>mb. map_section mb mb Device) [0x200..<0x300] m3"
  define m5 where "m5 = map_kernel_wx ts et er m4"
  define m6 where "m6 = fold (\<lambda>section m. m\<lparr>tbl := (tbl m)(l1_base m + 4 * (KERNEL_MB + section) :=
      of_nat (kernel_l2_base m + section * 1024) OR L1_PAGE_TABLE)\<rparr>) [0..<KERNEL_SECTIONS] m5"
  define m7 where "m7 = fold (\<lambda>mb. map_section mb mb Ram) [KERNEL_MB + KERNEL_SECTIONS..<0x800] m6"
  have m': "m' = m7\<lparr>ttbr0 := l1_base m7\<rparr>"
    unfolding m'_def init_and_enable_def Let_def m7_def m6_def m5_def m4_def m3_def m2_def m1_def ..
  note f2 = fold_map_section [of m1 Device "[0..<0x100]", folded m2_def, unfolded set_upt atLeastLessThan_iff]
    and f3 = fold_map_section [of m2 Device "[0x100..<0x200]", folded m3_def, unfolded set_upt atLeastLessThan_iff]
    and f4 = fold_map_section [of m3 Device "[0x200..<0x300]", folded m4_def, unfolded set_upt atLeastLessThan_iff]
    and f7 = fold_map_section [of m6 Ram "[KERNEL_MB + KERNEL_SECTIONS..<0x800]", folded m7_def, unfolded set_upt atLeastLessThan_iff]
  have l1: "same_layout m m1" "l2_alloc m1 = l2_alloc m" "addr_space_alloc m1 = addr_space_alloc m"
    by (simp_all add: m1_def same_layout_def)
  have l5: "same_layout m4 m5" "l2_alloc m5 = l2_alloc m4" "addr_space_alloc m5 = addr_space_alloc m4"
    by (simp_all add: m5_def map_kernel_wx_def same_layout_def)
  have upt2: "[0..<KERNEL_SECTIONS] = [0, 1]" by (simp add: mmu_sizes upt_rec)
  have l6: "same_layout m5 m6" "l2_alloc m6 = l2_alloc m5" "addr_space_alloc m6 = addr_space_alloc m5"
    by (simp_all add: m6_def upt2 same_layout_def)
  have lays: "same_layout m m2" "same_layout m m3" "same_layout m m4" "same_layout m m5" "same_layout m m6" "same_layout m m7"
    using l1 f2 f3 f4 l5 l6 f7 by (auto simp: same_layout_def)
  have al: "l2_alloc m7 = l2_alloc m" "addr_space_alloc m7 = addr_space_alloc m"
    using l1 f2 f3 f4 l5 l6 f7 by metis+
  show "same_layout m m'" "l2_alloc m' = l2_alloc m" "addr_space_alloc m' = addr_space_alloc m" "ttbr0 m' = l1_base m"
    using m' lays(6) al by (simp_all add: same_layout_def)
  have base: "l1_base m1 = l1_base m" "l1_base m2 = l1_base m" "l1_base m3 = l1_base m" "l1_base m4 = l1_base m"
    "l1_base m5 = l1_base m" "l1_base m6 = l1_base m" "kernel_l2_base m5 = kernel_l2_base m"
    using lays by (auto simp: same_layout_def m1_def)
  let ?a = "l1_base m + 4 * i"
  have e7: "tbl m' ?a = (if KERNEL_MB + KERNEL_SECTIONS \<le> i \<and> i < 0x800 then push_bit 20 (of_nat i) OR section_attrs Ram else tbl m6 ?a)"
    using f7 m' base(6) by simp
  have e6: "tbl m6 ?a = (if i = KERNEL_MB + 1 then of_nat (kernel_l2_base m + 1024) OR L1_PAGE_TABLE
      else if i = KERNEL_MB then of_nat (kernel_l2_base m) OR L1_PAGE_TABLE else tbl m5 ?a)"
    unfolding m6_def upt2 using base by simp
  have e5: "tbl m5 ?a = tbl m4 ?a" if i: "i < 4096"
  proof -
    have "?a \<noteq> kernel_l2_base m + 4 * j" if "j < 512" for j
    proof -
      have "?a \<noteq> kernel_l2_base m + (j div 256) * 1024 + 4 * (j mod 256)"
        using that by (intro l1_kernel_l2_words_apart [OF lay _ i]) (auto simp: is_l1_def)
      moreover have "(j div 256) * 1024 + 4 * (j mod 256) = 4 * j"
        using mult_div_mod_eq [of 256 j] by linarith
      ultimately show ?thesis by (simp add: add.assoc)
    qed
    moreover have "kernel_l2_base m4 = kernel_l2_base m" using lays(3) by (simp add: same_layout_def)
    ultimately show ?thesis by (simp add: m5_def map_kernel_wx_def mmu_sizes fill_words_out)
  qed
  show "tbl m' ?a = push_bit 20 (of_nat i) OR section_attrs Ram" if "KERNEL_MB + KERNEL_SECTIONS \<le> i" "i < 0x800"
    using e7 that by simp
  show "tbl m' ?a = 0" if "i < 4096" "0x800 \<le> i"
  proof -
    have "tbl m1 ?a = 0" using that(1) by (simp add: m1_def)
    then have "tbl m4 ?a = 0" using f2 f3 f4 base(1-3) that(2) by simp
    then show ?thesis using e7 e6 e5 [OF that(1)] that(2) by (simp add: mmu_sizes)
  qed
  show "tbl m' ?a = 0 \<or> (\<exists>ty. tbl m' ?a = push_bit 20 (of_nat i) OR section_attrs ty)"
    if "i < 4096" "\<not> pt_entry m' (l1_base m) i"
  proof -
    have kmod: "kernel_l2_base m mod 1024 = 0" "kernel_l2_base m + 1024 < USIZE_MOD"
      using lay by (auto simp: layout_ok_def)
    have "i \<noteq> KERNEL_MB" "i \<noteq> KERNEL_MB + 1"
      using that(2) e7 e6 l2_of_desc(2) [OF kmod(1)] l2_of_desc(2) [of "kernel_l2_base m + 1024"] kmod
      by (auto simp: pt_entry_def mmu_sizes)
    then have "tbl m' ?a = (if KERNEL_MB + KERNEL_SECTIONS \<le> i \<and> i < 0x800 then push_bit 20 (of_nat i) OR section_attrs Ram else tbl m4 ?a)"
      using e7 e6 e5 [OF that(1)] by simp
    moreover have "tbl m1 ?a = 0" using that(1) by (simp add: m1_def)
    then have "tbl m4 ?a = 0 \<or> tbl m4 ?a = push_bit 20 (of_nat i) OR section_attrs Device"
      using f2 f3 f4 base(1-3) by simp
    ultimately show ?thesis by metis
  qed
  show "\<exists>p. tbl m' (kernel_l2_base m + k * 1024 + 4 * j) =
      of_nat (RAM_START + (k * 256 + j) * 4096) OR SMALL_PAGE OR SHAREABLE OR NORMAL_WB_WA OR wx_page_attrs p ts et er"
    if k: "k < KERNEL_SECTIONS" and j: "j < 256"
  proof -
    let ?w = "kernel_l2_base m + k * 1024 + 4 * j"
    have ne: "?w \<noteq> l1_base m + 4 * i" if "i < 4096" for i
      using l1_kernel_l2_words_apart [OF lay _ that, of "l1_base m" k j] k j by (simp add: is_l1_def mmu_sizes)
    have out: "tbl (fold (\<lambda>mb. map_section mb mb ty) mbs x) ?w = tbl x ?w" if "l1_base x = l1_base m" "\<forall>mb\<in>set mbs. mb < 4096" for ty mbs x
      using that
    proof (induction mbs arbitrary: x)
      case (Cons mb mbs)
      have "tbl (map_section mb mb ty x) ?w = tbl x ?w" "l1_base (map_section mb mb ty x) = l1_base m"
        using Cons.prems ne [of mb] by (simp_all add: map_section_def)
      then show ?case using Cons.IH [of "map_section mb mb ty x"] Cons.prems(2) by simp
    qed simp
    have "tbl m' ?w = tbl m6 ?w" unfolding m' m7_def using out [of m6 "[KERNEL_MB + KERNEL_SECTIONS..<0x800]" Ram] base(6) by (simp del: upt.simps)
    also have "\<dots> = tbl m5 ?w"
      unfolding m6_def upt2 using ne [of KERNEL_MB] ne [of "KERNEL_MB + 1"] base(5) by (simp add: mmu_sizes)
    also have "\<dots> = (let va = RAM_START + (k * 256 + j) * 4096 in
        of_nat va OR SMALL_PAGE OR SHAREABLE OR NORMAL_WB_WA OR wx_page_attrs va ts et er)"
    proof -
      have w: "?w = kernel_l2_base m4 + 4 * (k * 256 + j)" using lays(3) by (simp add: same_layout_def)
      have lt: "k * 256 + j < KERNEL_SECTIONS * 256" using k j by (simp add: mmu_sizes)
      have "tbl m5 = fill_words (kernel_l2_base m4) (KERNEL_SECTIONS * 256) (\<lambda>i. let va = RAM_START + i * 4096 in
          of_nat va OR SMALL_PAGE OR SHAREABLE OR NORMAL_WB_WA OR wx_page_attrs va ts et er) (tbl m4)"
        by (simp add: m5_def map_kernel_wx_def)
      then show ?thesis unfolding w by (simp only: fill_words_in [OF lt])
    qed
    finally show ?thesis unfolding Let_def by blast
  qed
  assume i: "i < 4096" and pt: "pt_entry m' (l1_base m) i"
  note e5 = e5 [OF i]
  have "tbl m1 ?a AND 0b11 \<noteq> L1_PAGE_TABLE" using i by (simp add: m1_def)
  then have "tbl m2 ?a AND 0b11 \<noteq> L1_PAGE_TABLE" using f2 base(1) section_desc_not_pt by metis
  then have "tbl m3 ?a AND 0b11 \<noteq> L1_PAGE_TABLE" using f3 base(2) section_desc_not_pt by metis
  then have e4: "tbl m4 ?a AND 0b11 \<noteq> L1_PAGE_TABLE" using f4 base(3) section_desc_not_pt by metis
  have "i = KERNEL_MB \<or> i = KERNEL_MB + 1"
  proof (rule ccontr)
    assume "\<not> (i = KERNEL_MB \<or> i = KERNEL_MB + 1)"
    then have "tbl m' ?a AND 0b11 \<noteq> L1_PAGE_TABLE" unfolding e7 using e6 e5 e4 section_desc_not_pt by simp
    then show False using pt by (simp add: pt_entry_def)
  qed
  moreover have "kernel_l2_base m mod 1024 = 0" "kernel_l2_base m + 1024 < USIZE_MOD"
    using lay by (auto simp: layout_ok_def)
  then have "l2_of (of_nat (kernel_l2_base m) OR L1_PAGE_TABLE) = kernel_l2_base m"
    "l2_of (of_nat (kernel_l2_base m + 1024) OR L1_PAGE_TABLE) = kernel_l2_base m + 1024"
    by (simp_all only: l2_of_desc(1) mod_add_self2 add_lessD1)
  ultimately show "\<exists>k<KERNEL_SECTIONS. i = KERNEL_MB + k \<and> target m' (l1_base m) i = kernel_l2_base m + k * 1024"
    using e7 e6 unfolding target_def mmu_sizes by (elim disjE) (auto simp del: of_nat_add)
qed

lemma init_and_enable_inv:
  assumes lay: "layout_ok m" and zero: "l2_alloc m = 0" "addr_space_alloc m = 0"
  shows "mmu_inv (init_and_enable ts et er m)"
proof -
  let ?m = "init_and_enable ts et er m"
  note f = init_and_enable_l1 [OF lay, where ts = ts and et = et and er = er] and l = same_layout_simps [OF init_and_enable_l1(1) [OF lay, where ts = ts and et = et and er = er]]
  have live: "live_l1 ?m t \<longleftrightarrow> t = l1_base m" for t using f(3) zero(2) l by (simp add: live_l1_def)
  have ok: "\<exists>k<KERNEL_SECTIONS. i = KERNEL_MB + k \<and> target ?m (l1_base m) i = kernel_l2_base m + k * 1024"
    if "i < 4096" "pt_entry ?m (l1_base m) i" for i using f(5) that by blast
  have "layout_ok ?m" using lay l by blast
  moreover have "entry_ok ?m t i" if "live_l1 ?m t" "i < 4096" "pt_entry ?m t i" for t i
    using ok [of i] that live l unfolding entry_ok_def by metis
  moreover have "target ?m (l1_base m) i \<noteq> l2_table_addr ?m s" if "i < 4096" "pt_entry ?m (l1_base m) i" "s < L2_POOL_SIZE" for i s
  proof -
    have "l2_table_addr m s + 4 * 0 \<noteq> kernel_l2_base m + k * 1024 + 4 * 0" if "k < 2" for k
      using that by (intro l2_kernel_words_apart [OF lay \<open>s < L2_POOL_SIZE\<close>]) auto
    then show ?thesis using ok [OF that(1,2)] l(1) by (auto simp: mmu_sizes)
  qed
  ultimately show ?thesis unfolding mmu_inv_def using live by metis
qed

section \<open>Sequences of mapping operations\<close>

lemma shatter_section_confined:
  assumes t: "live_l1 m t" and va: "va < USIZE_MOD"
  shows "confined t m (snd (shatter_section t va m))"
proof -
  obtain ok m' where mp: "shatter_section t va m = (ok, m')" by fastforce
  note i = l1_index_less [OF va]
  from mp have "confined t m m'"
  proof (cases rule: shatter_section_cases)
    case (fresh a m1)
    obtain s where s: "s < L2_POOL_SIZE" "a = l2_table_addr m s" "\<not> bit (l2_alloc m) s"
      "m1 = m\<lparr>l2_alloc := l2_alloc m OR push_bit s 1, tbl := fill_words (l2_table_addr m s) 256 (\<lambda>_. 0) (tbl m)\<rparr>"
      using alloc_l2_SomeE [OF fresh(2)] by blast
    have slot: "own_word m t (a + 4 * j)" if "j < 256" for j
      using that s(1-3) unfolding own_word_def by auto
    have l1: "own_word m t (t + 4 * l1_index va)" using i unfolding own_word_def by auto
    have "own_word m t x" if "tbl m' x \<noteq> tbl m x" for x
    proof (rule ccontr)
      assume n: "\<not> own_word m t x"
      then have "x \<noteq> t + 4 * l1_index va" "\<And>j. j < 256 \<Longrightarrow> x \<noteq> a + 4 * j" using slot l1 by metis+
      then show False using that fill_words_out [of 256 x a] by (simp add: fresh(4) s(2,4))
    qed
    then show ?thesis using fresh(4) s(4) by (simp add: confined_def same_layout_def)
  qed simp_all
  then show ?thesis using mp by simp
qed

lemma addr_space_alloc_simps [simp]:
  "addr_space_alloc (snd (map_page t va pa at m)) = addr_space_alloc m"
  "addr_space_alloc (snd (shatter_section t va m)) = addr_space_alloc m"
  "addr_space_alloc (unmap_page t va m) = addr_space_alloc m"
  "addr_space_alloc (snd (update_page_prot t va at m)) = addr_space_alloc m"
proof -
  have al: "alloc_l2_table m = (r, m1) \<Longrightarrow> addr_space_alloc m1 = addr_space_alloc m" for r m1
    by (auto simp: alloc_l2_table_def split: option.splits)
  obtain ok m' where mp: "map_page t va pa at m = (ok, m')" by fastforce
  from mp show "addr_space_alloc (snd (map_page t va pa at m)) = addr_space_alloc m"
    by (cases rule: map_page_cases) (auto simp: mp dest: al)
  obtain ok' m'' where sh: "shatter_section t va m = (ok', m'')" by fastforce
  from sh show "addr_space_alloc (snd (shatter_section t va m)) = addr_space_alloc m"
    by (cases rule: shatter_section_cases) (auto simp: sh dest: al)
  show "addr_space_alloc (unmap_page t va m) = addr_space_alloc m"
    by (rule unmap_page_cases [of m t va]) (simp_all add: free_l2_table_facts)
  show "addr_space_alloc (snd (update_page_prot t va at m)) = addr_space_alloc m"
    by (rule update_page_prot_cases [of m t va at]) simp_all
qed

datatype mm_op = MMap usize usize u32 | MShatter usize | MEnsure usize | MUnmap usize | MProt usize u32

fun mm_va :: "mm_op \<Rightarrow> usize" where
  "mm_va (MMap va _ _) = va"
| "mm_va (MShatter va) = va"
| "mm_va (MEnsure va) = va"
| "mm_va (MUnmap va) = va"
| "mm_va (MProt va _) = va"

fun mm_step :: "usize \<Rightarrow> mm_op \<Rightarrow> mmu_state \<Rightarrow> mmu_state" where
  "mm_step t (MMap va pa at) m = snd (map_page t va pa at m)"
| "mm_step t (MShatter va) m = snd (shatter_section t va m)"
| "mm_step t (MEnsure va) m = snd (ensure_page_mappable t va m)"
| "mm_step t (MUnmap va) m = unmap_page t va m"
| "mm_step t (MProt va at) m = snd (update_page_prot t va at m)"

definition user_window :: "usize \<Rightarrow> bool" where
  "user_window va \<longleftrightarrow> va < USIZE_MOD \<and> l1_index va \<notin> {KERNEL_MB..<KERNEL_MB + KERNEL_SECTIONS}"

lemma user_window_iff: "user_window va \<longleftrightarrow> va < USIZE_MOD \<and> \<not> (RAM_START \<le> va \<and> va < KERNEL_END)"
  unfolding user_window_def l1_index_def by (auto simp: const_defs)

lemma mm_step_confined:
  assumes "mmu_inv m" "live_l1 m t" "t \<noteq> l1_base m" "user_window (mm_va x)"
  shows "confined t m (mm_step t x m)" "mmu_inv (mm_step t x m)" "addr_space_alloc (mm_step t x m) = addr_space_alloc m"
  using assms
  by (cases x; simp add: user_window_def ensure_page_mappable_def map_page_confined map_page_inv shatter_section_confined
      shatter_section_inv unmap_page_confined unmap_page_inv update_page_prot_confined update_page_prot_inv)+

lemma mm_steps_isolated:
  assumes "mmu_inv m" "live_l1 m t" "live_l1 m t'" "t \<noteq> t'" "t \<noteq> l1_base m" "\<forall>x\<in>set xs. user_window (mm_va x)"
    "va < USIZE_MOD"
  shows "read_l2_entry t' va (fold (mm_step t) xs m) = read_l2_entry t' va m \<and> mmu_inv (fold (mm_step t) xs m)"
  using assms
proof (induction xs arbitrary: m)
  case (Cons x xs)
  let ?m = "mm_step t x m"
  have c: "confined t m ?m" "mmu_inv ?m" "addr_space_alloc ?m = addr_space_alloc m"
    using mm_step_confined [OF Cons.prems(1,2,5)] Cons.prems(6) by auto
  have lay: "same_layout m ?m" using c(1) by (simp add: confined_def)
  have "live_l1 ?m t" "live_l1 ?m t'" "t \<noteq> l1_base ?m"
    using Cons.prems(2,3,5) live_l1_cong [OF lay c(3)] same_layout_simps(5) [OF lay] by auto
  then have "read_l2_entry t' va (fold (mm_step t) xs ?m) = read_l2_entry t' va ?m \<and> mmu_inv (fold (mm_step t) xs ?m)"
    using Cons.IH [of ?m] c(2) Cons.prems by auto
  then show ?case using confined_isolates [OF Cons.prems(1-4) c(1) Cons.prems(7)] by simp
qed simp

section \<open>Reachable table states\<close>

inductive mmu_reachable :: "mmu_state \<Rightarrow> bool" where
  boot: "\<lbrakk>layout_ok m; l2_alloc m = 0; addr_space_alloc m = 0\<rbrakk> \<Longrightarrow> mmu_reachable (init_and_enable ts et er m)"
| new_space: "\<lbrakk>mmu_reachable m; alloc_addr_space m = (Some a, m1)\<rbrakk>
    \<Longrightarrow> mmu_reachable (clone_addr_space (table_base m1) a m1)"
| mapping: "\<lbrakk>mmu_reachable m; live_l1 m t; t \<noteq> table_base m; user_window (mm_va x)\<rbrakk> \<Longrightarrow> mmu_reachable (mm_step t x m)"
| teardown: "\<lbrakk>mmu_reachable m; live_l1 m t; t \<noteq> table_base m\<rbrakk> \<Longrightarrow> mmu_reachable (snd (free_addr_space t m))"
| switch: "mmu_reachable m \<Longrightarrow> mmu_reachable (switch_addr_space t m)"

lemma switch_inv: "mmu_inv m \<Longrightarrow> mmu_inv (switch_addr_space t m)"
  by (rule mmu_inv_cong) (simp_all add: switch_addr_space_def same_layout_def)

lemma reachable_mmu_inv: "mmu_reachable m \<Longrightarrow> mmu_inv m"
proof (induction rule: mmu_reachable.induct)
  case (new_space m a m1)
  note al = alloc_addr_space_inv [OF new_space.IH new_space.hyps(2)]
  show ?case by (rule clone_kernel_inv(1) [OF al(1-3)])
qed (auto simp: table_base_def intro: init_and_enable_inv mm_step_confined(2) free_addr_space_inv(2) switch_inv)

section \<open>A concrete machine\<close>

text \<open>A placement of the statics inside the kernel window, and the tables after boot.\<close>

definition mmu_statics :: mmu_state where
  "mmu_statics = \<lparr>l1_base = 0x40100000, kernel_l2_base = 0x40110000, l2_base = 0x40120000,
     user_base = 0x40140000, tbl = (\<lambda>_. 0), l2_alloc = 0, addr_space_alloc = 0, ttbr0 = 0\<rparr>"

definition boot_mmu :: mmu_state where
  "boot_mmu = init_and_enable 0x40008000 0x40080000 0x400A0000 mmu_statics"

lemma mmu_statics_layout: "layout_ok mmu_statics"
  by (simp add: layout_ok_def mmu_statics_def apart_def USIZE_MOD_def)

lemma boot_mmu: "mmu_reachable boot_mmu" "mmu_inv boot_mmu" "same_layout mmu_statics boot_mmu"
    "addr_space_alloc boot_mmu = 0" "l2_alloc boot_mmu = 0"
proof -
  show r: "mmu_reachable boot_mmu"
    unfolding boot_mmu_def
    by (rule mmu_reachable.boot [OF mmu_statics_layout]) (simp_all add: mmu_statics_def)
  then show "mmu_inv boot_mmu" by (rule reachable_mmu_inv)
  show "same_layout mmu_statics boot_mmu" "addr_space_alloc boot_mmu = 0" "l2_alloc boot_mmu = 0"
    unfolding boot_mmu_def using init_and_enable_l1(1-3) [OF mmu_statics_layout]
    by (simp_all add: mmu_statics_def)
qed

lemma find_first_zero: "(0 :: nat) < n \<Longrightarrow> P 0 \<Longrightarrow> find P [0..<n] = Some 0"
  by (simp add: find_upt_Some)

text \<open>The first two address spaces created after boot.\<close>

lemma two_spaces:
  obtains m t t' where "mmu_reachable m" "mmu_inv m" "live_l1 m t" "live_l1 m t'" "t \<noteq> t'"
    "t \<noteq> l1_base m" "t' \<noteq> l1_base m"
proof -
  let ?z = "\<lambda>(m :: mmu_state) i. addr_space_alloc m AND push_bit i 1 = 0"
  have "find (?z boot_mmu) [0..<USER_TABLE_COUNT] = Some 0"
    by (rule find_first_zero) (simp_all add: boot_mmu mmu_sizes)
  then obtain a m1 where a: "alloc_addr_space boot_mmu = (Some a, m1)"
    "addr_space_alloc m1 = 1" by (simp add: alloc_addr_space_def boot_mmu)
  define m2 where "m2 = clone_addr_space (table_base m1) a m1"
  have r2: "mmu_reachable m2" unfolding m2_def by (rule mmu_reachable.new_space [OF boot_mmu(1) a(1)])
  have lay: "same_layout m1 m2" "addr_space_alloc m2 = addr_space_alloc m1"
    by (simp_all add: m2_def clone_addr_space_def same_layout_def)
  note ia = alloc_addr_space_inv [OF boot_mmu(2) a(1)]
  have al2: "live_l1 m2 a" "a \<noteq> l1_base m2" using ia(2,3) live_l1_cong [OF lay] same_layout_simps(5) [OF lay(1)] by auto
  have "find (?z m2) [0..<USER_TABLE_COUNT] = Some 1"
    unfolding find_upt_Some using a(2) lay(2) by (simp add: mmu_sizes)
  then obtain b m3 where b: "alloc_addr_space m2 = (Some b, m3)" by (simp add: alloc_addr_space_def)
  define m4 where "m4 = clone_addr_space (table_base m3) b m3"
  have r4: "mmu_reachable m4" unfolding m4_def by (rule mmu_reachable.new_space [OF r2 b])
  have lay4: "same_layout m3 m4" "addr_space_alloc m4 = addr_space_alloc m3"
    by (simp_all add: m4_def clone_addr_space_def same_layout_def)
  note ib = alloc_addr_space_inv [OF reachable_mmu_inv [OF r2] b]
  have "live_l1 m3 a" using ib(5) al2(1) by blast
  then have "live_l1 m4 a" "live_l1 m4 b" using ib(2) live_l1_cong [OF lay4] by auto
  moreover have "a \<noteq> b" using ib(4) al2(1) by blast
  moreover have "a \<noteq> l1_base m4" "b \<noteq> l1_base m4"
    using ib(2,3) \<open>live_l1 m3 a\<close> user_not_kernel_table mmu_invD(1) [OF ib(1)] same_layout_simps(5) [OF lay4(1)] al2
      alloc_addr_space_SomeE [OF b] same_layout_simps(5) by metis+
  ultimately show thesis using that r4 reachable_mmu_inv by blast
qed

section \<open>Reading back a mapping\<close>

lemma page_desc:
  fixes at :: u32
  assumes "pa mod 4096 = 0" "pa < USIZE_MOD" "at AND 0xFFFFF000 = 0"
  shows "(of_nat pa AND 0xFFFFF000 OR at) AND 0xFFFFF000 = of_nat pa" "of_nat pa AND 0xFFFFF000 = (of_nat pa :: u32)"
    "unat (of_nat pa :: u32) = pa" "(of_nat pa AND 0xFFFFF000 OR at) AND 0b11 = at AND 0b11"
proof -
  have M: "(0xFFFFF000 :: u32) = NOT (mask 12)" "(0b11 :: u32) = mask 2" by (simp_all add: mask_eq_exp_minus_1)
  obtain k where k: "pa = push_bit 12 k" using assms(1) by (auto simp: push_bit_eq_mult mult.commute)
  have bits: "bit (of_nat pa :: u32) n \<longleftrightarrow> n < 32 \<and> 12 \<le> n \<and> bit k (n - 12)" for n
    unfolding k by (auto simp: bit_of_nat_iff bit_push_bit_iff)
  have atb: "\<not> bit at n" if "12 \<le> n" for n
  proof
    assume b: "bit at n"
    then have "n < 32" using bit_imp_le_length [of at n] by simp
    then have "bit (at AND 0xFFFFF000) n" using b that unfolding M by (simp add: bit_and_iff bit_not_iff bit_mask_iff)
    then show False using assms(3) by simp
  qed
  show "(of_nat pa AND 0xFFFFF000 OR at) AND 0xFFFFF000 = of_nat pa"
    unfolding M by (rule bit_word_eqI) (use atb in \<open>auto simp: bit_and_iff bit_or_iff bit_not_iff bit_mask_iff bits\<close>)
  show "of_nat pa AND 0xFFFFF000 = (of_nat pa :: u32)"
    unfolding M by (rule bit_word_eqI) (auto simp: bit_and_iff bit_not_iff bit_mask_iff bits)
  show "unat (of_nat pa :: u32) = pa" using assms(2) by (simp add: unat_of_nat USIZE_MOD_def)
  show "(of_nat pa AND 0xFFFFF000 OR at) AND 0b11 = at AND 0b11"
    unfolding M by (rule bit_word_eqI) (auto simp: bit_and_iff bit_or_iff bit_not_iff bit_mask_iff bits)
qed

lemma map_page_reads:
  assumes inv: "mmu_inv m" and t: "live_l1 m t" "t \<noteq> l1_base m" and va: "va < USIZE_MOD"
    and mp: "map_page t va pa at m = (True, m')"
  shows "read_l2_entry t va m' = Some ((of_nat pa AND 0xFFFFF000) OR at)" "pt_entry m' t (l1_index va)"
proof -
  note i = l1_index_less [OF va] and lay_ok = mmu_invD(1) [OF inv]
  have "read_l2_entry t va m' = Some ((of_nat pa AND 0xFFFFF000) OR at) \<and> pt_entry m' t (l1_index va)"
    using mp
  proof (cases rule: map_page_cases)
    case present
    have "t + 4 * l1_index va \<noteq> target m t (l1_index va) + 4 * l2_index va"
      by (rule entry_word_not_l1 [OF inv t(1) i present(1) live_is_l1 [OF t(1)] i l2_index_less])
    then show ?thesis
      using present by (simp add: read_l2_entry_def Let_def pt_entry_def target_def)
  next
    case (fresh a m1)
    obtain s where s: "s < L2_POOL_SIZE" "a = l2_table_addr m s" using alloc_l2_SomeE [OF fresh(2)] by blast
    have "t + 4 * l1_index va \<noteq> a + 4 * l2_index va"
      using l1_l2_words_apart [OF lay_ok live_is_l1 [OF t(1)] i s(1) l2_index_less] s(2) by simp
    then show ?thesis
      using fresh(4) l2_table_addr_desc [OF lay_ok s(1)] s(2)
      by (simp add: read_l2_entry_def Let_def pt_entry_def)
  qed simp
  then show "read_l2_entry t va m' = Some ((of_nat pa AND 0xFFFFF000) OR at)" "pt_entry m' t (l1_index va)" by blast+
qed

lemma unmap_page_reads:
  assumes inv: "mmu_inv m" and t: "live_l1 m t" and va: "va < USIZE_MOD"
  shows "read_l2_phys t va (unmap_page t va m) = None"
proof (cases rule: unmap_page_cases [of m t va])
  case present
  have "t + 4 * l1_index va \<noteq> target m t (l1_index va) + 4 * l2_index va"
    by (rule entry_word_not_l1 [OF inv t l1_index_less [OF va] present(1) live_is_l1 [OF t] l1_index_less [OF va] l2_index_less])
  then show ?thesis using present by (simp add: read_l2_phys_def Let_def pt_entry_def target_def)
next
  case emptied
  then show ?thesis by (simp add: read_l2_phys_def Let_def free_l2_table_facts)
next
  case absent
  then show ?thesis by (simp add: read_l2_phys_def Let_def pt_entry_def)
qed

section \<open>Properties\<close>



text \<open>C10: No page is both writable and executable for user code. Whatever protection bits a
  process asks for, the descriptor attributes derived from them deny execution when they grant
  PL0 writes, are always tagged as user pages, and grant PL0 nothing when neither read nor write
  was requested; and the kernel image's own pages are read-only wherever they are executable.\<close>

theorem no_writable_executable_page:
  "(prot_to_l2_flags p AND 0x30 = AP_FULL \<longrightarrow> prot_to_l2_flags p AND XN = XN) \<and>
   (prot_to_l2_flags p AND 0x30 = AP_FULL \<longleftrightarrow> p AND PROT_WRITE \<noteq> 0) \<and>
   (prot_to_l2_flags p AND XN = 0 \<longleftrightarrow> p AND PROT_EXEC \<noteq> 0 \<and> p AND PROT_WRITE = 0) \<and>
   l2_entry_is_user (prot_to_l2_flags p) \<and>
   (p AND PROT_WRITE = 0 \<and> p AND PROT_READ = 0 \<longrightarrow> prot_to_l2_flags p AND 0x30 = AP_KERNEL_ONLY) \<and>
   (wx_page_attrs va ts et er AND XN = 0 \<longrightarrow> wx_page_attrs va ts et er AND push_bit 9 1 \<noteq> 0)"
  by (simp add: prot_to_l2_flags_def Let_def l2_entry_is_user_def wx_page_attrs_def const_defs)

theorem no_writable_executable_page_witness:
  "prot_to_l2_flags (PROT_READ OR PROT_WRITE OR PROT_EXEC) AND XN = XN \<and>
   prot_to_l2_flags (PROT_READ OR PROT_EXEC) AND XN = 0"
  using no_writable_executable_page [of "PROT_READ OR PROT_WRITE OR PROT_EXEC" 0 0 0 0]
    no_writable_executable_page [of "PROT_READ OR PROT_EXEC" 0 0 0 0]
  by (simp add: const_defs)

text \<open>C12: A page that was mapped reads back: after a successful \<open>map_page\<close> the descriptor at the
  virtual address is the frame address with the given attributes and \<open>read_l2_phys\<close> gives the
  frame, whether the second-level table existed or was taken from the pool; after \<open>unmap_page\<close>
  the address has no frame, whether or not the table was given back.\<close>

theorem map_unmap_roundtrip:
  assumes "mmu_reachable m" "live_l1 m t" "t \<noteq> table_base m" "user_window va"
    "map_page t va pa at m = (True, m')" "pa mod PAGE_SIZE = 0" "pa < USIZE_MOD"
    "at AND 0xFFFFF000 = 0" "at AND 0b11 \<noteq> 0"
  shows "read_l2_entry t va m' = Some (of_nat pa OR at) \<and> read_l2_phys t va m' = Some pa \<and>
    read_l2_phys t va (unmap_page t va m') = None"
proof -
  have inv: "mmu_inv m" and va: "va < USIZE_MOD" and t: "t \<noteq> l1_base m"
    using reachable_mmu_inv [OF assms(1)] assms(3,4) by (auto simp: user_window_def table_base_def)
  note r = map_page_reads [OF inv assms(2) t va assms(5)]
  have al: "pa mod 4096 = 0" using assms(6) by (simp only: PAGE_SIZE_val)
  note d = page_desc [OF al assms(7,8)]
  have m': "m' = snd (map_page t va pa at m)" using assms(5) by simp
  have inv': "mmu_inv m'" unfolding m' by (rule map_page_inv [OF inv assms(2) t va])
  have c: "confined t m m'" unfolding m'
    using map_page_confined [OF inv assms(2) va] assms(4) by (simp add: user_window_def)
  have "live_l1 m' t" using assms(2) live_l1_cong [of m m' t] c m' by (simp add: confined_def)
  then have un: "read_l2_phys t va (unmap_page t va m') = None" by (rule unmap_page_reads [OF inv' _ va])
  have "read_l2_phys t va m' = Some pa"
    using r d assms(9) by (auto simp: read_l2_phys_def read_l2_entry_def Let_def pt_entry_def split: if_splits)
  then show ?thesis using r(1) d(2) un by simp
qed

theorem map_unmap_roundtrip_witness:
  "\<exists>m t m'. mmu_reachable m \<and> map_page t 0x80000000 0x40300000 (prot_to_l2_flags PROT_READ) m = (True, m') \<and>
     read_l2_phys t 0x80000000 m' = Some 0x40300000 \<and> read_l2_phys t 0x80000000 (unmap_page t 0x80000000 m') = None"
proof -
  have "find (\<lambda>i. addr_space_alloc boot_mmu AND push_bit i 1 = 0) [0..<USER_TABLE_COUNT] = Some 0"
    by (rule find_first_zero) (simp_all add: boot_mmu mmu_sizes)
  then obtain a m1 where a: "alloc_addr_space boot_mmu = (Some a, m1)" "l2_alloc m1 = 0"
    by (simp add: alloc_addr_space_def boot_mmu)
  note ia = alloc_addr_space_inv [OF boot_mmu(2) a(1)]
  define m2 where "m2 = clone_addr_space (table_base m1) a m1"
  have r2: "mmu_reachable m2" unfolding m2_def by (rule mmu_reachable.new_space [OF boot_mmu(1) a(1)])
  have lay: "same_layout m1 m2" "addr_space_alloc m2 = addr_space_alloc m1" "l2_alloc m2 = 0"
    using a(2) by (simp_all add: m2_def clone_addr_space_def same_layout_def)
  have live: "live_l1 m2 a" "a \<noteq> table_base m2"
    using ia(2,3) live_l1_cong [OF lay(1,2)] same_layout_simps(5) [OF lay(1)] by (auto simp: table_base_def)
  have find: "find (\<lambda>i. l2_alloc m2 AND push_bit i 1 = 0) [0..<L2_POOL_SIZE] = Some 0"
    by (rule find_first_zero) (simp_all add: lay(3) mmu_sizes)
  have idx: "l1_index 0x80000000 = 2048" by (simp add: l1_index_def)
  obtain ok m' where mp: "map_page a 0x80000000 0x40300000 (prot_to_l2_flags PROT_READ) m2 = (ok, m')" by fastforce
  have "ok"
  proof (cases "pt_entry m2 a 2048")
    case True
    then show ?thesis using mp idx by (simp add: map_page_def Let_def pt_entry_def)
  next
    case False
    have "tbl m2 (a + 4 * 2048) = tbl m1 (l1_base m1 + 4 * 2048)"
      unfolding m2_def by (rule clone_kernel_inv(2) [OF ia(1-3)]) simp
    also have "\<dots> = tbl boot_mmu (l1_base boot_mmu + 4 * 2048)"
    proof -
      have "same_layout boot_mmu m1" using alloc_addr_space_SomeE [OF a(1)] by blast
      then have "l1_base m1 = l1_base boot_mmu" by (simp add: same_layout_def)
      then show ?thesis using ia(7) [of "l1_base boot_mmu" 2048] by (simp add: live_l1_def)
    qed
    also have "\<dots> = 0"
      using init_and_enable_l1(6) [OF mmu_statics_layout, of 2048] boot_mmu(3) by (simp add: boot_mmu_def same_layout_def)
    finally show ?thesis using mp idx find by (simp add: map_page_def Let_def alloc_l2_table_def split: if_splits)
  qed
  then show ?thesis
    using map_unmap_roundtrip [OF r2 live, of "0x80000000" "0x40300000" "prot_to_l2_flags PROT_READ" m'] mp r2
    by (auto simp: user_window_iff const_defs prot_to_l2_flags_def)
qed

end
