(* ===== verification/Memguard.thy ===== *)
theory Memguard
  imports Mmu
begin

text \<open>
  \<open>memguard.rs\<close>: validation of user buffers against the caller's page table, and the
  byte transfers that run with PL0 permissions (\<open>ldrbt\<close>, \<open>strbt\<close>). The hardware translation
  the transfers go through is \<open>pl0_translate\<close>, a walk of the table in \<open>ttbr0\<close> with the
  short-descriptor permission bits; an access it refuses is the data abort that
  \<open>fault_fixup_pc\<close> turns into an error result.
\<close>

section \<open>Model\<close>

datatype user_access_error = UserAccessError

datatype access = Read | Write

definition AP_MASK :: u32 where "AP_MASK = 0x30"
definition APX_BIT :: u32 where "APX_BIT = 0x200"

lemmas memguard_consts [const_defs] = AP_MASK_def APX_BIT_def

definition validate_user_buffer :: "usize \<Rightarrow> usize \<Rightarrow> bool" where
  "validate_user_buffer ptr len =
    (if ptr = 0 then False
     else if len = 0 then True
     else case checked_add ptr len of
            None \<Rightarrow> False
          | Some end \<Rightarrow> KERNEL_END \<le> ptr \<and> end \<le> RAM_END)"

definition is_freeable_user_page :: "usize \<Rightarrow> bool" where
  "is_freeable_user_page addr \<longleftrightarrow> addr mod PAGE_SIZE = 0 \<and> KERNEL_END \<le> addr \<and> addr < RAM_END"

definition pl0_grants :: "u32 \<Rightarrow> access \<Rightarrow> bool" where
  "pl0_grants entry acc =
    (if \<not> l2_entry_is_user entry then False
     else let ap = entry AND AP_MASK in
       (case acc of
          Read \<Rightarrow> ap = AP_READ_ONLY \<or> ap = AP_FULL
        | Write \<Rightarrow> ap = AP_FULL \<and> entry AND APX_BIT = 0))"

function grants_from :: "usize \<Rightarrow> usize \<Rightarrow> access \<Rightarrow> (usize \<Rightarrow> u32 option) \<Rightarrow> bool" where
  "grants_from page end acc read_desc =
    (if page < end then
       (case read_desc page of
          None \<Rightarrow> False
        | Some entry \<Rightarrow>
            if \<not> pl0_grants entry acc then False
            else (case checked_add page PAGE_SIZE of
                    None \<Rightarrow> False
                  | Some next_page \<Rightarrow> grants_from next_page end acc read_desc))
     else True)"
  by pat_completeness auto
termination
  by (relation "measure (\<lambda>(page, end, _, _). end - page)") (auto simp: checked_add_def PAGE_SIZE_def split: if_splits)

declare grants_from.simps [simp del]

definition range_grants :: "usize \<Rightarrow> usize \<Rightarrow> access \<Rightarrow> (usize \<Rightarrow> u32 option) \<Rightarrow> bool" where
  "range_grants ptr len acc read_desc =
    (if len = 0 then True
     else case checked_add ptr len of
            None \<Rightarrow> False
          | Some end \<Rightarrow> grants_from (ptr - ptr mod PAGE_SIZE) end acc read_desc)"

definition range_is_well_formed :: "usize \<Rightarrow> usize \<Rightarrow> bool" where
  "range_is_well_formed ptr len \<longleftrightarrow> ptr \<noteq> 0 \<and> checked_add ptr len \<noteq> None"

definition validate_user_range_with :: "usize \<Rightarrow> usize \<Rightarrow> access \<Rightarrow> (usize \<Rightarrow> u32 option) option \<Rightarrow> bool" where
  "validate_user_range_with ptr len acc read_desc =
    (if \<not> range_is_well_formed ptr len then False
     else case read_desc of
            Some rd \<Rightarrow> range_grants ptr len acc rd
          | None \<Rightarrow> validate_user_buffer ptr len)"

text \<open>\<open>user_l1\<close> is the value of \<open>process::current_user_page_table()\<close>.\<close>

definition validate_user_range :: "usize option \<Rightarrow> usize \<Rightarrow> usize \<Rightarrow> access \<Rightarrow> mmu_state \<Rightarrow> bool" where
  "validate_user_range user_l1 ptr len acc m =
    (case user_l1 of
       None \<Rightarrow> validate_user_range_with ptr len acc None
     | Some l1 \<Rightarrow> validate_user_range_with ptr len acc (Some (\<lambda>va. read_l2_entry l1 va m)))"

text \<open>The translation of an unprivileged access: descriptor type from the low bits, \<open>AP[1:0]\<close> and
  \<open>APX\<close> at bits 5:4 and 9 of a small page and at bits 11:10 and 15 of a section.\<close>

definition ap_permits :: "bool \<Rightarrow> u32 \<Rightarrow> access \<Rightarrow> bool" where
  "ap_permits apx ap acc =
    (case acc of
       Read \<Rightarrow> ap = 0b10 \<or> ap = 0b11
     | Write \<Rightarrow> ap = 0b11 \<and> \<not> apx)"

definition pl0_translate :: "mmu_state \<Rightarrow> access \<Rightarrow> usize \<Rightarrow> usize option" where
  "pl0_translate m acc va =
    (let l1 = tbl m (ttbr0 m + 4 * l1_index va);
         l2 = tbl m (l2_of l1 + 4 * l2_index va)
     in if l1 AND 0b11 = L1_PAGE_TABLE then
          (if bit l2 1 \<and> ap_permits (bit l2 9) (drop_bit 4 l2 AND 0b11) acc
           then Some (unat (l2 AND 0xFFFFF000) + va mod 4096) else None)
        else if l1 AND 0b11 = SECTION then
          (if ap_permits (bit l1 15) (drop_bit 10 l1 AND 0b11) acc
           then Some (unat (l1 AND 0xFFF00000) + va mod 1048576) else None)
        else None)"

text \<open>The two transfer loops. A store that aborts leaves the bytes before it written.\<close>

fun thumos_copy_from_user :: "mmu_state \<Rightarrow> mem \<Rightarrow> usize \<Rightarrow> nat \<Rightarrow> u8 list option" where
  "thumos_copy_from_user m ram src 0 = Some []"
| "thumos_copy_from_user m ram src (Suc n) =
    (case pl0_translate m Read src of
       None \<Rightarrow> None
     | Some pa \<Rightarrow> map_option (Cons (ram pa)) (thumos_copy_from_user m ram (uadd src 1) n))"

fun thumos_copy_to_user :: "mmu_state \<Rightarrow> usize \<Rightarrow> u8 list \<Rightarrow> mem \<Rightarrow> bool \<times> mem" where
  "thumos_copy_to_user m dst [] ram = (True, ram)"
| "thumos_copy_to_user m dst (b # bs) ram =
    (case pl0_translate m Write dst of
       None \<Rightarrow> (False, ram)
     | Some pa \<Rightarrow> thumos_copy_to_user m (uadd dst 1) bs (ram(pa := b)))"

definition copy_from_user :: "usize option \<Rightarrow> mmu_state \<Rightarrow> mem \<Rightarrow> usize \<Rightarrow> nat \<Rightarrow> user_access_error + u8 list" where
  "copy_from_user user_l1 m ram src len =
    (if \<not> validate_user_range user_l1 src len Read m then Inl UserAccessError
     else case thumos_copy_from_user m ram src len of
            None \<Rightarrow> Inl UserAccessError
          | Some bytes \<Rightarrow> Inr bytes)"

definition copy_to_user :: "usize option \<Rightarrow> mmu_state \<Rightarrow> usize \<Rightarrow> u8 list \<Rightarrow> mem \<Rightarrow> (user_access_error + unit) \<times> mem" where
  "copy_to_user user_l1 m dst src ram =
    (if \<not> validate_user_range user_l1 dst (length src) Write m then (Inl UserAccessError, ram)
     else case thumos_copy_to_user m dst src ram of
            (True, ram1) \<Rightarrow> (Inr (), ram1)
          | (False, ram1) \<Rightarrow> (Inl UserAccessError, ram1))"

section \<open>What validation checks\<close>

lemma page_base_eq:
  fixes page va :: nat
  assumes "page mod 4096 = 0" "page \<le> va" "va < page + 4096"
  shows "va - va mod 4096 = page"
proof -
  obtain k where k: "page = 4096 * k" using assms(1) by auto
  then have "va div 4096 = k" using assms(2,3) by (intro div_nat_eqI) auto
  then show ?thesis using k by (simp add: minus_mod_eq_mult_div)
qed

lemma grants_from_iff:
  "page mod 4096 = 0 \<Longrightarrow> page < end \<Longrightarrow> grants_from page end acc rd \<longleftrightarrow>
    end \<le> 0xFFFFF000 \<and> (\<forall>va. page \<le> va \<and> va < end \<longrightarrow> (\<exists>e. rd (va - va mod 4096) = Some e \<and> pl0_grants e acc))"
proof (induction page "end" acc rd rule: grants_from.induct)
  case (1 page "end" acc rd)
  have first: "va - va mod 4096 = page" if "page \<le> va" "va < page + 4096" for va
    using page_base_eq [OF 1(2) that] .
  show ?case
  proof (cases "\<exists>e. rd page = Some e \<and> pl0_grants e acc")
    case False
    then have "\<not> grants_from page end acc rd"
      using 1(3) by (subst grants_from.simps) (auto split: option.splits)
    moreover have "page - page mod 4096 = page" using 1(2) by simp
    ultimately show ?thesis using False 1(3) by (metis order_refl)
  next
    case True
    then obtain e where e: "rd page = Some e" "pl0_grants e acc" by blast
    have unfold: "grants_from page end acc rd \<longleftrightarrow> page + 4096 < USIZE_MOD \<and> grants_from (page + 4096) end acc rd"
      using 1(3) e by (subst grants_from.simps) (auto simp: checked_add_def PAGE_SIZE_def)
    show ?thesis
    proof (cases "page + 4096 < end")
      case more: True
      show ?thesis
      proof (cases "page + 4096 < USIZE_MOD")
        case fits: True
        have "grants_from (page + 4096) end acc rd \<longleftrightarrow> end \<le> 0xFFFFF000 \<and>
            (\<forall>va. page + 4096 \<le> va \<and> va < end \<longrightarrow> (\<exists>e. rd (va - va mod 4096) = Some e \<and> pl0_grants e acc))"
          using 1(1) [OF 1(3) e(1), of "page + 4096"] e(2) fits more 1(2) by (simp add: checked_add_def PAGE_SIZE_def)
        moreover have "\<exists>e. rd (va - va mod 4096) = Some e \<and> pl0_grants e acc" if "page \<le> va" "\<not> page + 4096 \<le> va" for va
          using first [of va] that e by simp
        ultimately show ?thesis using unfold fits by (meson add_leD1)
      next
        case False
        then show ?thesis using unfold more by (simp add: USIZE_MOD_def)
      qed
    next
      case False
      then have "grants_from (page + 4096) end acc rd" by (subst grants_from.simps) simp
      moreover have "\<exists>e. rd (va - va mod 4096) = Some e \<and> pl0_grants e acc" if "page \<le> va" "va < end" for va
        using first [of va] that False e by simp
      moreover have "page + 4096 < USIZE_MOD \<longleftrightarrow> end \<le> 0xFFFFF000"
      proof -
        obtain k where k: "page = 4096 * k" using 1(2) by auto
        have "page + 4096 < USIZE_MOD \<longleftrightarrow> k < 1048575" unfolding k USIZE_MOD_def by auto
        then show ?thesis using False 1(3) k by linarith
      qed
      ultimately show ?thesis using unfold by blast
    qed
  qed
qed

lemma page_base_between: "ptr - ptr mod 4096 \<le> va \<Longrightarrow> va < ptr \<Longrightarrow> va - va mod 4096 = ptr - ptr mod (4096 :: nat)"
proof (rule page_base_eq)
  have "ptr mod 4096 < 4096" "ptr mod 4096 \<le> ptr" by simp_all
  then show "va < ptr - ptr mod 4096 + 4096" if "va < ptr" using that by linarith
qed (simp_all add: minus_mod_eq_mult_div)

lemma range_grants_iff:
  "range_grants ptr len acc rd \<longleftrightarrow> len = 0 \<or>
    ptr + len \<le> 0xFFFFF000 \<and> (\<forall>va. ptr \<le> va \<and> va < ptr + len \<longrightarrow> (\<exists>e. rd (va - va mod 4096) = Some e \<and> pl0_grants e acc))"
proof (cases "len = 0 \<or> USIZE_MOD \<le> ptr + len")
  case True
  then show ?thesis by (auto simp: range_grants_def checked_add_def USIZE_MOD_def)
next
  case False
  let ?P = "\<lambda>va. \<exists>e. rd (va - va mod 4096) = Some e \<and> pl0_grants e acc"
  have "range_grants ptr len acc rd = grants_from (ptr - ptr mod 4096) (ptr + len) acc rd"
    using False by (simp add: range_grants_def checked_add_def PAGE_SIZE_def)
  also have "\<dots> \<longleftrightarrow> ptr + len \<le> 0xFFFFF000 \<and> (\<forall>va. ptr - ptr mod 4096 \<le> va \<and> va < ptr + len \<longrightarrow> ?P va)"
    by (rule grants_from_iff) (use False in \<open>auto simp: minus_mod_eq_mult_div\<close>)
  also have "(\<forall>va. ptr - ptr mod 4096 \<le> va \<and> va < ptr + len \<longrightarrow> ?P va) \<longleftrightarrow> (\<forall>va. ptr \<le> va \<and> va < ptr + len \<longrightarrow> ?P va)"
  proof (intro iffI allI impI)
    fix va assume a: "\<forall>va. ptr \<le> va \<and> va < ptr + len \<longrightarrow> ?P va" "ptr - ptr mod 4096 \<le> va \<and> va < ptr + len"
    show "?P va"
    proof (cases "ptr \<le> va")
      case False
      then have "?P ptr" "va - va mod 4096 = ptr - ptr mod 4096" using a \<open>\<not> (len = 0 \<or> _)\<close> page_base_between [of ptr va] by auto
      then show ?thesis by simp
    qed (use a in blast)
  next
    fix va assume "\<forall>va. ptr - ptr mod 4096 \<le> va \<and> va < ptr + len \<longrightarrow> ?P va" "ptr \<le> va \<and> va < ptr + len"
    then show "?P va" by (meson diff_le_self le_trans)
  qed
  finally show ?thesis using False by simp
qed

section \<open>A validated transfer does not abort\<close>

lemma ap_bits: "drop_bit 4 (e :: u32) AND 0b11 = drop_bit 4 (e AND AP_MASK)"
proof -
  have "drop_bit 4 AP_MASK = (0b11 :: u32)" by (simp add: AP_MASK_def)
  then show ?thesis by (simp only: drop_bit_and)
qed

lemma pl0_grants_permits:
  assumes "pl0_grants e acc"
  shows "bit e 1" "ap_permits (bit e 9) (drop_bit 4 e AND 0b11) acc"
proof -
  have b: "e AND SMALL_PAGE = 0 \<longleftrightarrow> \<not> bit e 1" "e AND APX_BIT = 0 \<longleftrightarrow> \<not> bit e 9"
    using mask_bit_test [where w = e and n = 1] mask_bit_test [where w = e and n = 9] by (simp_all add: const_defs)
  show "bit e 1" using assms b(1) by (simp add: pl0_grants_def l2_entry_is_user_def split: if_splits)
  show "ap_permits (bit e 9) (drop_bit 4 e AND 0b11) acc"
    using assms b(2) unfolding ap_bits
    by (cases acc) (auto simp: pl0_grants_def ap_permits_def Let_def AP_READ_ONLY_def AP_FULL_def simp del: drop_bit_and split: if_splits)
qed

lemma pl0_grants_mono: "pl0_grants e Write \<Longrightarrow> pl0_grants e Read"
  by (simp add: pl0_grants_def Let_def split: if_splits)

lemma page_indices:
  "l1_index (va - va mod 4096) = l1_index va" "l2_index (va - va mod 4096) = l2_index va"
proof -
  have "(va - va mod 4096) div 4096 = va div 4096" by (simp add: minus_mod_eq_mult_div)
  moreover have "x div 1048576 = x div 4096 div 256" for x :: nat by (simp add: div_mult2_eq [symmetric])
  ultimately show "l1_index (va - va mod 4096) = l1_index va" "l2_index (va - va mod 4096) = l2_index va"
    by (simp_all add: l1_index_def l2_index_def)
qed

lemma granted_translates:
  assumes "read_l2_entry (ttbr0 m) (va - va mod 4096) m = Some e" "pl0_grants e acc"
  shows "pl0_translate m acc va = Some (unat (e AND 0xFFFFF000) + va mod 4096)"
  using assms(1) pl0_grants_permits [OF assms(2)]
  by (auto simp: pl0_translate_def read_l2_entry_def Let_def page_indices split: if_splits)

definition user_ok :: "mmu_state \<Rightarrow> access \<Rightarrow> usize \<Rightarrow> nat \<Rightarrow> bool" where
  "user_ok m acc ptr len \<longleftrightarrow> ptr + len < USIZE_MOD \<and> (\<forall>va. ptr \<le> va \<and> va < ptr + len \<longrightarrow> pl0_translate m acc va \<noteq> None)"

lemma validated_user_ok:
  assumes "validate_user_range (Some (ttbr0 m)) ptr len acc m"
  shows "user_ok m acc ptr len"
proof -
  have "ptr + len < USIZE_MOD" and
    r: "range_grants ptr len acc (\<lambda>va. read_l2_entry (ttbr0 m) va m)"
    using assms by (auto simp: validate_user_range_def validate_user_range_with_def range_is_well_formed_def
        checked_add_def split: if_splits)
  moreover have "pl0_translate m acc va \<noteq> None" if "ptr \<le> va" "va < ptr + len" for va
    using r that granted_translates [of m va _ acc] unfolding range_grants_iff by fastforce
  ultimately show ?thesis by (simp add: user_ok_def)
qed

lemma validate_write_read:
  "validate_user_range u ptr len Write m \<Longrightarrow> validate_user_range u ptr len Read m"
  using pl0_grants_mono
  by (auto simp: validate_user_range_def validate_user_range_with_def range_grants_iff split: option.splits if_splits)

lemma user_ok_Suc:
  assumes "user_ok m acc ptr (Suc n)"
  obtains pa where "pl0_translate m acc ptr = Some pa" "uadd ptr 1 = Suc ptr" "user_ok m acc (Suc ptr) n"
proof -
  have "pl0_translate m acc ptr \<noteq> None" "uadd ptr 1 = Suc ptr" "user_ok m acc (Suc ptr) n"
    using assms by (auto simp: user_ok_def uadd_def USIZE_MOD_def)
  then show thesis using that by blast
qed

lemma copy_from_user_ok:
  "user_ok m Read ptr n \<Longrightarrow>
    thumos_copy_from_user m ram ptr n = Some (map (\<lambda>va. ram (the (pl0_translate m Read va))) [ptr..<ptr + n])"
proof (induction n arbitrary: ptr)
  case (Suc n)
  obtain pa where "pl0_translate m Read ptr = Some pa" "uadd ptr 1 = Suc ptr" "user_ok m Read (Suc ptr) n"
    using Suc.prems by (rule user_ok_Suc)
  then show ?case using Suc.IH [of "Suc ptr"] upt_conv_Cons [of ptr "ptr + Suc n"] by simp
qed simp

lemma copy_to_user_ok:
  "user_ok m Write ptr (length src) \<Longrightarrow>
    \<exists>ram'. thumos_copy_to_user m ptr src ram = (True, ram') \<and>
      (\<forall>pa. Some pa \<notin> pl0_translate m Write ` {ptr..<ptr + length src} \<longrightarrow> ram' pa = ram pa) \<and>
      (inj_on (pl0_translate m Write) {ptr..<ptr + length src} \<longrightarrow>
        map (\<lambda>va. ram' (the (pl0_translate m Write va))) [ptr..<ptr + length src] = src)"
proof (induction src arbitrary: ptr ram)
  case (Cons b bs)
  from Cons.prems have "user_ok m Write ptr (Suc (length bs))" by simp
  then obtain pa where pa: "pl0_translate m Write ptr = Some pa" "uadd ptr 1 = Suc ptr" "user_ok m Write (Suc ptr) (length bs)"
    by (rule user_ok_Suc)
  obtain ram' where ram': "thumos_copy_to_user m (Suc ptr) bs (ram(pa := b)) = (True, ram')"
    "\<And>q. Some q \<notin> pl0_translate m Write ` {Suc ptr..<Suc ptr + length bs} \<Longrightarrow> ram' q = (ram(pa := b)) q"
    "inj_on (pl0_translate m Write) {Suc ptr..<Suc ptr + length bs} \<Longrightarrow>
        map (\<lambda>va. ram' (the (pl0_translate m Write va))) [Suc ptr..<Suc ptr + length bs] = bs"
    using Cons.IH [OF pa(3), of "ram(pa := b)"] by blast
  have split: "{ptr..<ptr + length (b # bs)} = insert ptr {Suc ptr..<Suc ptr + length bs}" by auto
  have upt: "[ptr..<ptr + length (b # bs)] = ptr # [Suc ptr..<Suc ptr + length bs]"
    using upt_conv_Cons [of ptr "ptr + Suc (length bs)"] by simp
  show ?case
  proof (intro exI conjI allI impI)
    show "thumos_copy_to_user m ptr (b # bs) ram = (True, ram')" using pa ram'(1) by simp
  next
    fix q assume "Some q \<notin> pl0_translate m Write ` {ptr..<ptr + length (b # bs)}"
    then show "ram' q = ram q" using ram'(2) [of q] pa(1) unfolding split by auto
  next
    assume inj: "inj_on (pl0_translate m Write) {ptr..<ptr + length (b # bs)}"
    then have inj': "inj_on (pl0_translate m Write) {Suc ptr..<Suc ptr + length bs}"
      and new: "pl0_translate m Write ptr \<notin> pl0_translate m Write ` {Suc ptr..<Suc ptr + length bs}"
      unfolding split by (auto simp: inj_on_def)
    have "ram' pa = b" using ram'(2) [of pa] new pa(1) by simp
    then show "map (\<lambda>va. ram' (the (pl0_translate m Write va))) [ptr..<ptr + length (b # bs)] = b # bs"
      unfolding upt using ram'(3) [OF inj'] pa(1) by simp
  qed
qed simp

lemma translate_write_read: "pl0_translate m Write va = Some pa \<Longrightarrow> pl0_translate m Read va = Some pa"
  by (auto simp: pl0_translate_def Let_def ap_permits_def split: if_splits)

lemma user_copy_rt:
  assumes "validate_user_range (Some (ttbr0 m)) ptr (length src) Write m"
    and "inj_on (pl0_translate m Write) {ptr..<ptr + length src}"
  shows "\<exists>ram'. copy_to_user (Some (ttbr0 m)) m ptr src ram = (Inr (), ram') \<and>
    copy_from_user (Some (ttbr0 m)) m ram' ptr (length src) = Inr src \<and>
    (\<forall>pa. ram' pa \<noteq> ram pa \<longrightarrow> (\<exists>va. ptr \<le> va \<and> va < ptr + length src \<and> pl0_translate m Write va = Some pa))"
proof -
  have w: "user_ok m Write ptr (length src)" using validated_user_ok [OF assms(1)] .
  have rd: "validate_user_range (Some (ttbr0 m)) ptr (length src) Read m" using validate_write_read [OF assms(1)] .
  obtain ram' where ram': "thumos_copy_to_user m ptr src ram = (True, ram')"
    "\<And>pa. Some pa \<notin> pl0_translate m Write ` {ptr..<ptr + length src} \<Longrightarrow> ram' pa = ram pa"
    "map (\<lambda>va. ram' (the (pl0_translate m Write va))) [ptr..<ptr + length src] = src"
    using copy_to_user_ok [OF w, of ram] assms(2) by blast
  have "map (\<lambda>va. ram' (the (pl0_translate m Read va))) [ptr..<ptr + length src] =
      map (\<lambda>va. ram' (the (pl0_translate m Write va))) [ptr..<ptr + length src]"
    using w translate_write_read [of m] by (auto simp: user_ok_def)
  then have "thumos_copy_from_user m ram' ptr (length src) = Some src"
    using copy_from_user_ok [OF validated_user_ok [OF rd], of ram'] ram'(3) by simp
  moreover have "\<exists>va. ptr \<le> va \<and> va < ptr + length src \<and> pl0_translate m Write va = Some pa" if "ram' pa \<noteq> ram pa" for pa
  proof -
    have "Some pa \<in> pl0_translate m Write ` {ptr..<ptr + length src}" using ram'(2) [of pa] that by blast
    then show ?thesis by (auto dest: sym)
  qed
  ultimately show ?thesis using ram'(1) assms(1) rd by (simp add: copy_to_user_def copy_from_user_def)
qed

section \<open>Properties\<close>

text \<open>C5: Validation against a live address space is exact: a non-empty range is accepted if and
  only if it is non-null, ends below the last page of the address space, and every byte of it lies
  on a page that is user-owned and grants the requested direction in the caller's own table. No
  page at either end is skipped.\<close>

theorem validate_user_range_exact:
  "validate_user_range (Some l1) ptr len acc m \<longleftrightarrow>
    ptr \<noteq> 0 \<and> ptr + len < USIZE_MOD \<and>
    (len = 0 \<or> ptr + len \<le> 0xFFFFF000 \<and>
      (\<forall>va. ptr \<le> va \<and> va < ptr + len \<longrightarrow>
        (\<exists>e. read_l2_entry l1 (va - va mod PAGE_SIZE) m = Some e \<and> pl0_grants e acc)))"
  by (auto simp: validate_user_range_def validate_user_range_with_def range_is_well_formed_def
      range_grants_iff checked_add_def PAGE_SIZE_val)

theorem validate_user_range_exact_witness:
  "\<not> validate_user_range (Some 0x40140000) 0xFFFFF000 1 Read mmu_statics \<and>
   validate_user_range (Some 0x40140000) 0x1000 0 Write mmu_statics"
  by (simp add: validate_user_range_exact USIZE_MOD_def)


definition one_page :: mmu_state where
  "one_page = mmu_statics\<lparr>ttbr0 := 0x40140000,
     tbl := (\<lambda>_. 0)(0x40140800 := 0x40120001, 0x40120000 := 0x40300000 OR prot_to_l2_flags (PROT_READ OR PROT_WRITE))\<rparr>"

lemma one_page:
  assumes "0x20000000 \<le> va" "va < 0x20001000"
  shows "read_l2_entry (ttbr0 one_page) (va - va mod 4096) one_page = Some (0x40300000 OR prot_to_l2_flags (PROT_READ OR PROT_WRITE))"
    "pl0_grants (0x40300000 OR prot_to_l2_flags (PROT_READ OR PROT_WRITE)) Write"
    "pl0_translate one_page Write va = Some (0x40300000 + va mod 4096)" "va - va mod 4096 = 0x20000000"
proof -
  have "va div 4096 = 131072" using assms by (intro div_nat_eqI) simp_all
  then show page: "va - va mod 4096 = 0x20000000"
    by (simp add: minus_mod_eq_mult_div)
  show r: "read_l2_entry (ttbr0 one_page) (va - va mod 4096) one_page = Some (0x40300000 OR prot_to_l2_flags (PROT_READ OR PROT_WRITE))"
    unfolding page by (simp add: read_l2_entry_def one_page_def l1_index_def l2_index_def l2_of_def L1_PAGE_TABLE_def)
  show g: "pl0_grants (0x40300000 OR prot_to_l2_flags (PROT_READ OR PROT_WRITE)) Write"
    by (simp add: pl0_grants_def l2_entry_is_user_def prot_to_l2_flags_def const_defs)
  show "pl0_translate one_page Write va = Some (0x40300000 + va mod 4096)"
    using granted_translates [OF r g] by (simp add: prot_to_l2_flags_def const_defs)
qed

lemma one_page_range:
  assumes "0x20000000 \<le> ptr" "ptr + len \<le> 0x20001000"
  shows "validate_user_range (Some (ttbr0 one_page)) ptr len Write one_page"
    "inj_on (pl0_translate one_page Write) {ptr..<ptr + len}"
proof -
  have in_page: "0x20000000 \<le> va \<and> va < 0x20001000" if "ptr \<le> va" "va < ptr + len" for va
    using assms that by simp
  show "validate_user_range (Some (ttbr0 one_page)) ptr len Write one_page"
    unfolding validate_user_range_def validate_user_range_with_def
    using one_page in_page assms by (auto simp: range_is_well_formed_def range_grants_iff checked_add_def USIZE_MOD_def)
  show "inj_on (pl0_translate one_page Write) {ptr..<ptr + len}"
  proof (rule inj_onI)
    fix x y
    assume "x \<in> {ptr..<ptr + len}" "y \<in> {ptr..<ptr + len}" and eq: "pl0_translate one_page Write x = pl0_translate one_page Write y"
    then have x: "0x20000000 \<le> x" "x < 0x20001000" and y: "0x20000000 \<le> y" "y < 0x20001000" using in_page by auto
    have "x mod 4096 = y mod 4096" using eq one_page(3) [OF x] one_page(3) [OF y] by simp
    moreover have "x - x mod 4096 = y - y mod 4096" using one_page(4) [OF x] one_page(4) [OF y] by simp
    ultimately show "x = y" by (metis mod_less_eq_dividend le_add_diff_inverse2)
  qed
qed


end
