(* ===== verification/Fd.thy ===== *)
theory Fd
  imports Pipe
begin

text \<open>
  The two-level descriptor model of \<open>fd.rs\<close>: per-process tables of entries (\<open>FdTable\<close>), and the
  system-wide table of open-file descriptions (\<open>OFD_TABLE\<close>) with reference counts. \<open>files\<close> holds
  the statics the tables share: the descriptions, the pipe pool, the socket table and the list of
  socket handles given back to the network stack. Operations on the current process take its
  table as an option: \<open>None\<close> is a missing process, for which \<open>with_current_fds\<close> gives \<open>None\<close>.
\<close>

section \<open>Data\<close>

definition MAX_FDS :: nat where "MAX_FDS = 256"
definition MAX_OFDS :: nat where "MAX_OFDS = 256"
definition F_DUPFD :: u32 where "F_DUPFD = 0"
definition F_GETFD :: u32 where "F_GETFD = 1"
definition F_SETFD :: u32 where "F_SETFD = 2"
definition F_GETFL :: u32 where "F_GETFL = 3"
definition F_SETFL :: u32 where "F_SETFL = 4"
definition FD_CLOEXEC :: u32 where "FD_CLOEXEC = 1"
definition O_APPEND :: u32 where "O_APPEND = 0x400"
definition O_CLOEXEC :: u32 where "O_CLOEXEC = 0x80000"
definition FD_KIND_SOCKET :: u32 where "FD_KIND_SOCKET = 0x0002"

lemmas fd_consts [const_defs] = F_DUPFD_def F_GETFD_def F_SETFD_def F_GETFL_def F_SETFL_def
  FD_CLOEXEC_def O_APPEND_def O_CLOEXEC_def FD_KIND_SOCKET_def

lemma fd_sizes [const_defs]: "MAX_FDS = 256" "MAX_OFDS = 256" "MAX_PIPES = 8"
  by (simp_all add: MAX_FDS_def MAX_OFDS_def MAX_PIPES_def)

record file_descriptor =
  mount_idx :: nat
  inode_id :: u32
  offset :: usize
  flags :: u32

definition from_vfs :: "nat \<Rightarrow> u32 \<Rightarrow> u32 \<Rightarrow> file_descriptor" where
  "from_vfs mount inode fl = \<lparr>mount_idx = mount, inode_id = inode, offset = 0, flags = fl\<rparr>"

definition file_descriptor_new :: "u32 \<Rightarrow> file_descriptor" where
  "file_descriptor_new fl = \<lparr>mount_idx = 0, inode_id = 0, offset = 0, flags = fl\<rparr>"

record fd_entry =
  ofd :: nat
  cloexec :: bool

type_synonym fd_table = "fd_entry option list"

record open_file =
  desc :: file_descriptor
  refs :: nat

datatype socket_type = Tcp | Udp

record socket_info =
  socket_handle :: nat
  socket_type :: socket_type
  bound_port :: u16
  connected :: bool
  peer_addr :: "(u32 \<times> u16) option"

record files =
  ofd_table :: "open_file option list"
  pipe_pool :: "pipe_buffer option list"
  socket_table :: "socket_info option list"
  network_up :: bool
  removed_sockets :: "nat list"

section \<open>The per-process table\<close>

definition fd_table_new :: fd_table where
  "fd_table_new = replicate MAX_FDS None"

definition fd_alloc :: "fd_entry \<Rightarrow> fd_table \<Rightarrow> nat option \<times> fd_table" where
  "fd_alloc entry t =
    (case find_index Option.is_none t of
       None \<Rightarrow> (None, t)
     | Some i \<Rightarrow> (Some i, t[i := Some entry]))"

definition fd_alloc_at :: "nat \<Rightarrow> fd_entry \<Rightarrow> fd_table \<Rightarrow> bool \<times> fd_table" where
  "fd_alloc_at index entry t = (if MAX_FDS \<le> index then (False, t) else (True, t[index := Some entry]))"

definition fd_alloc_from :: "nat \<Rightarrow> fd_entry \<Rightarrow> fd_table \<Rightarrow> nat option \<times> fd_table" where
  "fd_alloc_from min_fd entry t =
    (if MAX_FDS \<le> min_fd then (None, t)
     else case find_index Option.is_none (drop min_fd t) of
       None \<Rightarrow> (None, t)
     | Some i \<Rightarrow> (Some (min_fd + i), t[min_fd + i := Some entry]))"

definition fd_get :: "nat \<Rightarrow> fd_table \<Rightarrow> fd_entry option" where
  "fd_get index t = (if MAX_FDS \<le> index then None else t ! index)"

definition fd_take :: "nat \<Rightarrow> fd_table \<Rightarrow> fd_entry option \<times> fd_table" where
  "fd_take index t = (if MAX_FDS \<le> index then (None, t) else (t ! index, t[index := None]))"

section \<open>Open-file descriptions\<close>

definition is_socket_fd :: "u32 \<Rightarrow> bool" where
  "is_socket_fd fl \<longleftrightarrow> fl AND FD_KIND_MASK = FD_KIND_SOCKET"

definition on_socket_fd_closed :: "nat \<Rightarrow> files \<Rightarrow> files" where
  "on_socket_fd_closed ofd_idx fs =
    (case socket_table fs ! ofd_idx of
       None \<Rightarrow> fs
     | Some info \<Rightarrow>
        (let fs = fs\<lparr>socket_table := (socket_table fs)[ofd_idx := None]\<rparr> in
         if network_up fs then fs\<lparr>removed_sockets := removed_sockets fs @ [socket_handle info]\<rparr> else fs))"

definition ofd_alloc :: "file_descriptor \<Rightarrow> files \<Rightarrow> nat option \<times> files" where
  "ofd_alloc d fs =
    (case find_index Option.is_none (ofd_table fs) of
       None \<Rightarrow> (None, fs)
     | Some i \<Rightarrow> (Some i, fs\<lparr>ofd_table := (ofd_table fs)[i := Some \<lparr>desc = d, refs = 1\<rparr>]\<rparr>))"

definition ofd_get :: "nat \<Rightarrow> files \<Rightarrow> open_file option" where
  "ofd_get idx fs = (if idx < length (ofd_table fs) then ofd_table fs ! idx else None)"

definition ofd_ref :: "nat \<Rightarrow> files \<Rightarrow> files" where
  "ofd_ref idx fs =
    (case ofd_get idx fs of
       None \<Rightarrow> fs
     | Some d \<Rightarrow> fs\<lparr>ofd_table := (ofd_table fs)[idx := Some (d\<lparr>refs := saturating_add (refs d) 1\<rparr>)]\<rparr>)"

definition close_description :: "nat \<Rightarrow> u32 \<Rightarrow> files \<Rightarrow> files" where
  "close_description idx fl fs =
    (let fs = (if is_pipe_fd fl
               then fs\<lparr>pipe_pool := on_pipe_fd_closed (pipe_idx_from_flags fl) (is_write_end fl) (pipe_pool fs)\<rparr>
               else fs)
     in if is_socket_fd fl then on_socket_fd_closed idx fs else fs)"

definition ofd_unref :: "nat \<Rightarrow> files \<Rightarrow> files" where
  "ofd_unref idx fs =
    (case ofd_get idx fs of
       None \<Rightarrow> fs
     | Some d \<Rightarrow>
        (let d = d\<lparr>refs := refs d - 1\<rparr> in
         if refs d = 0
         then close_description idx (flags (desc d)) (fs\<lparr>ofd_table := (ofd_table fs)[idx := None]\<rparr>)
         else fs\<lparr>ofd_table := (ofd_table fs)[idx := Some d]\<rparr>))"

definition install_current_fd :: "nat \<Rightarrow> fd_table option \<Rightarrow> nat option \<times> fd_table option" where
  "install_current_fd idx cur =
    (case cur of
       None \<Rightarrow> (None, None)
     | Some t \<Rightarrow> (let (r, t) = fd_alloc \<lparr>ofd = idx, cloexec = False\<rparr> t in (r, Some t)))"

definition resolve_fd :: "nat \<Rightarrow> fd_table option \<Rightarrow> nat option" where
  "resolve_fd fd cur = Option.bind cur (\<lambda>t. map_option ofd (fd_get fd t))"

definition current_fd_flags :: "nat \<Rightarrow> fd_table option \<Rightarrow> files \<Rightarrow> u32 option" where
  "current_fd_flags fd cur fs =
    Option.bind (resolve_fd fd cur) (\<lambda>idx. map_option (\<lambda>d. flags (desc d)) (ofd_get idx fs))"

section \<open>Fork, exit and exec\<close>

definition fork_table :: "fd_table \<Rightarrow> files \<Rightarrow> fd_table \<times> files" where
  "fork_table parent fs =
    fold (\<lambda>i (child, fs).
        case parent ! i of
          None \<Rightarrow> (child, fs)
        | Some entry \<Rightarrow> (child[i := Some entry], ofd_ref (ofd entry) fs))
      [0..<length parent] (fd_table_new, fs)"

definition close_slot :: "(fd_entry \<Rightarrow> bool) \<Rightarrow> nat \<Rightarrow> fd_table \<times> files \<Rightarrow> fd_table \<times> files" where
  "close_slot P i ts =
    (case fst ts ! i of
       None \<Rightarrow> ts
     | Some entry \<Rightarrow> if P entry then ((fst ts)[i := None], ofd_unref (ofd entry) (snd ts)) else ts)"

definition close_all :: "fd_table \<Rightarrow> files \<Rightarrow> fd_table \<times> files" where
  "close_all t fs = fold (close_slot (\<lambda>_. True)) [0..<length t] (t, fs)"

definition close_cloexec :: "fd_table \<Rightarrow> files \<Rightarrow> fd_table \<times> files" where
  "close_cloexec t fs = fold (close_slot cloexec) [0..<length t] (t, fs)"

section \<open>Descriptor syscalls\<close>

definition open_description :: "file_descriptor \<Rightarrow> bool \<Rightarrow> fd_table option \<Rightarrow> files \<Rightarrow> u32 \<times> fd_table option \<times> files" where
  "open_description d ce cur fs =
    (case ofd_alloc d fs of
       (None, fs) \<Rightarrow> (err ENFILE, cur, fs)
     | (Some idx, fs) \<Rightarrow>
        (case cur of
           None \<Rightarrow> (err EMFILE, cur, ofd_unref idx fs)
         | Some t \<Rightarrow>
            (case fd_alloc \<lparr>ofd = idx, cloexec = ce\<rparr> t of
               (Some n, t') \<Rightarrow> (of_nat n, Some t', fs)
             | (None, t') \<Rightarrow> (err EMFILE, Some t', ofd_unref idx fs))))"

definition sys_close :: "u32 \<Rightarrow> fd_table option \<Rightarrow> files \<Rightarrow> u32 \<times> fd_table option \<times> files" where
  "sys_close fd cur fs =
    (case cur of
       None \<Rightarrow> (err EBADF, cur, fs)
     | Some t \<Rightarrow>
        (case fd_take (unat fd) t of
           (None, t') \<Rightarrow> (err EBADF, Some t', fs)
         | (Some entry, t') \<Rightarrow> (0, Some t', ofd_unref (ofd entry) fs)))"

definition dup_with :: "(fd_entry \<Rightarrow> fd_table \<Rightarrow> nat option \<times> fd_table) \<Rightarrow> nat \<Rightarrow> fd_table option \<Rightarrow> files \<Rightarrow> u32 \<times> fd_table option \<times> files" where
  "dup_with alloc fd cur fs =
    (case cur of
       None \<Rightarrow> (err EBADF, cur, fs)
     | Some t \<Rightarrow>
        (case fd_get fd t of
           None \<Rightarrow> (err EBADF, cur, fs)
         | Some entry \<Rightarrow>
            (case alloc \<lparr>ofd = ofd entry, cloexec = False\<rparr> t of
               (Some n, t') \<Rightarrow> (of_nat n, Some t', ofd_ref (ofd entry) fs)
             | (None, t') \<Rightarrow> (err EMFILE, Some t', fs))))"

definition sys_dup :: "u32 \<Rightarrow> fd_table option \<Rightarrow> files \<Rightarrow> u32 \<times> fd_table option \<times> files" where
  "sys_dup fd = dup_with fd_alloc (unat fd)"

definition sys_dup2 :: "u32 \<Rightarrow> u32 \<Rightarrow> fd_table option \<Rightarrow> files \<Rightarrow> u32 \<times> fd_table option \<times> files" where
  "sys_dup2 oldfd newfd cur fs =
    (if MAX_FDS \<le> unat newfd then (err EBADF, cur, fs)
     else case cur of
       None \<Rightarrow> (err EBADF, cur, fs)
     | Some t \<Rightarrow>
        (case fd_get (unat oldfd) t of
           None \<Rightarrow> (err EBADF, cur, fs)
         | Some entry \<Rightarrow>
            if oldfd = newfd then (newfd, cur, fs)
            else
              let (displaced, t) = fd_take (unat newfd) t;
                  (ok, t) = fd_alloc_at (unat newfd) \<lparr>ofd = ofd entry, cloexec = False\<rparr> t
              in if \<not> ok then (err EBADF, Some t, fs)
                 else
                   let fs = ofd_ref (ofd entry) fs
                   in (newfd, Some t, case displaced of None \<Rightarrow> fs | Some d \<Rightarrow> ofd_unref (ofd d) fs)))"

definition sys_fcntl :: "u32 \<Rightarrow> u32 \<Rightarrow> u32 \<Rightarrow> fd_table option \<Rightarrow> files \<Rightarrow> u32 \<times> fd_table option \<times> files" where
  "sys_fcntl fd cmd arg cur fs =
    (let fd_idx = unat fd in
     if cmd = F_GETFD then
       (case Option.bind cur (fd_get fd_idx) of
          Some e \<Rightarrow> (if cloexec e then FD_CLOEXEC else 0, cur, fs)
        | None \<Rightarrow> (err EBADF, cur, fs))
     else if cmd = F_SETFD then
       (case Option.bind cur (fd_get fd_idx) of
          Some e \<Rightarrow> (0, map_option (\<lambda>t. t[fd_idx := Some (e\<lparr>cloexec := arg AND FD_CLOEXEC \<noteq> 0\<rparr>)]) cur, fs)
        | None \<Rightarrow> (err EBADF, cur, fs))
     else if cmd = F_GETFL then
       (case current_fd_flags fd_idx cur fs of
          Some fl \<Rightarrow> (fl, cur, fs)
        | None \<Rightarrow> (err EBADF, cur, fs))
     else if cmd = F_SETFL then
       (case Option.bind (resolve_fd fd_idx cur) (\<lambda>idx. map_option (Pair idx) (ofd_get idx fs)) of
          None \<Rightarrow> (err EBADF, cur, fs)
        | Some (idx, d) \<Rightarrow>
            (0, cur, fs\<lparr>ofd_table := (ofd_table fs)[idx :=
               Some (d\<lparr>desc := (desc d)\<lparr>flags := (flags (desc d) AND NOT O_APPEND) OR (arg AND O_APPEND)\<rparr>\<rparr>)]\<rparr>))
     else if cmd = F_DUPFD then dup_with (fd_alloc_from (unat arg)) fd_idx cur fs
     else (err EINVAL, cur, fs))"

section \<open>Reference counts\<close>

definition names_ofd :: "nat \<Rightarrow> fd_entry option \<Rightarrow> bool" where
  "names_ofd idx slot = (case slot of None \<Rightarrow> False | Some e \<Rightarrow> ofd e = idx)"

definition entry_count :: "fd_table \<Rightarrow> nat \<Rightarrow> nat" where
  "entry_count t idx = count_if (names_ofd idx) t"

definition refs_ok :: "(nat \<Rightarrow> nat) \<Rightarrow> files \<Rightarrow> bool" where
  "refs_ok f fs \<longleftrightarrow> (\<forall>idx. case ofd_get idx fs of None \<Rightarrow> f idx = 0 | Some d \<Rightarrow> refs d = f idx \<and> 0 < f idx)"

definition sizes_ok :: "files \<Rightarrow> bool" where
  "sizes_ok fs \<longleftrightarrow> length (ofd_table fs) = MAX_OFDS \<and> length (socket_table fs) = MAX_FDS \<and> length (pipe_pool fs) = MAX_PIPES"

lemma names_ofd_simps [simp]:
  "\<not> names_ofd idx None" "names_ofd idx (Some e) \<longleftrightarrow> ofd e = idx"
  by (simp_all add: names_ofd_def)

lemma refs_okD:
  "refs_ok f fs \<Longrightarrow> ofd_get idx fs = None \<Longrightarrow> f idx = 0"
  "refs_ok f fs \<Longrightarrow> ofd_get idx fs = Some d \<Longrightarrow> refs d = f idx"
  "refs_ok f fs \<Longrightarrow> 0 < f idx \<Longrightarrow> ofd_get idx fs \<noteq> None"
  unfolding refs_ok_def by (auto dest: spec [of _ idx] split: option.splits)

lemma pipe_idx_less: "pipe_idx_from_flags fl < MAX_PIPES"
proof -
  have "drop_bit FD_PIPE_IDX_SHIFT fl AND 0x07 \<le> 0x07" by (simp add: word_and_le1)
  then show ?thesis by (simp add: pipe_idx_from_flags_def fd_sizes word_le_nat_alt)
qed

lemma on_pipe_fd_closed_length [simp]: "length (on_pipe_fd_closed i w pool) = length pool"
  by (simp add: on_pipe_fd_closed_def maybe_free_pipe_def Let_def split: option.splits)

lemma close_description_facts [simp]:
  "ofd_table (close_description idx fl fs) = ofd_table fs"
  "sizes_ok (close_description idx fl fs) = sizes_ok fs"
  by (auto simp: close_description_def on_socket_fd_closed_def sizes_ok_def Let_def split: option.splits)

lemma ofd_get_update:
  "ofd_get j (fs\<lparr>ofd_table := (ofd_table fs)[i := v]\<rparr>) = (if j = i \<and> i < length (ofd_table fs) then v else ofd_get j fs)"
  by (auto simp: ofd_get_def)

lemma ofd_get_close [simp]: "ofd_get j (close_description idx fl fs) = ofd_get j fs"
  by (simp add: ofd_get_def)

lemma ofd_get_less: "ofd_get i fs = Some d \<Longrightarrow> i < length (ofd_table fs)"
  by (simp add: ofd_get_def split: if_splits)

lemma sizes_ok_update [simp]: "sizes_ok (fs\<lparr>ofd_table := (ofd_table fs)[i := v]\<rparr>) = sizes_ok fs"
  by (simp add: sizes_ok_def)

lemma sizes_ok_ref [simp]: "sizes_ok (ofd_ref i fs) = sizes_ok fs"
  by (simp add: ofd_ref_def split: option.splits)

lemma sizes_ok_unref [simp]: "sizes_ok (ofd_unref i fs) = sizes_ok fs"
  by (simp add: ofd_unref_def Let_def split: option.splits)

lemma ofd_alloc_SomeD:
  assumes "ofd_alloc d fs = (Some i, fs')"
  shows "i < length (ofd_table fs)" "ofd_get i fs = None" "fs' = fs\<lparr>ofd_table := (ofd_table fs)[i := Some \<lparr>desc = d, refs = 1\<rparr>]\<rparr>"
  using assms find_index_SomeD [of Option.is_none "ofd_table fs"]
  by (auto simp: ofd_alloc_def ofd_get_def split: option.splits dest: Option.is_none_def [THEN iffD1] simp: Option.is_none_def)

lemma refs_ok_change:
  assumes "refs_ok f fs" "\<And>j. j \<noteq> i \<Longrightarrow> ofd_get j fs' = ofd_get j fs"
    "case ofd_get i fs' of None \<Rightarrow> v = 0 | Some d \<Rightarrow> refs d = v \<and> 0 < v"
  shows "refs_ok (f(i := v)) fs'"
  unfolding refs_ok_def
proof
  fix idx
  show "case ofd_get idx fs' of None \<Rightarrow> (f(i := v)) idx = 0 | Some d \<Rightarrow> refs d = (f(i := v)) idx \<and> 0 < (f(i := v)) idx"
    using assms(2) [of idx] assms(3) assms(1) [unfolded refs_ok_def, rule_format, of idx]
    by (cases "idx = i") (simp_all split: option.splits)
qed

lemma refs_ok_alloc:
  assumes "refs_ok f fs" "ofd_alloc d fs = (Some i, fs')"
  shows "refs_ok (f(i := Suc (f i))) fs'"
proof -
  note a = ofd_alloc_SomeD [OF assms(2)]
  have "f i = 0" using refs_okD(1) [OF assms(1) a(2)] .
  then show ?thesis using a by (intro refs_ok_change [OF assms(1)]) (simp_all add: ofd_get_update)
qed

lemma refs_ok_ref:
  assumes "refs_ok f fs" "0 < f i" "Suc (f i) < USIZE_MOD"
  shows "refs_ok (f(i := Suc (f i))) (ofd_ref i fs)"
proof -
  obtain d where d: "ofd_get i fs = Some d" using refs_okD(3) [OF assms(1,2)] by blast
  then have "refs d = f i" using refs_okD(2) [OF assms(1)] by blast
  then show ?thesis
    using assms(3) d ofd_get_less [OF d]
    by (intro refs_ok_change [OF assms(1)]) (simp_all add: ofd_ref_def ofd_get_update saturating_add_def)
qed

lemma refs_ok_unref:
  assumes "refs_ok f fs" "0 < f i"
  shows "refs_ok (f(i := f i - 1)) (ofd_unref i fs)"
proof -
  obtain d where d: "ofd_get i fs = Some d" using refs_okD(3) [OF assms] by blast
  then have "refs d = f i" using refs_okD(2) [OF assms(1)] by blast
  then show ?thesis
    using d ofd_get_less [OF d]
    by (intro refs_ok_change [OF assms(1)]) (auto simp: ofd_unref_def ofd_get_update Let_def)
qed

text \<open>\<open>tot t g\<close> counts the references of one table together with those \<open>g\<close> of all other tables.\<close>

definition tot :: "fd_table \<Rightarrow> (nat \<Rightarrow> nat) \<Rightarrow> nat \<Rightarrow> nat" where
  "tot t g i = entry_count t i + g i"

definition fd_inv :: "fd_table \<Rightarrow> (nat \<Rightarrow> nat) \<Rightarrow> files \<Rightarrow> bool" where
  "fd_inv t g fs \<longleftrightarrow> length t = MAX_FDS \<and> sizes_ok fs \<and> refs_ok (tot t g) fs \<and> (\<forall>i. g i \<le> 3840)"

lemma entry_count_le: "entry_count t i \<le> length t"
  by (simp add: entry_count_def count_if_le_length)

lemma tot_bound: "fd_inv t g fs \<Longrightarrow> tot t g i \<le> 4096"
  using entry_count_le [of t i] by (auto simp: fd_inv_def tot_def fd_sizes dest: spec [of _ i])

lemma tot_set:
  assumes "n < length t" "t ! n = None"
  shows "tot (t[n := Some e]) g = (tot t g)(ofd e := Suc (tot t g (ofd e)))"
proof
  fix i show "tot (t[n := Some e]) g i = ((tot t g)(ofd e := Suc (tot t g (ofd e)))) i"
    using count_if_update [OF assms(1), of "names_ofd i" "Some e"] assms(2) by (simp add: tot_def entry_count_def)
qed

lemma tot_clear:
  assumes "n < length t" "t ! n = Some e"
  shows "tot (t[n := None]) g = (tot t g)(ofd e := tot t g (ofd e) - 1)" "0 < tot t g (ofd e)"
proof -
  show pos: "0 < tot t g (ofd e)"
    using count_if_pos [OF assms(1), of "names_ofd (ofd e)"] assms(2) by (simp add: tot_def entry_count_def)
  show "tot (t[n := None]) g = (tot t g)(ofd e := tot t g (ofd e) - 1)"
  proof
    fix i
    have "entry_count (t[n := None]) i + (if ofd e = i then 1 else 0) = entry_count t i"
      using count_if_update [OF assms(1), of "names_ofd i" None] assms(2) by (simp add: entry_count_def)
    then show "tot (t[n := None]) g i = ((tot t g)(ofd e := tot t g (ofd e) - 1)) i"
      using pos by (auto simp: tot_def)
  qed
qed

lemma fd_inv_same_refs:
  "fd_inv t g fs \<Longrightarrow> n < length t \<Longrightarrow> t ! n = Some e \<Longrightarrow> ofd e' = ofd e \<Longrightarrow> fd_inv (t[n := Some e']) g fs"
proof -
  assume a: "fd_inv t g fs" "n < length t" "t ! n = Some e" "ofd e' = ofd e"
  have "tot (t[n := Some e']) g = tot t g"
    using count_if_update [OF a(2), of "names_ofd _" "Some e'"] a(3,4) by (auto simp: tot_def entry_count_def fun_eq_iff)
  then show ?thesis using a(1) by (simp add: fd_inv_def)
qed

lemma fd_inv_share:
  assumes inv: "fd_inv t g fs" and n: "n < length t" "t ! n = None" and e: "k < length t" "t ! k = Some e" "ofd e' = ofd e"
  shows "fd_inv (t[n := Some e']) g (ofd_ref (ofd e) fs)"
proof -
  have "0 < tot t g (ofd e)" by (rule tot_clear(2) [OF e(1,2)])
  moreover have "Suc (tot t g (ofd e)) < USIZE_MOD" using tot_bound [OF inv, of "ofd e"] by (simp add: USIZE_MOD_def)
  moreover have "refs_ok (tot t g) fs" using inv by (simp add: fd_inv_def)
  ultimately have "refs_ok (tot (t[n := Some e']) g) (ofd_ref (ofd e) fs)"
    using refs_ok_ref [of "tot t g" fs "ofd e"] tot_set [OF n, of e' g] e(3) by simp
  then show ?thesis using inv by (simp add: fd_inv_def)
qed

lemma fd_inv_drop:
  assumes "fd_inv t g fs" "n < length t" "t ! n = Some e"
  shows "fd_inv (t[n := None]) g (ofd_unref (ofd e) fs)"
  using assms refs_ok_unref [of "tot t g" fs "ofd e"] tot_clear [OF assms(2,3), of g] by (simp add: fd_inv_def)

lemma fd_alloc_cases:
  assumes "fd_alloc e t = (r, t')"
  obtains "r = None" "t' = t" | n where "r = Some n" "n < length t" "t ! n = None" "t' = t[n := Some e]"
proof (cases "find_index Option.is_none t")
  case None
  then show thesis using assms that(1) by (simp add: fd_alloc_def del: find_index_None_iff)
next
  case (Some i)
  then have "i < length t" "t ! i = None" using find_index_SomeD [OF Some] by (auto simp: Option.is_none_def)
  moreover have "r = Some i" "t' = t[i := Some e]" using assms Some by (simp_all add: fd_alloc_def)
  ultimately show thesis using that(2) [of i] by blast
qed

lemma fd_alloc_from_cases:
  assumes "fd_alloc_from m e t = (r, t')"
  obtains "r = None" "t' = t" | n where "r = Some n" "n < length t" "t ! n = None" "t' = t[n := Some e]"
proof (cases "find_index Option.is_none (drop m t)")
  case None
  then show thesis using assms that(1) by (simp add: fd_alloc_from_def del: find_index_None_iff split: if_splits)
next
  case (Some i)
  have "i < length (drop m t)" "Option.is_none (drop m t ! i)" using find_index_SomeD [OF Some] by auto
  then have i: "m + i < length t" "t ! (m + i) = None" by (auto simp: Option.is_none_def less_diff_conv)
  show thesis
  proof (cases "MAX_FDS \<le> m")
    case True
    then show thesis using assms by (intro that(1)) (simp_all add: fd_alloc_from_def)
  next
    case False
    then show thesis using assms Some i by (intro that(2) [of "m + i"]) (simp_all add: fd_alloc_from_def)
  qed
qed

section \<open>Every operation keeps the counts\<close>

definition keeps :: "(nat \<Rightarrow> nat) \<Rightarrow> u32 \<times> fd_table option \<times> files \<Rightarrow> bool" where
  "keeps g res = (case res of (_, Some t, fs) \<Rightarrow> fd_inv t g fs | _ \<Rightarrow> False)"

lemma keeps_simp [simp]: "keeps g (r, Some t, fs) = fd_inv t g fs"
  by (simp add: keeps_def)

lemma fd_get_SomeD: "fd_inv t g fs \<Longrightarrow> fd_get n t = Some e \<Longrightarrow> n < length t \<and> t ! n = Some e"
  by (simp add: fd_get_def fd_inv_def split: if_splits)

lemma sys_close_keeps [inv_pres]:
  assumes "fd_inv t g fs" shows "keeps g (sys_close fd (Some t) fs)"
proof (cases "MAX_FDS \<le> unat fd \<or> t ! unat fd = None")
  case True
  have "t[unat fd := None] = t" if "t ! unat fd = None" using that list_update_id [of t "unat fd"] by simp
  then show ?thesis using True assms by (auto simp: sys_close_def fd_take_def)
next
  case False
  then obtain e where "unat fd < length t" "t ! unat fd = Some e" using assms by (auto simp: fd_inv_def)
  then show ?thesis using fd_inv_drop [OF assms] False by (simp add: sys_close_def fd_take_def)
qed

lemma dup_with_keeps:
  assumes inv: "fd_inv t g fs"
    and alloc: "\<And>e r t'. alloc e t = (r, t') \<Longrightarrow> r = None \<and> t' = t \<or> (\<exists>n. r = Some n \<and> n < length t \<and> t ! n = None \<and> t' = t[n := Some e])"
  shows "keeps g (dup_with alloc fd (Some t) fs)"
proof (cases "fd_get fd t")
  case None
  then show ?thesis using inv by (simp add: dup_with_def)
next
  case (Some e)
  obtain r t' where a: "alloc \<lparr>ofd = ofd e, cloexec = False\<rparr> t = (r, t')" by fastforce
  show ?thesis using alloc [OF a]
  proof (elim disjE exE conjE)
    assume "r = None" "t' = t" then show ?thesis using a Some inv by (simp add: dup_with_def)
  next
    fix n assume n: "r = Some n" "n < length t" "t ! n = None" "t' = t[n := Some \<lparr>ofd = ofd e, cloexec = False\<rparr>]"
    have "fd_inv t' g (ofd_ref (ofd e) fs)"
      unfolding n(4) using fd_get_SomeD [OF inv Some] by (intro fd_inv_share [OF inv n(2,3)]) auto
    then show ?thesis using a n(1) Some by (simp add: dup_with_def)
  qed
qed

lemma sys_dup_keeps [inv_pres]: "fd_inv t g fs \<Longrightarrow> keeps g (sys_dup fd (Some t) fs)"
  unfolding sys_dup_def by (erule dup_with_keeps) (erule fd_alloc_cases, blast+)

lemma sys_fcntl_keeps [inv_pres]:
  assumes inv: "fd_inv t g fs" shows "keeps g (sys_fcntl fd cmd arg (Some t) fs)"
proof -
  have dup: "keeps g (dup_with (fd_alloc_from (unat arg)) (unat fd) (Some t) fs)"
    using inv by (rule dup_with_keeps) (erule fd_alloc_from_cases, blast+)
  have setfd: "fd_inv (t[unat fd := Some (e\<lparr>cloexec := c\<rparr>)]) g fs" if "fd_get (unat fd) t = Some e" for e c
    using fd_inv_same_refs [OF inv] fd_get_SomeD [OF inv that] by simp
  have setfl: "fd_inv t g (fs\<lparr>ofd_table := (ofd_table fs)[i := Some (d\<lparr>desc := x\<rparr>)]\<rparr>)" if "ofd_get i fs = Some d" for i d x
  proof -
    have "refs_ok ((tot t g)(i := tot t g i)) (fs\<lparr>ofd_table := (ofd_table fs)[i := Some (d\<lparr>desc := x\<rparr>)]\<rparr>)"
      using inv that refs_okD(2) [of "tot t g" fs i d] refs_okD(1,3) [of "tot t g" fs i] ofd_get_less [OF that]
      by (intro refs_ok_change [of "tot t g" fs]) (auto simp: fd_inv_def ofd_get_update refs_ok_def dest: spec [of _ i])
    then show ?thesis using inv by (simp add: fd_inv_def)
  qed
  show ?thesis
    using inv dup setfd setfl
    by (auto simp: sys_fcntl_def Let_def split: option.splits bind_splits prod.splits)
qed

lemma sys_dup2_keeps [inv_pres]:
  assumes inv: "fd_inv t g fs" shows "keeps g (sys_dup2 oldfd newfd (Some t) fs)"
proof (cases "fd_get (unat oldfd) t")
  case None
  then show ?thesis using inv by (simp add: sys_dup2_def)
next
  case (Some e)
  let ?n = "unat newfd" and ?e = "\<lparr>ofd = ofd e, cloexec = False\<rparr>" and ?r = "ofd_ref (ofd e) fs"
  note e = fd_get_SomeD [OF inv Some]
  show ?thesis
  proof (cases "MAX_FDS \<le> ?n \<or> oldfd = newfd")
    case True
    then show ?thesis using inv Some by (auto simp: sys_dup2_def)
  next
    case False
    then have n: "?n < length t" using inv by (simp add: fd_inv_def)
    show ?thesis
    proof (cases "t ! ?n")
      case None
      have "fd_inv (t[?n := Some ?e]) g ?r" using e by (intro fd_inv_share [OF inv n None]) auto
      then show ?thesis using False None Some by (simp add: sys_dup2_def fd_take_def fd_alloc_at_def)
    next
      case (Some d)
      have f: "refs_ok (tot t g) fs" "0 < tot t g (ofd e)" "0 < tot t g (ofd d)" "Suc (tot t g (ofd e)) < USIZE_MOD"
        using inv e tot_clear(2) [OF n Some] tot_clear(2) [of "unat oldfd" t e] tot_bound [OF inv, of "ofd e"]
        by (auto simp: fd_inv_def USIZE_MOD_def)
      let ?f = "(tot t g)(ofd e := Suc (tot t g (ofd e)))"
      have "refs_ok (?f(ofd d := ?f (ofd d) - 1)) (ofd_unref (ofd d) ?r)"
        using f by (intro refs_ok_unref refs_ok_ref) auto
      moreover have "tot (t[?n := Some ?e]) g = ?f(ofd d := ?f (ofd d) - 1)"
        using tot_set [of ?n "t[?n := None]" ?e g] tot_clear(1) [OF n Some, of g] n f(3)
        by (auto simp: fun_eq_iff)
      ultimately have "fd_inv (t[?n := Some ?e]) g (ofd_unref (ofd d) ?r)" using inv by (simp add: fd_inv_def)
      then show ?thesis using False Some \<open>fd_get (unat oldfd) t = Some e\<close>
        by (simp add: sys_dup2_def fd_take_def fd_alloc_at_def)
    qed
  qed
qed

lemma close_slot_inv:
  "fd_inv (fst ts) g (snd ts) \<Longrightarrow> n < MAX_FDS \<Longrightarrow> fd_inv (fst (close_slot P n ts)) g (snd (close_slot P n ts))"
  using fd_inv_drop [of "fst ts" g "snd ts" n] by (auto simp: close_slot_def fd_inv_def split: option.splits)

lemma fold_close_slot_inv:
  "fd_inv (fst ts) g (snd ts) \<Longrightarrow> set ns \<subseteq> {..<MAX_FDS} \<Longrightarrow>
    fd_inv (fst (fold (close_slot P) ns ts)) g (snd (fold (close_slot P) ns ts))"
proof (induction ns arbitrary: ts)
  case (Cons n ns)
  then have "fd_inv (fst (close_slot P n ts)) g (snd (close_slot P n ts))" by (intro close_slot_inv) auto
  then show ?case using Cons.IH [of "close_slot P n ts"] Cons.prems(2) by simp
qed simp

lemma close_inv [inv_pres]:
  assumes "fd_inv t g fs"
  shows "fd_inv (fst (close_all t fs)) g (snd (close_all t fs))" "fd_inv (fst (close_cloexec t fs)) g (snd (close_cloexec t fs))"
proof -
  have "set [0..<length t] \<subseteq> {..<MAX_FDS}" using assms by (auto simp: fd_inv_def)
  then show "fd_inv (fst (close_all t fs)) g (snd (close_all t fs))" "fd_inv (fst (close_cloexec t fs)) g (snd (close_cloexec t fs))"
    unfolding close_all_def close_cloexec_def using fold_close_slot_inv [of "(t, fs)" g "[0..<length t]"] assms by simp_all
qed

lemma fold_close_slot_table:
  "fst (fold (close_slot P) [0..<n] (t, fs)) =
    map (\<lambda>slot. case slot of None \<Rightarrow> None | Some e \<Rightarrow> if P e then None else Some e) (take n t) @ drop n t" if "n \<le> length t"
  using that
proof (induction n)
  case (Suc n)
  let ?s = "\<lambda>slot. case slot of None \<Rightarrow> None | Some e \<Rightarrow> if P e then None else Some e"
  obtain t1 fs1 where ts: "fold (close_slot P) [0..<n] (t, fs) = (t1, fs1)" by fastforce
  have t1: "t1 = map ?s (take n t) @ drop n t" using Suc ts by simp
  have "fst (close_slot P n (t1, fs1)) = t1[n := ?s (t ! n)]"
    using Suc.prems t1 list_update_id [of t1 n] by (auto simp: close_slot_def nth_append split: option.splits)
  also have "\<dots> = map ?s (take (Suc n) t) @ drop (Suc n) t"
    using Suc.prems unfolding t1 by (simp add: list_update_append take_Suc_conv_app_nth Cons_nth_drop_Suc [symmetric])
  finally show ?case using ts by simp
qed simp

lemma close_all_table: "fst (close_all t fs) = replicate (length t) None"
proof -
  have "fst (close_all t fs) = map (\<lambda>_. None) t"
    using fold_close_slot_table [of "length t" t "\<lambda>_. True" fs] unfolding close_all_def
    by (auto split: option.splits simp: map_eq_conv)
  then show ?thesis by (simp add: map_replicate_const)
qed

lemma close_cloexec_table:
  "fst (close_cloexec t fs) = map (\<lambda>slot. case slot of None \<Rightarrow> None | Some e \<Rightarrow> if cloexec e then None else Some e) t"
  using fold_close_slot_table [of "length t" t cloexec fs] by (simp add: close_cloexec_def)

lemma fork_table_fold:
  assumes inv: "fd_inv t g fs" and n: "n \<le> MAX_FDS"
  shows "\<exists>fs'. fold (\<lambda>i (child, fs). case t ! i of None \<Rightarrow> (child, fs) | Some e \<Rightarrow> (child[i := Some e], ofd_ref (ofd e) fs))
      [0..<n] (fd_table_new, fs) = (take n t @ replicate (MAX_FDS - n) None, fs') \<and> sizes_ok fs' \<and>
      refs_ok (tot (take n t @ replicate (MAX_FDS - n) None) (tot t g)) fs'"
  using n
proof (induction n)
  case 0
  have "entry_count (replicate MAX_FDS None) i = 0" for i by (simp add: entry_count_def)
  then show ?case using inv by (simp add: fd_inv_def fd_table_new_def tot_def [of "replicate MAX_FDS None"])
next
  case (Suc n)
  let ?c = "\<lambda>n. take n t @ replicate (MAX_FDS - n) None"
  obtain fs' where fs': "fold (\<lambda>i (child, fs). case t ! i of None \<Rightarrow> (child, fs) | Some e \<Rightarrow> (child[i := Some e], ofd_ref (ofd e) fs))
      [0..<n] (fd_table_new, fs) = (?c n, fs')" "sizes_ok fs'" "refs_ok (tot (?c n) (tot t g)) fs'"
    using Suc by auto
  have len: "length t = MAX_FDS" "n < length t" "n < MAX_FDS" using inv Suc.prems by (auto simp: fd_inv_def)
  have rep: "replicate (MAX_FDS - n) None = None # replicate (MAX_FDS - Suc n) None"
    using len by (simp add: Suc_diff_Suc [symmetric])
  have next_c: "?c (Suc n) = (?c n)[n := t ! n]" "n < length (?c n)" "?c n ! n = None"
    using len by (simp_all add: rep take_Suc_conv_app_nth list_update_append nth_append)
  show ?case
  proof (cases "t ! n")
    case None
    then have "?c (Suc n) = ?c n" using next_c list_update_id [of "?c n" n] by simp
    then show ?thesis using fs' None by simp
  next
    case (Some e)
    let ?f = "tot (?c n) (tot t g)"
    have "0 < ?f (ofd e)" using tot_clear(2) [OF len(2) Some, of g] by (simp add: tot_def)
    moreover have "Suc (?f (ofd e)) < USIZE_MOD"
      using tot_bound [OF inv, of "ofd e"] entry_count_le [of "?c n" "ofd e"] len by (simp add: USIZE_MOD_def fd_sizes tot_def)
    ultimately have "refs_ok (?f(ofd e := Suc (?f (ofd e)))) (ofd_ref (ofd e) fs')" by (rule refs_ok_ref [OF fs'(3)])
    moreover have "tot (?c (Suc n)) (tot t g) = ?f(ofd e := Suc (?f (ofd e)))"
      using tot_set [OF next_c(2,3), of e "tot t g"] unfolding next_c(1) Some .
    ultimately have "refs_ok (tot (?c (Suc n)) (tot t g)) (ofd_ref (ofd e) fs')" by (simp only:)
    then show ?thesis using fs'(1,2) Some next_c(1) by (intro exI [of _ "ofd_ref (ofd e) fs'"]) (simp del: fun_upd_apply)
  qed
qed

lemma fork_table_inv:
  assumes "fd_inv t g fs"
  obtains fs' where "fork_table t fs = (t, fs')" "sizes_ok fs'" "refs_ok (tot t (tot t g)) fs'"
  using fork_table_fold [OF assms, of MAX_FDS] assms by (auto simp: fork_table_def fd_inv_def)

lemma open_description_keeps [inv_pres]:
  assumes inv: "fd_inv t g fs" shows "keeps g (open_description d ce (Some t) fs)"
proof (cases "ofd_alloc d fs")
  case (Pair r fs1)
  show ?thesis
  proof (cases r)
    case None
    then have "fs1 = fs" using Pair by (auto simp: ofd_alloc_def split: option.splits)
    then show ?thesis using None Pair inv by (simp add: open_description_def)
  next
    case (Some idx)
    let ?f = "(tot t g)(idx := Suc (tot t g idx))"
    have a: "refs_ok ?f fs1" "sizes_ok fs1"
      using inv refs_ok_alloc [of "tot t g" fs d idx fs1] ofd_alloc_SomeD(3) [of d fs idx fs1] Pair Some
      by (auto simp: fd_inv_def)
    obtain r t' where al: "fd_alloc \<lparr>ofd = idx, cloexec = ce\<rparr> t = (r, t')" by fastforce
    from al show ?thesis
    proof (cases rule: fd_alloc_cases)
      case 1
      have "?f(idx := ?f idx - 1) = tot t g" by auto
      then have "refs_ok (tot t g) (ofd_unref idx fs1)" using refs_ok_unref [OF a(1), of idx] by simp
      then show ?thesis using al 1 Some Pair inv a(2) by (simp add: open_description_def fd_inv_def)
    next
      case (2 n)
      then have "tot t' g = ?f" using tot_set [of n t "\<lparr>ofd = idx, cloexec = ce\<rparr>" g] by simp
      then show ?thesis using al 2 Some Pair inv a by (simp add: open_description_def fd_inv_def)
    qed
  qed
qed

section \<open>All processes together\<close>

datatype fd_op = FdOpen file_descriptor bool | FdClose u32 | FdDup u32 | FdDup2 u32 u32 | FdFcntl u32 u32 u32

fun fd_call :: "fd_op \<Rightarrow> fd_table option \<Rightarrow> files \<Rightarrow> u32 \<times> fd_table option \<times> files" where
  "fd_call (FdOpen d ce) cur fs = open_description d ce cur fs"
| "fd_call (FdClose fd) cur fs = sys_close fd cur fs"
| "fd_call (FdDup fd) cur fs = sys_dup fd cur fs"
| "fd_call (FdDup2 old new) cur fs = sys_dup2 old new cur fs"
| "fd_call (FdFcntl fd cmd arg) cur fs = sys_fcntl fd cmd arg cur fs"

lemma fd_call_keeps: "fd_inv t g fs \<Longrightarrow> keeps g (fd_call op (Some t) fs)"
  by (cases op) (simp_all add: inv_pres)

definition files_init :: files where
  "files_init = \<lparr>ofd_table = replicate MAX_OFDS None, pipe_pool = pool_init,
     socket_table = replicate MAX_FDS None, network_up = False, removed_sockets = []\<rparr>"

text \<open>The states the descriptor operations of up to 16 processes lead to, in any interleaving. A
  process slot is \<open>None\<close> when it is free; \<open>bound\<close> is the size of the process table.\<close>

inductive fd_reachable :: "fd_table option list \<Rightarrow> files \<Rightarrow> bool" where
  boot: "fd_reachable (replicate 16 None) files_init"
| spawn: "fd_reachable ts fs \<Longrightarrow> q < 16 \<Longrightarrow> ts ! q = None \<Longrightarrow> fd_reachable (ts[q := Some fd_table_new]) fs"
| call: "fd_reachable ts fs \<Longrightarrow> p < 16 \<Longrightarrow> ts ! p = Some t \<Longrightarrow> fd_call op (Some t) fs = (r, cur, fs') \<Longrightarrow>
    fd_reachable (ts[p := cur]) fs'"
| exec: "fd_reachable ts fs \<Longrightarrow> p < 16 \<Longrightarrow> ts ! p = Some t \<Longrightarrow> close_cloexec t fs = (t', fs') \<Longrightarrow>
    fd_reachable (ts[p := Some t']) fs'"
| fork: "fd_reachable ts fs \<Longrightarrow> p < 16 \<Longrightarrow> ts ! p = Some t \<Longrightarrow> q < 16 \<Longrightarrow> ts ! q = None \<Longrightarrow>
    fork_table t fs = (c, fs') \<Longrightarrow> fd_reachable (ts[q := Some c]) fs'"
| exit: "fd_reachable ts fs \<Longrightarrow> p < 16 \<Longrightarrow> ts ! p = Some t \<Longrightarrow> close_all t fs = (t', fs') \<Longrightarrow>
    fd_reachable (ts[p := Some t']) fs'"
| reap: "fd_reachable ts fs \<Longrightarrow> p < 16 \<Longrightarrow> ts ! p = Some (replicate MAX_FDS None) \<Longrightarrow> fd_reachable (ts[p := None]) fs"

definition slot_count :: "nat \<Rightarrow> fd_table option \<Rightarrow> nat" where
  "slot_count idx slot = (case slot of None \<Rightarrow> 0 | Some t \<Rightarrow> entry_count t idx)"

definition total_count :: "fd_table option list \<Rightarrow> nat \<Rightarrow> nat" where
  "total_count ts idx = sum_list (map (slot_count idx) ts)"

lemma slot_count_simps [simp]: "slot_count idx None = 0" "slot_count idx (Some t) = entry_count t idx"
  by (simp_all add: slot_count_def)

lemma entry_count_empty [simp]: "entry_count (replicate n None) idx = 0"
  by (simp add: entry_count_def)

lemma total_count_update:
  "p < length ts \<Longrightarrow> total_count (ts[p := v]) idx + slot_count idx (ts ! p) = total_count ts idx + slot_count idx v"
proof (induction ts arbitrary: p)
  case (Cons t ts)
  then show ?case by (cases p) (auto simp: total_count_def)
qed simp

definition others :: "fd_table option list \<Rightarrow> nat \<Rightarrow> nat \<Rightarrow> nat" where
  "others ts p idx = total_count (ts[p := None]) idx"

lemma total_split: "p < length ts \<Longrightarrow> ts ! p = Some t \<Longrightarrow> total_count ts = tot t (others ts p)"
proof
  fix i assume "p < length ts" "ts ! p = Some t"
  then show "total_count ts i = tot t (others ts p) i"
    using total_count_update [of p ts None i] by (simp add: tot_def others_def)
qed

lemma total_replace: "p < length ts \<Longrightarrow> total_count (ts[p := Some t']) = tot t' (others ts p)"
  using total_split [of p "ts[p := Some t']" t'] by (simp add: tot_def [abs_def] others_def)

lemma total_le:
  "\<forall>t. Some t \<in> set ts \<longrightarrow> length t = MAX_FDS \<Longrightarrow> total_count ts idx \<le> length ts * MAX_FDS"
proof (induction ts)
  case (Cons t ts)
  have "slot_count idx t \<le> MAX_FDS"
  proof (cases t)
    case (Some a)
    then show ?thesis using Cons.prems entry_count_le [of a idx] by simp
  qed simp
  then show ?case using Cons by (simp add: total_count_def)
qed (simp add: total_count_def)

lemma others_le:
  assumes "length ts = 16" "\<forall>t. Some t \<in> set ts \<longrightarrow> length t = MAX_FDS" "p < 16"
  shows "others ts p idx \<le> 3840"
proof -
  have eq: "ts[p := None] = take p ts @ None # drop (Suc p) ts" using assms by (simp add: upd_conv_take_nth_drop)
  have "total_count (take p ts @ drop (Suc p) ts) idx \<le> length (take p ts @ drop (Suc p) ts) * MAX_FDS"
    using assms(2) by (intro total_le) (auto dest: in_set_takeD in_set_dropD)
  moreover have "length (take p ts @ drop (Suc p) ts) = 15" using assms by simp
  ultimately show ?thesis unfolding others_def eq by (simp add: total_count_def fd_sizes)
qed

definition fds_inv :: "fd_table option list \<Rightarrow> files \<Rightarrow> bool" where
  "fds_inv ts fs \<longleftrightarrow> length ts = 16 \<and> (\<forall>t. Some t \<in> set ts \<longrightarrow> length t = MAX_FDS) \<and> sizes_ok fs \<and> refs_ok (total_count ts) fs"

lemma fds_inv_process:
  assumes "fds_inv ts fs" "p < 16" "ts ! p = Some t"
  shows "fd_inv t (others ts p) fs"
  using assms total_split [of p ts t] others_le [of ts p] nth_mem [of p ts] by (auto simp: fds_inv_def fd_inv_def)

lemma fds_inv_replace:
  assumes "fds_inv ts fs" "p < 16" "fd_inv t' (others ts p) fs'"
  shows "fds_inv (ts[p := Some t']) fs'"
  using assms total_replace [of p ts t'] by (auto simp: fds_inv_def fd_inv_def dest!: set_update_subset_insert [THEN subsetD])

lemma fds_reachable_inv: "fd_reachable ts fs \<Longrightarrow> fds_inv ts fs"
proof (induction rule: fd_reachable.induct)
  case boot
  have "total_count (replicate 16 None) = (\<lambda>_. 0)" by (simp add: fun_eq_iff total_count_def sum_list_replicate)
  then show ?case
    by (auto simp: fds_inv_def files_init_def sizes_ok_def refs_ok_def ofd_get_def pool_init_def)
next
  case (spawn ts fs q)
  have "tot fd_table_new (others ts q) = total_count ts"
    using spawn by (simp add: fun_eq_iff tot_def fd_table_new_def others_def) (metis list_update_id)
  then have "fd_inv fd_table_new (others ts q) fs"
    using spawn others_le [of ts q] by (simp add: fds_inv_def fd_inv_def fd_table_new_def)
  then show ?case using spawn by (intro fds_inv_replace)
next
  case (call ts fs p t op r cur fs')
  have "keeps (others ts p) (r, cur, fs')" using fd_call_keeps [OF fds_inv_process [OF call(5,2,3)], of op] call(4) by simp
  then obtain t' where "cur = Some t'" "fd_inv t' (others ts p) fs'" by (auto simp: keeps_def split: option.splits)
  then show ?case using call by (auto intro: fds_inv_replace)
next
  case (exec ts fs p t t' fs')
  then show ?case using close_inv(2) [OF fds_inv_process [OF exec(5,2,3)]] by (auto intro: fds_inv_replace)
next
  case (fork ts fs p t q c fs')
  obtain fs1 where f: "fork_table t fs = (t, fs1)" "sizes_ok fs1" "refs_ok (tot t (tot t (others ts p))) fs1"
    using fork_table_inv [OF fds_inv_process [OF fork(7,2,3)]] by blast
  have "tot t (others ts p) = others ts q"
    using fork total_split [of p ts t] by (simp add: fds_inv_def fun_eq_iff others_def) (metis list_update_id)
  then have "fd_inv t (others ts q) fs1"
    using f fork others_le [of ts q] nth_mem [of p ts] by (auto simp: fds_inv_def fd_inv_def)
  then show ?case using f(1) fork by (auto intro: fds_inv_replace)
next
  case (exit ts fs p t t' fs')
  then show ?case using close_inv(1) [OF fds_inv_process [OF exit(5,2,3)]] by (auto intro: fds_inv_replace)
next
  case (reap ts fs p)
  have "total_count (ts[p := None]) = total_count ts"
    using total_count_update [of p ts None] reap by (auto simp: fds_inv_def fun_eq_iff)
  then show ?case using reap by (auto simp: fds_inv_def dest!: set_update_subset_insert [THEN subsetD])
qed

section \<open>Properties\<close>

text \<open>C3: Reference counts are exact for any interleaving of opens, closes, duplications, forks,
  execs and exits of up to 16 processes: a live description counts exactly the table entries that
  name it, and at least one does; no entry of any process names a free description.\<close>

theorem descriptor_refcount_exact:
  assumes "fd_reachable ts fs"
  shows "case ofd_get idx fs of
      None \<Rightarrow> total_count ts idx = 0
    | Some d \<Rightarrow> refs d = total_count ts idx \<and> 0 < total_count ts idx"
  using fds_reachable_inv [OF assms] unfolding fds_inv_def refs_ok_def by blast

lemma fd_example:
  obtains ts fs where "fd_reachable ts fs" "ofd_get 0 fs = Some \<lparr>desc = from_vfs 0 7 0, refs = 2\<rparr>"
proof -
  let ?t1 = "fd_table_new[0 := Some \<lparr>ofd = 0, cloexec = False\<rparr>]"
  let ?fs1 = "files_init\<lparr>ofd_table := (replicate MAX_OFDS None)[0 := Some \<lparr>desc = from_vfs 0 7 0, refs = 1\<rparr>]\<rparr>"
  have find0: "find_index Option.is_none (replicate 256 None) = Some 0"
    by (rule find_index_SomeI) simp_all
  have new: "find_index Option.is_none fd_table_new = Some 0" "find_index Option.is_none (ofd_table files_init) = Some 0"
    using find0 by (simp_all add: fd_table_new_def files_init_def fd_sizes)
  have len: "length ?t1 = 256" by (simp add: fd_table_new_def fd_sizes)
  have find1: "find_index Option.is_none ?t1 = Some 1"
    by (rule find_index_SomeI) (use len in \<open>auto simp: fd_table_new_def fd_sizes nth_list_update\<close>)
  have open1: "fd_call (FdOpen (from_vfs 0 7 0) False) (Some fd_table_new) files_init = (0, Some ?t1, ?fs1)"
    using new by (simp add: open_description_def ofd_alloc_def fd_alloc_def files_init_def)
  have dup: "fd_call (FdDup 0) (Some ?t1) ?fs1 = (1, Some (?t1[1 := Some \<lparr>ofd = 0, cloexec = False\<rparr>]), ofd_ref 0 ?fs1)"
    using find1 len by (simp add: sys_dup_def dup_with_def fd_get_def fd_alloc_def fd_sizes)
  let ?ts = "(replicate 16 None)[0 := Some fd_table_new]"
  have r1: "fd_reachable ?ts files_init" by (rule fd_reachable.spawn [OF fd_reachable.boot]) simp_all
  have r2: "fd_reachable (?ts[0 := Some ?t1]) ?fs1" by (rule fd_reachable.call [OF r1 _ _ open1]) simp_all
  have r3: "fd_reachable (?ts[0 := Some ?t1, 0 := Some (?t1[1 := Some \<lparr>ofd = 0, cloexec = False\<rparr>])]) (ofd_ref 0 ?fs1)"
    by (rule fd_reachable.call [OF r2 _ _ dup]) simp_all
  moreover have "ofd_get 0 (ofd_ref 0 ?fs1) = Some \<lparr>desc = from_vfs 0 7 0, refs = 2\<rparr>"
    by (simp add: ofd_ref_def ofd_get_def fd_sizes saturating_add_def USIZE_MOD_def)
  ultimately show thesis by (rule that)
qed

theorem descriptor_refcount_exact_witness:
  "\<exists>ts fs. fd_reachable ts fs \<and> total_count ts 0 = 2"
proof -
  obtain ts fs where e: "fd_reachable ts fs" "ofd_get 0 fs = Some \<lparr>desc = from_vfs 0 7 0, refs = 2\<rparr>" by (rule fd_example)
  then show ?thesis using descriptor_refcount_exact [OF e(1), of 0] by auto
qed

text \<open>C20: \<open>F_SETFL\<close> moves a pipe descriptor to a different pipe: the bit of \<open>O_APPEND\<close> is the middle
  bit of the pipe index in the same flags word, so clearing or setting \<open>O_APPEND\<close> on an end of
  pipe \<open>i\<close> makes it the same end of pipe \<open>i\<close> with that bit cleared or set, whichever process
  owns that pipe.\<close>

theorem setfl_retargets_pipe:
  assumes "resolve_fd (unat fd) (Some t) = Some idx" "ofd_get idx fs = Some d"
    "flags (desc d) = pipe_flags i end_bit" "i < MAX_PIPES" "end_bit = FD_END_READ \<or> end_bit = FD_END_WRITE"
  shows "\<exists>fs' d'. sys_fcntl fd F_SETFL arg (Some t) fs = (0, Some t, fs') \<and> ofd_get idx fs' = Some d' \<and>
    is_pipe_fd (flags (desc d')) \<and> is_write_end (flags (desc d')) = (end_bit = FD_END_WRITE) \<and>
    pipe_idx_from_flags (flags (desc d')) = (if arg AND O_APPEND = 0 then i - (if bit i 1 then 2 else 0) else i + (if bit i 1 then 0 else 2))"
proof -
  let ?fl = "(pipe_flags i end_bit AND NOT O_APPEND) OR (arg AND O_APPEND)"
  have o: "O_APPEND = 2 ^ 10" by (simp add: O_APPEND_def)
  have a: "arg AND O_APPEND = (if bit arg 10 then O_APPEND else 0)"
    unfolding o by (rule bit_word_eqI) (auto simp: bit_and_iff bit_exp_iff simp del: power_numeral)
  have "\<exists>fs' d'. sys_fcntl fd F_SETFL arg (Some t) fs = (0, Some t, fs') \<and> ofd_get idx fs' = Some d' \<and> flags (desc d') = ?fl"
    using assms(1-3) ofd_get_less [OF assms(2)]
    by (auto simp: sys_fcntl_def F_SETFL_def F_GETFD_def F_SETFD_def F_GETFL_def ofd_get_update)
  moreover have "i \<in> {0, 1, 2, 3, 4, 5, 6, 7}" using assms(4) by (auto simp: fd_sizes)
  then have "is_pipe_fd ?fl \<and> is_write_end ?fl = (end_bit = FD_END_WRITE) \<and>
      pipe_idx_from_flags ?fl = (if arg AND O_APPEND = 0 then i - (if bit i 1 then 2 else 0) else i + (if bit i 1 then 0 else 2))"
    using assms(5) unfolding a
    by (elim insertE disjE; cases "bit arg 10")
      (simp_all add: pipe_flags_def is_pipe_fd_def is_write_end_def pipe_idx_from_flags_def const_defs bit_0)
  ultimately show ?thesis by metis
qed

theorem setfl_retargets_pipe_witness:
  "\<exists>fs fs' d'. sys_fcntl 0 F_SETFL O_APPEND (Some [Some \<lparr>ofd = 0, cloexec = False\<rparr>]) fs =
      (0, Some [Some \<lparr>ofd = 0, cloexec = False\<rparr>], fs') \<and> pipe_idx_from_flags (flags (desc (the (ofd_get 0 fs)))) = 0 \<and>
    ofd_get 0 fs' = Some d' \<and> pipe_idx_from_flags (flags (desc d')) = 2"
proof -
  let ?t = "[Some \<lparr>ofd = 0, cloexec = False\<rparr>]"
  let ?d = "\<lparr>desc = file_descriptor_new (pipe_flags 0 FD_END_READ), refs = 1\<rparr>"
  let ?fs = "files_init\<lparr>ofd_table := [Some ?d]\<rparr>"
  have r: "resolve_fd (unat (0 :: u32)) (Some ?t) = Some 0" by (simp add: resolve_fd_def fd_get_def fd_sizes)
  have g: "ofd_get 0 ?fs = Some ?d" by (simp add: ofd_get_def)
  obtain fs' d' where "sys_fcntl 0 F_SETFL O_APPEND (Some ?t) ?fs = (0, Some ?t, fs')" "ofd_get 0 fs' = Some d'"
      "pipe_idx_from_flags (flags (desc d')) = 2"
    using setfl_retargets_pipe [OF r g, of 0 FD_END_READ O_APPEND] by (auto simp: file_descriptor_new_def fd_sizes O_APPEND_def)
  moreover have "pipe_idx_from_flags (flags (desc (the (ofd_get 0 ?fs)))) = 0"
    using g by (simp add: file_descriptor_new_def pipe_idx_from_flags_def pipe_flags_def const_defs)
  ultimately show ?thesis by blast
qed

text \<open>C21: A regular file opened write-only is taken for a pipe end: the access mode \<open>O_WRONLY\<close> in the
  stored flags is the pipe kind, so closing the last descriptor of such a file closes the read end
  of pipe 0, a pipe the process need not own, and frees it when the write end is closed already.\<close>

theorem close_of_write_only_file_closes_pipe:
  assumes "fd_get (unat fd) t = Some e" "ofd_get (ofd e) fs = Some \<lparr>desc = from_vfs mount inode 1, refs = 1\<rparr>"
    "pipe_pool fs ! 0 = Some b" "0 < length (pipe_pool fs)"
  shows "\<exists>t' fs'. sys_close fd (Some t) fs = (0, Some t', fs') \<and>
    pipe_pool fs' ! 0 = (if write_closed b then None else Some (b\<lparr>read_closed := True\<rparr>))"
proof -
  have "on_pipe_fd_closed 0 False (pipe_pool fs) = (pipe_pool fs)[0 := close_end False b]"
    using assms(3,4) by (rule on_pipe_fd_closed_Some [rotated])
  moreover have k: "is_pipe_fd 1" "\<not> is_socket_fd 1" "pipe_idx_from_flags 1 = 0" "\<not> is_write_end 1"
    by (simp_all add: is_pipe_fd_def is_socket_fd_def pipe_idx_from_flags_def is_write_end_def const_defs)
  moreover have "fd_take (unat fd) t = (Some e, t[unat fd := None])"
    using assms(1) by (simp add: fd_get_def fd_take_def split: if_splits)
  ultimately show ?thesis
    using assms by (simp add: sys_close_def ofd_unref_def close_description_def from_vfs_def close_end_def)
qed

theorem close_of_write_only_file_closes_pipe_witness:
  "\<exists>t' fs'. sys_close 0 (Some [Some \<lparr>ofd = 0, cloexec = False\<rparr>])
      (files_init\<lparr>ofd_table := [Some \<lparr>desc = from_vfs 0 7 1, refs = 1\<rparr>], pipe_pool := [Some (pipe_buffer_new 3)]\<rparr>) = (0, Some t', fs') \<and>
    pipe_pool fs' ! 0 = Some ((pipe_buffer_new 3)\<lparr>read_closed := True\<rparr>)"
  using close_of_write_only_file_closes_pipe
    [of 0 "[Some \<lparr>ofd = 0, cloexec = False\<rparr>]" "\<lparr>ofd = 0, cloexec = False\<rparr>"
      "files_init\<lparr>ofd_table := [Some \<lparr>desc = from_vfs 0 7 1, refs = 1\<rparr>], pipe_pool := [Some (pipe_buffer_new 3)]\<rparr>" 0 7 "pipe_buffer_new 3"]
  by (auto simp: fd_get_def fd_sizes ofd_get_def pipe_buffer_new_def)

end
