(* ===== verification/Futex.thy ===== *)
theory Futex
  imports Prelude
begin

text \<open>
  The waiter table of \<open>futex.rs\<close>: a fixed array of slots that name a waiting process, the address it
  waits on and the page table that address belongs to. The blocking and waking of processes is a
  parameter here (\<open>set_ready\<close>); the syscalls that supply it are in \<open>Process\<close>.
\<close>

section \<open>Model\<close>

definition FUTEX_WAIT :: u32 where "FUTEX_WAIT = 0"
definition FUTEX_WAKE :: u32 where "FUTEX_WAKE = 1"
definition MAX_FUTEX_WAITERS :: nat where "MAX_FUTEX_WAITERS = 32"

record futex_waiter =
  fw_addr :: u32
  fw_address_space :: usize
  fw_pid :: pid

type_synonym waiters = "futex_waiter option list"

definition waiters_init :: waiters where
  "waiters_init = replicate MAX_FUTEX_WAITERS None"

definition table_full :: "waiters \<Rightarrow> bool" where
  "table_full ws = list_all (\<lambda>s. s \<noteq> None) ws"

definition register_waiter :: "futex_waiter \<Rightarrow> waiters \<Rightarrow> waiters option" where
  "register_waiter w ws =
    (case find_index Option.is_none ws of
       None \<Rightarrow> None
     | Some i \<Rightarrow> Some (ws[i := Some w]))"

definition waits_on :: "u32 \<Rightarrow> usize \<Rightarrow> futex_waiter option \<Rightarrow> bool" where
  "waits_on addr space slot =
    (case slot of None \<Rightarrow> False | Some w \<Rightarrow> fw_addr w = addr \<and> fw_address_space w = space)"

text \<open>One pass over the slots; \<open>woken\<close> counts up to \<open>max_wake\<close>, then the loop stops.\<close>

fun wake_loop :: "(pid \<Rightarrow> 's \<Rightarrow> 's) \<Rightarrow> u32 \<Rightarrow> usize \<Rightarrow> u32 \<Rightarrow> u32 \<Rightarrow> waiters \<Rightarrow> 's \<Rightarrow> u32 \<times> waiters \<times> 's" where
  "wake_loop set_ready addr space max_wake woken [] s = (woken, [], s)"
| "wake_loop set_ready addr space max_wake woken (slot # ws) s =
    (if max_wake \<le> woken then (woken, slot # ws, s)
     else if waits_on addr space slot then
       let s = set_ready (fw_pid (the slot)) s;
           (n, ws, s) = wake_loop set_ready addr space max_wake (woken + 1) ws s
       in (n, None # ws, s)
     else
       let (n, ws, s) = wake_loop set_ready addr space max_wake woken ws s
       in (n, slot # ws, s))"

definition wake_waiters_for_address_space :: "(pid \<Rightarrow> 's \<Rightarrow> 's) \<Rightarrow> u32 \<Rightarrow> u32 \<Rightarrow> usize \<Rightarrow> waiters \<Rightarrow> 's \<Rightarrow> u32 \<times> waiters \<times> 's" where
  "wake_waiters_for_address_space set_ready addr max_wake space ws s = wake_loop set_ready addr space max_wake 0 ws s"

definition free_waiters_for_pid :: "pid \<Rightarrow> waiters \<Rightarrow> waiters" where
  "free_waiters_for_pid p ws =
    map (\<lambda>slot. case slot of None \<Rightarrow> None | Some w \<Rightarrow> if fw_pid w = p then None else Some w) ws"

section \<open>What a wake does\<close>

text \<open>The reference: the first \<open>n\<close> waiters on the address in the address space, in slot order.\<close>

definition matching :: "u32 \<Rightarrow> usize \<Rightarrow> waiters \<Rightarrow> pid list" where
  "matching addr space ws = map (\<lambda>slot. fw_pid (the slot)) (filter (waits_on addr space) ws)"

lemma matching_simps [simp]:
  "matching addr space [] = []"
  "matching addr space (slot # ws) =
    (if waits_on addr space slot then fw_pid (the slot) # matching addr space ws else matching addr space ws)"
  by (simp_all add: matching_def)

lemma table_full_iff: "table_full ws \<longleftrightarrow> register_waiter w ws = None"
proof -
  have "table_full ws \<longleftrightarrow> find_index Option.is_none ws = None"
    unfolding find_index_is_none table_full_def list_all_iff by metis
  then show ?thesis by (auto simp: register_waiter_def simp del: find_index_None_iff split: option.splits)
qed

definition kept :: "u32 \<Rightarrow> usize \<Rightarrow> futex_waiter option \<Rightarrow> futex_waiter option \<Rightarrow> bool" where
  "kept addr space a b \<longleftrightarrow> b = a \<or> waits_on addr space a \<and> b = None"

lemma kept_refl: "list_all2 (kept addr space) ws ws"
  by (rule list_all2_refl) (simp add: kept_def)

lemma wake_loop_spec:
  assumes "unat woken + length ws < 2 ^ 32" "wake_loop set_ready addr space max_wake woken ws s = (n, ws', s')"
  defines "k \<equiv> min (unat max_wake - unat woken) (length (matching addr space ws))"
  shows "unat n = unat woken + k \<and> s' = fold set_ready (take k (matching addr space ws)) s \<and>
      matching addr space ws' = drop k (matching addr space ws) \<and> list_all2 (kept addr space) ws ws'"
  using assms(1,2) unfolding k_def
proof (induction ws arbitrary: woken s n ws' s')
  case (Cons slot ws)
  show ?case
  proof (cases "max_wake \<le> woken")
    case True
    then have "unat max_wake - unat woken = 0" by (simp add: word_le_nat_alt)
    then show ?thesis using True Cons.prems(2) kept_refl by simp
  next
    case False
    then have less: "unat woken < unat max_wake" by (simp add: word_le_nat_alt not_le)
    show ?thesis
    proof (cases "waits_on addr space slot")
      case True
      obtain ws1 where w: "wake_loop set_ready addr space max_wake (woken + 1) ws (set_ready (fw_pid (the slot)) s) = (n, ws1, s')" "ws' = None # ws1"
        using Cons.prems(2) True False by (auto simp: Let_def split: prod.splits)
      have up: "unat (woken + 1) = unat woken + 1" using Cons.prems(1) by (simp add: unat_word_ariths)
      have "unat max_wake - unat woken = Suc (unat max_wake - unat (woken + 1))" using less up by simp
      moreover have "unat (woken + 1) + length ws < 2 ^ 32" using Cons.prems(1) up by simp
      note Cons.IH [OF this w(1)]
      ultimately show ?thesis using w(2) True up by (simp add: kept_def waits_on_def)
    next
      case no: False
      obtain ws1 where w: "wake_loop set_ready addr space max_wake woken ws s = (n, ws1, s')" "ws' = slot # ws1"
        using Cons.prems(2) False no by (auto simp: Let_def split: prod.splits)
      have "unat woken + length ws < 2 ^ 32" using Cons.prems(1) by simp
      from Cons.IH [OF this w(1)] show ?thesis using w(2) no by (simp add: kept_def)
    qed
  qed
qed simp

section \<open>Properties\<close>

text \<open>C29: \<open>FUTEX_WAKE\<close> wakes exactly the first \<open>max_wake\<close> waiters on the address in the caller's own
  address space, in slot order, returns their number and frees their slots; every waiter on
  another address or in another address space keeps its slot.\<close>

theorem futex_wake_exact:
  assumes "length ws \<le> MAX_FUTEX_WAITERS" "wake_waiters_for_address_space set_ready addr max_wake space ws s = (n, ws', s')"
  defines "k \<equiv> min (unat max_wake) (length (matching addr space ws))"
  shows "unat n = k \<and> s' = fold set_ready (take k (matching addr space ws)) s \<and>
    matching addr space ws' = drop k (matching addr space ws) \<and> list_all2 (kept addr space) ws ws'"
  using wake_loop_spec [of 0 ws set_ready addr space max_wake s n ws' s'] assms
  by (simp add: wake_waiters_for_address_space_def MAX_FUTEX_WAITERS_def)

theorem futex_wake_exact_witness:
  "fst (wake_waiters_for_address_space (\<lambda>p ps. ps @ [p]) 64 1 7
     [Some \<lparr>fw_addr = 64, fw_address_space = 9, fw_pid = 3\<rparr>, Some \<lparr>fw_addr = 64, fw_address_space = 7, fw_pid = 4\<rparr>] []) = 1 \<and>
   list_all2 (kept 64 7) [Some \<lparr>fw_addr = 64, fw_address_space = 9, fw_pid = 3\<rparr>, Some \<lparr>fw_addr = 64, fw_address_space = 7, fw_pid = 4\<rparr>]
     [Some \<lparr>fw_addr = 64, fw_address_space = 9, fw_pid = 3\<rparr>, None]"
proof -
  let ?ws = "[Some \<lparr>fw_addr = 64, fw_address_space = 9, fw_pid = 3\<rparr>, Some \<lparr>fw_addr = 64, fw_address_space = 7, fw_pid = 4\<rparr>]"
  have e: "wake_waiters_for_address_space (\<lambda>p ps. ps @ [p]) 64 1 7 ?ws [] =
     (1, [Some \<lparr>fw_addr = 64, fw_address_space = 9, fw_pid = 3\<rparr>, None], [4])"
    by (simp add: wake_waiters_for_address_space_def waits_on_def)
  have "length ?ws \<le> MAX_FUTEX_WAITERS" by (simp add: MAX_FUTEX_WAITERS_def)
  then have "list_all2 (kept 64 7) ?ws [Some \<lparr>fw_addr = 64, fw_address_space = 9, fw_pid = 3\<rparr>, None]"
    using futex_wake_exact [OF _ e] by blast
  then show ?thesis using e by simp
qed

end
