(* ===== verification/Process.thy ===== *)
theory Process
  imports Capability Ipc Signal Supervisor Memguard Fd Futex
begin

text \<open>
  The process table of \<open>process.rs\<close> and the kernel state around it. \<open>kernel\<close> gathers the statics of
  the kernel modules: the process table and the scheduler's words, the page allocator, the page
  tables, the descriptor tables, the futex waiters, the inboxes, the fault supervisor and the tick
  counter. A process control block is a record with the fields of \<open>Process\<close>; its \<open>cwd\<close> is the first
  \<open>cwd_len\<close> bytes of the array. \<open>active_frame\<close> is the trap frame, \<open>None\<close> outside a trap.

  This theory holds the accessors, the scheduler and context switch, waiting, signals and futexes;
  the operations that build and tear down address spaces are in \<open>Lifecycle\<close>.
\<close>

section \<open>State\<close>

definition MAX_PROCS :: nat where "MAX_PROCS = 16"
definition MAX_MAPPINGS :: nat where "MAX_MAPPINGS = 32"
definition DEFAULT_HEAP_BREAK :: usize where "DEFAULT_HEAP_BREAK = 0x10000000"
definition MMAP_BASE :: usize where "MMAP_BASE = 0x20000000"
definition STACK_PAGES :: nat where "STACK_PAGES = 4"
definition CWD_MAX :: nat where "CWD_MAX = 256"

lemma process_sizes [const_defs]: "MAX_PROCS = 16" "MAX_MAPPINGS = 32" "STACK_PAGES = 4" "CWD_MAX = 256"
    "DEFAULT_HEAP_BREAK = 0x10000000" "MMAP_BASE = 0x20000000"
  by (simp_all add: MAX_PROCS_def MAX_MAPPINGS_def STACK_PAGES_def CWD_MAX_def DEFAULT_HEAP_BREAK_def MMAP_BASE_def)

datatype pstate = Free | Ready | Running | Blocked | Sleeping | Dead

record vm_mapping =
  vm_start :: usize
  vm_pages :: nat
  vm_prot :: u32

record process =
  p_pid :: pid
  p_state :: pstate
  p_ctx :: cpu_context
  p_parent :: "pid option"
  exit_status :: i32
  page_table_phys :: usize
  stack_base :: usize
  stack_pages :: nat
  heap_break :: usize
  mappings :: "vm_mapping option list"
  sig_state :: signal_state
  uid :: u32
  wake_tick :: u64
  capabilities :: u32
  fds :: fd_table
  cwd :: "u8 list"

record kernel =
  procs :: "process option list"
  current :: pid
  scheduling_enabled :: bool
  active_frame :: "cpu_context option"
  frame_switched :: bool
  pages :: page_state
  mmu :: mmu_state
  files :: files
  futex_waiters :: waiters
  inboxes :: "inbox list"
  supervision :: supervisor
  ticks :: u64

abbreviation cur_proc :: "kernel \<Rightarrow> process option" where
  "cur_proc k \<equiv> procs k ! current k"

text \<open>\<open>procs[i].as_mut().map(f)\<close>\<close>

definition upd_proc :: "pid \<Rightarrow> (process \<Rightarrow> process) \<Rightarrow> kernel \<Rightarrow> kernel" where
  "upd_proc i f k = k\<lparr>procs := (procs k)[i := map_option f (procs k ! i)]\<rparr>"

definition DEFAULT_CWD :: "u8 list" where
  "DEFAULT_CWD = [47]"

definition process_init :: "kernel \<Rightarrow> kernel" where
  "process_init k =
    k\<lparr>procs := (procs k)[0 := Some \<lparr>p_pid = 0, p_state = Running, p_ctx = context_zero, p_parent = None,
        exit_status = 0, page_table_phys = table_base (mmu k), stack_base = 0, stack_pages = 0,
        heap_break = DEFAULT_HEAP_BREAK, mappings = replicate MAX_MAPPINGS None, sig_state = signal_state_new,
        uid = 0, wake_tick = 0, capabilities = CAP_ALL, fds = fd_table_new, cwd = DEFAULT_CWD\<rparr>],
      current := 0\<rparr>"

definition enable_scheduling :: "kernel \<Rightarrow> kernel" where
  "enable_scheduling k = k\<lparr>scheduling_enabled := True\<rparr>"

section \<open>Accessors\<close>

definition current_pid :: "kernel \<Rightarrow> pid" where
  "current_pid k = current k"

definition get_state :: "pid \<Rightarrow> kernel \<Rightarrow> pstate option" where
  "get_state p k = (if MAX_PROCS \<le> p then None else map_option p_state (procs k ! p))"

definition set_state :: "pid \<Rightarrow> pstate \<Rightarrow> kernel \<Rightarrow> kernel" where
  "set_state p st k = (if MAX_PROCS \<le> p then k else upd_proc p (\<lambda>x. x\<lparr>p_state := st\<rparr>) k)"

definition current_page_table :: "kernel \<Rightarrow> usize" where
  "current_page_table k = (case cur_proc k of None \<Rightarrow> 0 | Some p \<Rightarrow> page_table_phys p)"

definition current_user_page_table :: "kernel \<Rightarrow> usize option" where
  "current_user_page_table k =
    (let pt = current_page_table k in
     if current_pid k = 0 \<or> pt = 0 \<or> pt = table_base (mmu k) then None else Some pt)"

definition current_heap_break :: "kernel \<Rightarrow> usize" where
  "current_heap_break k = (case cur_proc k of None \<Rightarrow> DEFAULT_HEAP_BREAK | Some p \<Rightarrow> heap_break p)"

definition set_heap_break :: "usize \<Rightarrow> kernel \<Rightarrow> kernel" where
  "set_heap_break b k = upd_proc (current k) (\<lambda>p. p\<lparr>heap_break := b\<rparr>) k"

definition add_mapping :: "vm_mapping \<Rightarrow> kernel \<Rightarrow> nat option \<times> kernel" where
  "add_mapping m k =
    (case cur_proc k of
       None \<Rightarrow> (None, k)
     | Some p \<Rightarrow>
        (case find_index Option.is_none (mappings p) of
           None \<Rightarrow> (None, k)
         | Some slot \<Rightarrow> (Some slot, upd_proc (current k) (\<lambda>p. p\<lparr>mappings := (mappings p)[slot := Some m]\<rparr>) k)))"

definition starts_at :: "usize \<Rightarrow> vm_mapping option \<Rightarrow> bool" where
  "starts_at a slot = (case slot of None \<Rightarrow> False | Some m \<Rightarrow> vm_start m = a)"

definition remove_mapping :: "usize \<Rightarrow> kernel \<Rightarrow> vm_mapping option \<times> kernel" where
  "remove_mapping start_addr k =
    (case cur_proc k of
       None \<Rightarrow> (None, k)
     | Some p \<Rightarrow>
        (case find_index (starts_at start_addr) (mappings p) of
           None \<Rightarrow> (None, k)
         | Some slot \<Rightarrow> (mappings p ! slot, upd_proc (current k) (\<lambda>p. p\<lparr>mappings := (mappings p)[slot := None]\<rparr>) k)))"

definition find_mapping :: "usize \<Rightarrow> kernel \<Rightarrow> vm_mapping option" where
  "find_mapping start_addr k =
    (case cur_proc k of
       None \<Rightarrow> None
     | Some p \<Rightarrow> (case find_index (starts_at start_addr) (mappings p) of None \<Rightarrow> None | Some slot \<Rightarrow> mappings p ! slot))"

definition update_mapping_prot :: "usize \<Rightarrow> u32 \<Rightarrow> kernel \<Rightarrow> bool \<times> kernel" where
  "update_mapping_prot start_addr new_prot k =
    (case cur_proc k of
       None \<Rightarrow> (False, k)
     | Some p \<Rightarrow>
        (case find_index (starts_at start_addr) (mappings p) of
           None \<Rightarrow> (False, k)
         | Some slot \<Rightarrow> (True, upd_proc (current k)
             (\<lambda>p. p\<lparr>mappings := (mappings p)[slot := map_option (\<lambda>m. m\<lparr>vm_prot := new_prot\<rparr>) (mappings p ! slot)]\<rparr>) k)))"

definition current_uid :: "kernel \<Rightarrow> u32 option" where
  "current_uid k = map_option uid (cur_proc k)"

definition current_capabilities :: "kernel \<Rightarrow> u32" where
  "current_capabilities k = (case cur_proc k of None \<Rightarrow> FORK_DEFAULT | Some p \<Rightarrow> capabilities p)"

definition set_wake_tick :: "u64 \<Rightarrow> kernel \<Rightarrow> kernel" where
  "set_wake_tick t k = upd_proc (current k) (\<lambda>p. p\<lparr>wake_tick := t, p_state := Sleeping\<rparr>) k"

definition clear_wake_tick :: "kernel \<Rightarrow> kernel" where
  "clear_wake_tick k = upd_proc (current k) (\<lambda>p. p\<lparr>wake_tick := 0, p_state := Running\<rparr>) k"

definition with_current_cwd :: "kernel \<Rightarrow> u8 list option" where
  "with_current_cwd k = map_option cwd (cur_proc k)"

definition set_current_cwd :: "u8 list \<Rightarrow> kernel \<Rightarrow> kernel" where
  "set_current_cwd path k = upd_proc (current k) (\<lambda>p. p\<lparr>cwd := take CWD_MAX path\<rparr>) k"

text \<open>\<open>with_current_fds\<close>: an operation on the current table and the shared tables.\<close>

definition with_fds :: "(fd_table option \<Rightarrow> files \<Rightarrow> 'r \<times> fd_table option \<times> files) \<Rightarrow> kernel \<Rightarrow> 'r \<times> kernel" where
  "with_fds f k =
    (let (r, t, fs) = f (map_option fds (cur_proc k)) (files k) in
     (r, upd_proc (current k) (\<lambda>p. case t of None \<Rightarrow> p | Some t \<Rightarrow> p\<lparr>fds := t\<rparr>) (k\<lparr>files := fs\<rparr>)))"

section \<open>Scheduling\<close>

definition wake_sleepers :: "kernel \<Rightarrow> kernel" where
  "wake_sleepers k =
    k\<lparr>procs := map (map_option (\<lambda>p. if p_state p = Sleeping \<and> wake_tick p \<le> ticks k then p\<lparr>p_state := Ready\<rparr> else p)) (procs k)\<rparr>"

definition is_ready :: "process option \<Rightarrow> bool" where
  "is_ready slot = (case slot of None \<Rightarrow> False | Some p \<Rightarrow> p_state p = Ready)"

definition schedule :: "kernel \<Rightarrow> pid \<times> kernel" where
  "schedule k =
    (let k = wake_sleepers k in
     (case find (\<lambda>off. is_ready (procs k ! ((current k + off) mod MAX_PROCS))) [1..<MAX_PROCS] of
        None \<Rightarrow> current k
      | Some off \<Rightarrow> p_pid (the (procs k ! ((current k + off) mod MAX_PROCS))),
      k))"

definition trap_enter :: "cpu_context \<Rightarrow> kernel \<Rightarrow> kernel" where
  "trap_enter frame k = k\<lparr>active_frame := Some frame, frame_switched := False\<rparr>"

definition trap_leave :: "kernel \<Rightarrow> kernel" where
  "trap_leave k = k\<lparr>active_frame := None\<rparr>"

definition trap_switched :: "kernel \<Rightarrow> bool" where
  "trap_switched k = frame_switched k"

definition active_frame_ctx_or :: "cpu_context \<Rightarrow> kernel \<Rightarrow> cpu_context" where
  "active_frame_ctx_or fallback k = (case active_frame k of None \<Rightarrow> fallback | Some f \<Rightarrow> f)"

definition set_trap_return :: "u32 \<Rightarrow> kernel \<Rightarrow> kernel" where
  "set_trap_return val k = k\<lparr>active_frame := map_option (\<lambda>f. f\<lparr>ctx_r := (ctx_r f)[0 := val]\<rparr>) (active_frame k)\<rparr>"

definition switch_to :: "pid \<Rightarrow> kernel \<Rightarrow> kernel" where
  "switch_to next_pid k =
    (if current k = next_pid then k
     else
       let frame = active_frame k;
           k = upd_proc (current k) (\<lambda>p.
             let p = (case frame of None \<Rightarrow> p | Some f \<Rightarrow> p\<lparr>p_ctx := f\<rparr>)
             in if p_state p = Running then p\<lparr>p_state := Ready\<rparr> else p) k
       in case procs k ! next_pid of
            None \<Rightarrow> k
          | Some n \<Rightarrow>
             let k = (upd_proc next_pid (\<lambda>p. p\<lparr>p_state := Running\<rparr>) k)\<lparr>current := next_pid\<rparr>;
                 k = (if page_table_phys n \<noteq> 0 then k\<lparr>mmu := switch_addr_space (page_table_phys n) (mmu k)\<rparr> else k)
             in (case frame of None \<Rightarrow> k | Some f \<Rightarrow> k\<lparr>active_frame := Some (p_ctx n), frame_switched := True\<rparr>))"

text \<open>The step every blocking syscall ends with: reschedule, and if another process is chosen deposit
  the return value 0 in the caller's frame and switch.\<close>

definition yield_to_next :: "kernel \<Rightarrow> kernel" where
  "yield_to_next k =
    (let (next_pid, k) = schedule k in
     if next_pid \<noteq> current_pid k then switch_to next_pid (set_trap_return 0 k) else k)"

definition sys_yield :: "kernel \<Rightarrow> u32 \<times> kernel" where
  "sys_yield k = (0, yield_to_next k)"

definition sys_sleep :: "u32 \<Rightarrow> kernel \<Rightarrow> u32 \<times> kernel" where
  "sys_sleep ms k =
    (let ticks_needed = (unat ms + 9) div 10;
         wake = of_nat (min (unat (ticks k) + ticks_needed) (2 ^ 64 - 1));
         k = set_wake_tick wake k;
         (next_pid, k) = schedule k
     in if next_pid = current_pid k then (0, clear_wake_tick k)
        else (0, switch_to next_pid (set_trap_return 0 k)))"

text \<open>The scheduler part of the timer interrupt: count the tick, then reschedule once boot is over.\<close>

definition timer_tick :: "kernel \<Rightarrow> kernel" where
  "timer_tick k =
    (let k = k\<lparr>ticks := ticks k + 1\<rparr> in
     if scheduling_enabled k then
       let (next_pid, k) = schedule k in
       if next_pid \<noteq> current_pid k then switch_to next_pid k else k
     else k)"

section \<open>Waiting\<close>

definition waitpid :: "pid \<Rightarrow> kernel \<Rightarrow> i32 option \<times> kernel" where
  "waitpid child_pid k =
    (if MAX_PROCS \<le> child_pid then (None, k)
     else case procs k ! child_pid of
       None \<Rightarrow> (None, k)
     | Some child \<Rightarrow>
        if p_parent child \<noteq> Some (current k) then (None, k)
        else if p_state child \<noteq> Dead then (None, k)
        else (Some (exit_status child), k\<lparr>procs := (procs k)[child_pid := None]\<rparr>))"

definition reap_dead_children :: "kernel \<Rightarrow> nat \<times> kernel" where
  "reap_dead_children k =
    fold (\<lambda>p (reaped, k). case waitpid p k of (Some _, k) \<Rightarrow> (Suc reaped, k) | (None, k) \<Rightarrow> (reaped, k))
      [0..<MAX_PROCS] (0, k)"

definition sys_waitpid :: "u32 \<Rightarrow> kernel \<Rightarrow> u32 \<times> kernel" where
  "sys_waitpid arg0 k =
    (if 256 \<le> unat arg0 then (err EINVAL, k)
     else case waitpid (unat arg0) k of
       (Some status, k) \<Rightarrow> (if bit status 31 then err EINVAL else status, k)
     | (None, k) \<Rightarrow> (-1, k))"

section \<open>Faults\<close>

fun fault_words :: "fault_kind \<Rightarrow> u8 \<times> u32 \<times> u32" where
  "fault_words (DataAbort addr status) = (1, addr, status)"
| "fault_words (PrefetchAbort addr status) = (2, addr, status)"
| "fault_words UndefinedInstruction = (3, 0, 0)"

definition close_fds :: "pid \<Rightarrow> kernel \<Rightarrow> kernel" where
  "close_fds i k =
    (case procs k ! i of
       None \<Rightarrow> k
     | Some p \<Rightarrow> (let (t, fs) = close_all (fds p) (files k) in upd_proc i (\<lambda>p. p\<lparr>fds := t\<rparr>) (k\<lparr>files := fs\<rparr>)))"

definition notify_fault :: "pid \<Rightarrow> fault_kind \<Rightarrow> kernel \<Rightarrow> kernel" where
  "notify_fault p kind k =
    (let (tag, addr, status) = fault_words kind;
         k = close_fds p (upd_proc p (\<lambda>x. x\<lparr>p_state := Dead\<rparr>) k)
     in k\<lparr>supervision := report_fault p tag addr status (supervision k)\<rparr>)"

section \<open>Signals\<close>

definition set_signal_action :: "signal \<Rightarrow> signal_action \<Rightarrow> kernel \<Rightarrow> kernel" where
  "set_signal_action sig act k = upd_proc (current k) (\<lambda>p. p\<lparr>sig_state := set_action sig act (sig_state p)\<rparr>) k"

definition get_signal_action :: "signal \<Rightarrow> kernel \<Rightarrow> signal_action" where
  "get_signal_action sig k = (case cur_proc k of None \<Rightarrow> ActDefault | Some p \<Rightarrow> action sig (sig_state p))"

text \<open>The termination that both \<open>SIGKILL\<close> and a default action perform.\<close>

definition terminate_process :: "pid \<Rightarrow> kernel \<Rightarrow> kernel" where
  "terminate_process p k =
    (let k = close_fds p (upd_proc p (\<lambda>x. x\<lparr>p_state := Dead\<rparr>) k)
     in k\<lparr>futex_waiters := free_waiters_for_pid p (futex_waiters k), supervision := clear_pid p (supervision k)\<rparr>)"

definition deliver_signal_to :: "pid \<Rightarrow> signal \<Rightarrow> kernel \<Rightarrow> u32 \<times> kernel" where
  "deliver_signal_to p sig k =
    (if p = 0 then (err EPERM, k)
     else if MAX_PROCS \<le> p then (err ESRCH, k)
     else case procs k ! p of
       None \<Rightarrow> (err ESRCH, k)
     | Some x \<Rightarrow>
        if p_state x = Dead then (err ESRCH, k)
        else if sig = Sigkill then (0, terminate_process p k)
        else (case action sig (sig_state x) of
                ActHandler _ \<Rightarrow> (0, upd_proc p (\<lambda>x. x\<lparr>sig_state := set_pending sig (sig_state x)\<rparr>) k)
              | ActIgnore \<Rightarrow> (0, k)
              | ActDefault \<Rightarrow>
                 (case default_action sig of
                    Terminate \<Rightarrow> (0, terminate_process p k)
                  | Ignore \<Rightarrow> (0, k))))"

definition sys_sigaction :: "u32 \<Rightarrow> u32 \<Rightarrow> kernel \<Rightarrow> u32 \<times> kernel" where
  "sys_sigaction signum handler_ptr k =
    (case signal_from_u32 (unat signum) of
       None \<Rightarrow> (err EINVAL, k)
     | Some sig \<Rightarrow>
        if \<not> can_catch sig \<and> handler_ptr \<noteq> SIG_DFL then (err EPERM, k)
        else (0, set_signal_action sig (sigaction_action handler_ptr) k))"

definition sys_kill :: "u32 \<Rightarrow> u32 \<Rightarrow> kernel \<Rightarrow> u32 \<times> kernel" where
  "sys_kill p signum k =
    (case signal_from_u32 (unat signum) of
       None \<Rightarrow> (err EINVAL, k)
     | Some sig \<Rightarrow>
        if 256 \<le> unat p then (err ESRCH, k)
        else if p = 0 then (err EPERM, k)
        else if unat p \<noteq> current_pid k then
          (case cap_check (current_capabilities k) KILL of
             Inl e \<Rightarrow> (err e, k)
           | Inr _ \<Rightarrow> deliver_signal_to (unat p) sig k)
        else deliver_signal_to (unat p) sig k)"

definition reset_signal_state :: "kernel \<Rightarrow> kernel" where
  "reset_signal_state k = upd_proc (current k) (\<lambda>p. p\<lparr>sig_state := signal_state_new\<rparr>) k"

definition clear_pending_for_current :: "signal \<Rightarrow> kernel \<Rightarrow> kernel" where
  "clear_pending_for_current sig k = upd_proc (current k) (\<lambda>p. p\<lparr>sig_state := clear_pending sig (sig_state p)\<rparr>) k"

definition check_pending_signal :: "kernel \<Rightarrow> (signal \<times> u32) option" where
  "check_pending_signal k =
    (case cur_proc k of
       None \<Rightarrow> None
     | Some p \<Rightarrow>
        (case next_pending (sig_state p) of
           None \<Rightarrow> None
         | Some sig \<Rightarrow> (case action sig (sig_state p) of ActHandler addr \<Rightarrow> Some (sig, addr) | _ \<Rightarrow> None)))"

section \<open>User memory of the current process\<close>

definition user_read :: "usize \<Rightarrow> nat \<Rightarrow> kernel \<Rightarrow> user_access_error + u8 list" where
  "user_read src len k = copy_from_user (current_user_page_table k) (mmu k) (phys_mem (pages k)) src len"

definition user_write :: "usize \<Rightarrow> u8 list \<Rightarrow> kernel \<Rightarrow> (user_access_error + unit) \<times> kernel" where
  "user_write dst src k =
    (let (r, ram) = copy_to_user (current_user_page_table k) (mmu k) dst src (phys_mem (pages k))
     in (r, k\<lparr>pages := (pages k)\<lparr>phys_mem := ram\<rparr>\<rparr>))"

text \<open>Delivery of a signal into the interrupted context, and its reversal by \<open>sigreturn\<close>.\<close>

definition deliver :: "cpu_context \<Rightarrow> signal \<Rightarrow> u32 \<Rightarrow> kernel \<Rightarrow> (user_access_error + cpu_context) \<times> kernel" where
  "deliver frame sig handler k =
    (case signal_frame_address (ctx_sp frame) of
       None \<Rightarrow> (Inl UserAccessError, k)
     | Some fa \<Rightarrow>
        (case user_write (unat fa) (encode_signal_frame frame) k of
           (Inl e, k) \<Rightarrow> (Inl e, k)
         | (Inr _, k) \<Rightarrow>
            (Inr (frame\<lparr>ctx_sp := fa, ctx_pc := handler, ctx_lr := of_nat SIGNAL_TRAMPOLINE_VA,
                        ctx_r := (ctx_r frame)[0 := of_nat (signal_num sig)]\<rparr>),
             clear_pending_for_current sig k)))"

definition sigreturn_frame :: "cpu_context \<Rightarrow> kernel \<Rightarrow> user_access_error + cpu_context" where
  "sigreturn_frame frame k =
    (case user_read (unat (ctx_sp frame)) SIGNAL_FRAME_SIZE k of
       Inl e \<Rightarrow> Inl e
     | Inr encoded \<Rightarrow> (case decode_signal_frame encoded of None \<Rightarrow> Inl UserAccessError | Some c \<Rightarrow> Inr c))"

section \<open>Futex syscalls\<close>

definition sys_futex_wait :: "u32 \<Rightarrow> u32 \<Rightarrow> kernel \<Rightarrow> u32 \<times> kernel" where
  "sys_futex_wait addr val k =
    (case user_read (unat addr) 4 k of
       Inl _ \<Rightarrow> (err EFAULT, k)
     | Inr encoded \<Rightarrow>
        if decode_words encoded \<noteq> [val] then (err EAGAIN, k)
        else if table_full (futex_waiters k) then (err ENOMEM, k)
        else
          let p = current_pid k;
              w = \<lparr>fw_addr = addr, fw_address_space = current_page_table k, fw_pid = p\<rparr>
          in case register_waiter w (futex_waiters k) of
               None \<Rightarrow> (err ENOMEM, k)
             | Some ws \<Rightarrow> (0, yield_to_next (set_state p Blocked (k\<lparr>futex_waiters := ws\<rparr>))))"

definition sys_futex_wake :: "u32 \<Rightarrow> u32 \<Rightarrow> kernel \<Rightarrow> u32 \<times> kernel" where
  "sys_futex_wake addr max_wake k =
    (if addr = 0 then (0, k)
     else
       let (n, ws, k) = wake_waiters_for_address_space (\<lambda>p. set_state p Ready) addr max_wake (current_page_table k) (futex_waiters k) k
       in (n, k\<lparr>futex_waiters := ws\<rparr>))"

definition sys_futex :: "u32 \<Rightarrow> u32 \<Rightarrow> u32 \<Rightarrow> kernel \<Rightarrow> u32 \<times> kernel" where
  "sys_futex addr op val k =
    (if op = FUTEX_WAIT then sys_futex_wait addr val k
     else if op = FUTEX_WAKE then sys_futex_wake addr val k
     else (err EINVAL, k))"

section \<open>IPC syscalls\<close>

definition sys_send :: "u32 \<Rightarrow> u32 \<Rightarrow> u32 \<Rightarrow> u32 \<Rightarrow> kernel \<Rightarrow> u32 \<times> kernel" where
  "sys_send arg0 tag ptr len k =
    (if 256 \<le> unat arg0 then (err EINVAL, k)
     else if arg0 = 0 \<and> cap_check (current_capabilities k) IPC_INIT \<noteq> Inr () then (err EPERM, k)
     else if 0 < len \<and> ptr = 0 then (err EFAULT, k)
     else case (if 0 < len then user_read (unat ptr) (min (unat len) MSG_MAX_SIZE) k else Inr []) of
       Inl _ \<Rightarrow> (err EFAULT, k)
     | Inr bytes \<Rightarrow>
        (case send (current_pid k) (unat arg0) (message_new tag bytes) (inboxes k) of
           (Inr _, ib) \<Rightarrow> (0, k\<lparr>inboxes := ib\<rparr>)
         | (Inl InvalidTarget, ib) \<Rightarrow> (err ESRCH, k\<lparr>inboxes := ib\<rparr>)
         | (Inl InboxFull, ib) \<Rightarrow> (err EAGAIN, k\<lparr>inboxes := ib\<rparr>)))"

definition sys_recv :: "kernel \<Rightarrow> u32 \<times> kernel" where
  "sys_recv k =
    (case recv (current_pid k) (inboxes k) of
       (Some msg, ib) \<Rightarrow> (of_nat (msg_from msg), k\<lparr>inboxes := ib\<rparr>)
     | (None, ib) \<Rightarrow> (err EAGAIN, k\<lparr>inboxes := ib\<rparr>))"

section \<open>A booted kernel\<close>

text \<open>The statics after the page allocator and the page tables are set up, and the state when
  \<open>process::init\<close> has run and boot has enabled the scheduler.\<close>

definition kernel_statics :: kernel where
  "kernel_statics = \<lparr>procs = replicate MAX_PROCS None, current = 0, scheduling_enabled = False, active_frame = None,
     frame_switched = False, pages = boot_pages, mmu = boot_mmu, files = files_init, futex_waiters = waiters_init,
     inboxes = inboxes_init, supervision = supervisor_init, ticks = 0\<rparr>"

definition boot_kernel :: kernel where
  "boot_kernel = enable_scheduling (process_init kernel_statics)"

text \<open>A process beside the first one, as \<open>spawn\<close> leaves it but for its stack.\<close>

definition example_process :: "pid \<Rightarrow> pstate \<Rightarrow> process" where
  "example_process i st = \<lparr>p_pid = i, p_state = st, p_ctx = context_zero, p_parent = Some 0,
     exit_status = 0, page_table_phys = 0, stack_base = 0, stack_pages = 0, heap_break = DEFAULT_HEAP_BREAK,
     mappings = replicate MAX_MAPPINGS None, sig_state = signal_state_new, uid = 0, wake_tick = 0,
     capabilities = FORK_DEFAULT, fds = fd_table_new, cwd = DEFAULT_CWD\<rparr>"

definition with_process :: "process \<Rightarrow> kernel \<Rightarrow> kernel" where
  "with_process p k = k\<lparr>procs := (procs k)[p_pid p := Some p]\<rparr>"

end
