(* ===== verification/Scheduling.thy ===== *)
theory Scheduling
  imports Process
begin

text \<open>
  What the scheduler of \<open>process.rs\<close> guarantees. A process that is ready, or asleep with a deadline,
  becomes current after a bounded number of timer ticks, whatever the running processes do in
  between: yield, sleep, wait on a futex or wake one. The bound is the distance in slot order, which
  every tick shortens, after the ticks the process asked to sleep.
\<close>

section \<open>Well-formed process tables\<close>

definition proc_wf :: "kernel \<Rightarrow> bool" where
  "proc_wf k \<longleftrightarrow> length (procs k) = MAX_PROCS \<and> current k < MAX_PROCS \<and>
     (\<forall>i<MAX_PROCS. \<forall>p. procs k ! i = Some p \<longrightarrow> p_pid p = i)"

lemma proc_wf_length: "proc_wf k \<Longrightarrow> length (procs k) = 16"
  and proc_wf_current: "proc_wf k \<Longrightarrow> current k < 16"
  and proc_wf_pid: "proc_wf k \<Longrightarrow> i < 16 \<Longrightarrow> procs k ! i = Some p \<Longrightarrow> p_pid p = i"
  by (simp_all add: proc_wf_def const_defs)

lemma upd_proc_simps [simp]:
  "length (procs (upd_proc i f k)) = length (procs k)" "current (upd_proc i f k) = current k"
  "ticks (upd_proc i f k) = ticks k" "scheduling_enabled (upd_proc i f k) = scheduling_enabled k"
  "active_frame (upd_proc i f k) = active_frame k" "pages (upd_proc i f k) = pages k" "mmu (upd_proc i f k) = mmu k"
  "files (upd_proc i f k) = files k" "inboxes (upd_proc i f k) = inboxes k" "supervision (upd_proc i f k) = supervision k"
  "futex_waiters (upd_proc i f k) = futex_waiters k"
  by (simp_all add: upd_proc_def)

lemma upd_proc_nth:
  "j < length (procs k) \<Longrightarrow> procs (upd_proc i f k) ! j = (if j = i then map_option f (procs k ! j) else procs k ! j)"
  by (auto simp: upd_proc_def)

lemma upd_proc_wf:
  assumes "proc_wf k" "\<And>p. p_pid (f p) = p_pid p"
  shows "proc_wf (upd_proc i f k)"
  using assms by (auto simp: proc_wf_def upd_proc_nth)

text \<open>The view of the table the fairness argument needs.\<close>

definition same_turn :: "pid \<Rightarrow> kernel \<Rightarrow> kernel \<Rightarrow> bool" where
  "same_turn i k k' \<longleftrightarrow> current k' = current k \<and> ticks k' = ticks k \<and> scheduling_enabled k' = scheduling_enabled k \<and>
     procs k' ! i = procs k ! i"

lemma same_turn_refl [simp]: "same_turn i k k"
  by (simp add: same_turn_def)

lemma same_turn_trans: "same_turn i a b \<Longrightarrow> same_turn i b c \<Longrightarrow> same_turn i a c"
  by (simp add: same_turn_def)

lemma same_turn_upd: "proc_wf k \<Longrightarrow> i < 16 \<Longrightarrow> i \<noteq> j \<Longrightarrow> same_turn i k (upd_proc j f k)"
  by (simp add: same_turn_def upd_proc_nth proc_wf_length)

section \<open>The choice of the scheduler\<close>

definition turn_distance :: "pid \<Rightarrow> kernel \<Rightarrow> nat" where
  "turn_distance i k = (i + MAX_PROCS - current k) mod MAX_PROCS"

lemma turn_distance:
  assumes "proc_wf k" "i < 16" "i \<noteq> current k"
  shows "0 < turn_distance i k" "turn_distance i k < 16" "(current k + turn_distance i k) mod 16 = i"
proof -
  have c: "current k < 16" using assms(1) by (rule proc_wf_current)
  consider "current k < i" | "i < current k" using assms(3) by linarith
  then have "0 < turn_distance i k \<and> turn_distance i k < 16 \<and> (current k + turn_distance i k) mod 16 = i"
  proof cases
    case 1
    then have "i + 16 - current k = (i - current k) + 16" by simp
    then have "turn_distance i k = (i - current k + 16) mod 16"
      unfolding turn_distance_def process_sizes by (rule arg_cong)
    then have "turn_distance i k = i - current k"
      using assms(2) by simp
    then show ?thesis using 1 assms(2) by simp
  next
    case 2
    then have "turn_distance i k = i + 16 - current k"
      using c by (simp add: turn_distance_def const_defs)
    then show ?thesis using 2 c assms(2) by simp
  qed
  then show "0 < turn_distance i k" "turn_distance i k < 16" "(current k + turn_distance i k) mod 16 = i" by auto
qed

lemma turn_distance_advance:
  assumes "proc_wf k" "i < 16" "i \<noteq> current k" "off < turn_distance i k" "current k' = (current k + off) mod 16"
  shows "turn_distance i k' = turn_distance i k - off"
proof -
  let ?d = "turn_distance i k"
  have d: "?d < 16" "(current k + ?d) mod 16 = i" using turn_distance assms(1-3) by auto
  have "current k < 16" using assms(1) by (rule proc_wf_current)
  then have "current k' = current k + off \<or> current k + off \<ge> 16 \<and> current k' = current k + off - 16"
    using assms(4,5) d(1) by (auto simp: mod_if)
  moreover have "i = current k + ?d \<or> current k + ?d \<ge> 16 \<and> i = current k + ?d - 16"
    using \<open>current k < 16\<close> d by (auto simp: mod_if split: if_splits)
  ultimately have "i + 16 - current k' = ?d - off + 16 \<or> i + 16 - current k' = ?d - off"
    using assms(2,4) by linarith
  then have "(i + 16 - current k') mod 16 = (?d - off) mod 16" by (metis mod_add_self2)
  then show ?thesis using d(1) unfolding turn_distance_def [of i k'] process_sizes by simp
qed

lemma find_upt_SomeD:
  "find P [a..<b] = Some m \<Longrightarrow> a \<le> m \<and> m < b \<and> P m \<and> (\<forall>j. a \<le> j \<and> j < m \<longrightarrow> \<not> P j)"
proof -
  assume "find P [a..<b] = Some m"
  then obtain n where n: "n < b - a" "P (a + n)" "m = a + n" "\<forall>j<n. \<not> P (a + j)"
    by (auto simp: find_Some_iff)
  have "\<not> P j" if "a \<le> j" "j < m" for j
    using n(3,4) that by (metis add_less_cancel_left le_add_diff_inverse)
  then show ?thesis using n by auto
qed

lemma find_upt_NoneD: "find P [a..<b] = None \<Longrightarrow> a \<le> j \<Longrightarrow> j < b \<Longrightarrow> \<not> P j"
  by (auto simp: find_None_iff)

lemma snd_schedule [simp]: "snd (schedule k) = wake_sleepers k"
  by (simp add: schedule_def Let_def)

lemma wake_sleepers_simps [simp]:
  "length (procs (wake_sleepers k)) = length (procs k)" "current (wake_sleepers k) = current k"
  "ticks (wake_sleepers k) = ticks k" "scheduling_enabled (wake_sleepers k) = scheduling_enabled k"
  by (simp_all add: wake_sleepers_def)

lemma wake_sleepers_nth:
  "j < length (procs k) \<Longrightarrow> procs (wake_sleepers k) ! j =
     map_option (\<lambda>p. if p_state p = Sleeping \<and> wake_tick p \<le> ticks k then p\<lparr>p_state := Ready\<rparr> else p) (procs k ! j)"
  by (simp add: wake_sleepers_def)

lemma wake_sleepers_wf: "proc_wf k \<Longrightarrow> proc_wf (wake_sleepers k)"
  by (auto simp: proc_wf_def wake_sleepers_nth)

text \<open>The choice is the first ready slot after the current one, in ring order.\<close>

lemma schedule_choice:
  assumes "proc_wf k"
  obtains (stay) "fst (schedule k) = current k" "\<And>off. 1 \<le> off \<Longrightarrow> off < 16 \<Longrightarrow>
      \<not> is_ready (procs (wake_sleepers k) ! ((current k + off) mod 16))"
  | (switch) off where "1 \<le> off" "off < 16" "fst (schedule k) = (current k + off) mod 16"
      "is_ready (procs (wake_sleepers k) ! ((current k + off) mod 16))"
      "\<And>j. 1 \<le> j \<Longrightarrow> j < off \<Longrightarrow> \<not> is_ready (procs (wake_sleepers k) ! ((current k + j) mod 16))"
proof (cases "find (\<lambda>off. is_ready (procs (wake_sleepers k) ! ((current k + off) mod MAX_PROCS))) [1..<MAX_PROCS]")
  case None
  show ?thesis
  proof (rule stay)
    show "fst (schedule k) = current k" using None by (simp add: schedule_def)
    show "\<not> is_ready (procs (wake_sleepers k) ! ((current k + off) mod 16))" if "1 \<le> off" "off < 16" for off
      using find_upt_NoneD [OF None that(1)] that(2) by (simp add: const_defs)
  qed
next
  case (Some off)
  note f = find_upt_SomeD [OF Some]
  have b: "1 \<le> off" "off < 16" and r: "is_ready (procs (wake_sleepers k) ! ((current k + off) mod 16))"
    and e: "\<And>j. 1 \<le> j \<Longrightarrow> j < off \<Longrightarrow> \<not> is_ready (procs (wake_sleepers k) ! ((current k + j) mod 16))"
    using f by (auto simp: const_defs)
  obtain p where p: "procs (wake_sleepers k) ! ((current k + off) mod 16) = Some p"
    using r by (auto simp: is_ready_def split: option.splits)
  have "p_pid p = (current k + off) mod 16"
    by (rule proc_wf_pid [OF wake_sleepers_wf [OF assms] _ p]) simp
  then have "fst (schedule k) = (current k + off) mod 16"
    using Some p by (simp add: schedule_def const_defs)
  then show ?thesis using b r e by (intro switch)
qed

section \<open>A round of the scheduler\<close>

lemma switch_to_same [simp]: "switch_to (current k) k = k"
  by (simp add: switch_to_def)

lemma switch_to_effect:
  assumes "proc_wf k" "n < 16" "n \<noteq> current k" "procs k ! n \<noteq> None"
  shows "proc_wf (switch_to n k)" "current (switch_to n k) = n" "ticks (switch_to n k) = ticks k"
    "scheduling_enabled (switch_to n k) = scheduling_enabled k"
    "\<And>i. i < 16 \<Longrightarrow> i \<noteq> n \<Longrightarrow> i \<noteq> current k \<Longrightarrow> procs (switch_to n k) ! i = procs k ! i"
    "map_option p_state (procs (switch_to n k) ! n) = Some Running"
proof -
  let ?f = "\<lambda>p. let p = (case active_frame k of None \<Rightarrow> p | Some f \<Rightarrow> p\<lparr>p_ctx := f\<rparr>)
             in if p_state p = Running then p\<lparr>p_state := Ready\<rparr> else p"
  let ?k1 = "upd_proc (current k) ?f k"
  let ?k2 = "(upd_proc n (\<lambda>p. p\<lparr>p_state := Running\<rparr>) ?k1)\<lparr>current := n\<rparr>"
  have len: "length (procs k) = 16" "current k < 16" using assms(1) by (rule proc_wf_length, rule proc_wf_current)
  obtain q where q: "procs k ! n = Some q" using assms(4) by blast
  then have q1: "procs ?k1 ! n = Some q" using assms(2,3) len by (simp add: upd_proc_nth)
  have procs_eq: "procs (switch_to n k) = procs ?k2" "current (switch_to n k) = n" "ticks (switch_to n k) = ticks k"
      "scheduling_enabled (switch_to n k) = scheduling_enabled k"
    using q1 assms(3) by (simp_all add: switch_to_def Let_def split: option.splits)
  have "proc_wf ?k1" by (rule upd_proc_wf [OF assms(1)]) (simp add: Let_def split: option.splits)
  then have "proc_wf (upd_proc n (\<lambda>p. p\<lparr>p_state := Running\<rparr>) ?k1)" by (rule upd_proc_wf) simp
  then show "proc_wf (switch_to n k)"
    using assms(2) procs_eq(1,2) by (simp add: proc_wf_def const_defs)
  show "current (switch_to n k) = n" "ticks (switch_to n k) = ticks k"
    "scheduling_enabled (switch_to n k) = scheduling_enabled k" by (fact procs_eq)+
  show "procs (switch_to n k) ! i = procs k ! i" if "i < 16" "i \<noteq> n" "i \<noteq> current k" for i
    using that len procs_eq(1) by (simp add: upd_proc_nth)
  show "map_option p_state (procs (switch_to n k) ! n) = Some Running"
    using procs_eq(1) q1 len assms(2) by (simp add: upd_proc_nth)
qed

text \<open>\<open>waits_turn i n k\<close>: process \<open>i\<close> is due within \<open>n\<close> ticks.\<close>

definition waits_turn :: "pid \<Rightarrow> nat \<Rightarrow> kernel \<Rightarrow> bool" where
  "waits_turn i n k \<longleftrightarrow> i < MAX_PROCS \<and>
     (case procs k ! i of
        None \<Rightarrow> False
      | Some p \<Rightarrow> p_state p = Ready \<and> turn_distance i k \<le> n \<or>
                  p_state p = Sleeping \<and> unat (wake_tick p) - unat (ticks k) + 15 \<le> n)"

lemma waits_turn_same: "waits_turn i n k \<Longrightarrow> same_turn i k k' \<Longrightarrow> waits_turn i n k'"
  by (auto simp: waits_turn_def same_turn_def turn_distance_def split: option.splits)

lemma waits_turn_mono: "waits_turn i n k \<Longrightarrow> n \<le> m \<Longrightarrow> waits_turn i m k"
  by (auto simp: waits_turn_def split: option.splits)

lemma waits_turn_cases:
  assumes "proc_wf k" "waits_turn i n k"
  obtains (ready) p where "procs (wake_sleepers k) ! i = Some p" "p_state p = Ready" "turn_distance i k \<le> n" "i < 16"
  | (asleep) p where "procs k ! i = Some p" "procs (wake_sleepers k) ! i = Some p" "p_state p = Sleeping" "i < 16"
      "unat (ticks k) < unat (wake_tick p)" "unat (wake_tick p) - unat (ticks k) + 15 \<le> n"
proof -
  have i: "i < 16" using assms(2) by (simp add: waits_turn_def const_defs)
  obtain p where p: "procs k ! i = Some p"
    using assms(2) by (auto simp: waits_turn_def split: option.splits)
  have d: "turn_distance i k \<le> 15"
    using mod_less_divisor [of 16 "i + 16 - current k"] unfolding turn_distance_def process_sizes by linarith
  note n = wake_sleepers_nth [of i k, unfolded proc_wf_length [OF assms(1)], OF i]
  consider "p_state p = Ready" "turn_distance i k \<le> n"
    | "p_state p = Sleeping" "wake_tick p \<le> ticks k" "15 \<le> n"
    | "p_state p = Sleeping" "\<not> wake_tick p \<le> ticks k" "unat (wake_tick p) - unat (ticks k) + 15 \<le> n"
    using assms(2) p by (cases "wake_tick p \<le> ticks k") (auto simp: waits_turn_def)
  then show thesis
  proof cases
    case 1
    with n p i show thesis by (intro ready) auto
  next
    case 2
    with n p i d show thesis by (intro ready) auto
  next
    case 3
    then have "unat (ticks k) < unat (wake_tick p)" by (simp add: not_le word_less_nat_alt)
    with 3 n p i show thesis by (intro asleep) auto
  qed
qed

text \<open>One round: choose, and switch when another process is chosen. The caller may change the frame and
  its own slot between the two (\<open>k'\<close>). A ready process is chosen or comes closer; a sleeping one
  keeps its deadline.\<close>

lemma round:
  assumes wf: "proc_wf k" and w: "waits_turn i n k" and i: "i \<noteq> current k"
    and k': "proc_wf k'" "current k' = current k" "ticks k' = ticks k" "procs k' = procs (wake_sleepers k)"
  defines "k2 \<equiv> switch_to (fst (schedule k)) k'"
  shows "proc_wf k2" "ticks k2 = ticks k" "scheduling_enabled k2 = scheduling_enabled k'"
    "current k2 = i \<or> waits_turn i n k2 \<and> (is_ready (procs (wake_sleepers k) ! i) \<longrightarrow> waits_turn i (n - 1) k2)"
proof -
  have main: "proc_wf k2 \<and> ticks k2 = ticks k \<and> scheduling_enabled k2 = scheduling_enabled k' \<and>
    (current k2 = i \<or> waits_turn i n k2 \<and> (is_ready (procs (wake_sleepers k) ! i) \<longrightarrow> waits_turn i (n - 1) k2))"
    using wf
  proof (cases rule: schedule_choice)
    case stay
    have k2: "k2 = k'" unfolding k2_def stay(1) k'(2) [symmetric] by (rule switch_to_same)
    from wf w show ?thesis
    proof (cases rule: waits_turn_cases)
      case (ready p)
      have d: "0 < turn_distance i k" "turn_distance i k < 16" "(current k + turn_distance i k) mod 16 = i"
        using turn_distance [OF wf ready(4) i] by auto
      then show ?thesis using stay(2) [of "turn_distance i k"] ready by (simp add: is_ready_def)
    next
      case (asleep p)
      then have "waits_turn i n k'" using k' by (simp add: waits_turn_def const_defs)
      then show ?thesis using k2 k' asleep by (simp add: is_ready_def)
    qed
  next
    case (switch off)
    let ?n = "(current k + off) mod 16"
    have k2: "k2 = switch_to ?n k'" using switch(3) by (simp add: k2_def)
    have c: "current k < 16" using wf by (rule proc_wf_current)
    have n: "?n < 16" "?n \<noteq> current k'" "procs k' ! ?n \<noteq> None"
      using switch(1,2,4) k'(2,4) c by (auto simp: is_ready_def mod_if split: option.splits)
    note eff = switch_to_effect [OF k'(1) n, folded k2]
    show ?thesis
    proof (cases "?n = i")
      case True
      then show ?thesis using eff k'(3) by simp
    next
      case False
      have keep: "procs k2 ! i = procs (wake_sleepers k) ! i" if "i < 16"
        using eff(5) [OF that] False i k'(2,4) by simp
      from wf w show ?thesis
      proof (cases rule: waits_turn_cases)
        case (ready p)
        have d: "0 < turn_distance i k" "turn_distance i k < 16" "(current k + turn_distance i k) mod 16 = i"
          using turn_distance [OF wf ready(4) i] by auto
        have "\<not> turn_distance i k < off"
          using switch(5) [of "turn_distance i k"] d ready by (auto simp: is_ready_def)
        moreover have "off \<noteq> turn_distance i k" using d(3) False by auto
        ultimately have "off < turn_distance i k" by simp
        then have "turn_distance i k2 = turn_distance i k - off"
          using eff(2) by (intro turn_distance_advance [OF wf ready(4) i]) auto
        then have "turn_distance i k2 \<le> n - 1" "turn_distance i k2 \<le> n" using ready(3) switch(1) by simp_all
        then show ?thesis using eff(1,3,4) k'(3) keep ready by (simp add: waits_turn_def const_defs)
      next
        case (asleep p)
        then show ?thesis using eff(1,3,4) k'(3) keep by (simp add: waits_turn_def const_defs is_ready_def)
      qed
    qed
  qed
  then show "proc_wf k2" "ticks k2 = ticks k" "scheduling_enabled k2 = scheduling_enabled k'"
    "current k2 = i \<or> waits_turn i n k2 \<and> (is_ready (procs (wake_sleepers k) ! i) \<longrightarrow> waits_turn i (n - 1) k2)" by auto
qed

section \<open>What processes do between ticks\<close>

datatype sched_op = Tick | Yield | Sleep u32 | FutexWait u32 u32 | FutexWake u32 u32

fun exec :: "sched_op \<Rightarrow> kernel \<Rightarrow> kernel" where
  "exec Tick k = timer_tick k"
| "exec Yield k = snd (sys_yield k)"
| "exec (Sleep ms) k = snd (sys_sleep ms k)"
| "exec (FutexWait addr val) k = snd (sys_futex addr FUTEX_WAIT val k)"
| "exec (FutexWake addr n) k = snd (sys_futex addr FUTEX_WAKE n k)"

text \<open>\<open>due i n k k'\<close>: the step from \<open>k\<close> to \<open>k'\<close> keeps the table well formed and process \<open>i\<close> due
  within \<open>n\<close> ticks, unless it is the one that runs now.\<close>

definition due :: "pid \<Rightarrow> nat \<Rightarrow> kernel \<Rightarrow> kernel \<Rightarrow> bool" where
  "due i n k k' \<longleftrightarrow> proc_wf k' \<and> scheduling_enabled k' = scheduling_enabled k \<and> (current k' = i \<or> waits_turn i n k')"

lemma set_trap_return_simps [simp]:
  "procs (set_trap_return v k) = procs k" "current (set_trap_return v k) = current k" "ticks (set_trap_return v k) = ticks k"
  "scheduling_enabled (set_trap_return v k) = scheduling_enabled k"
  by (simp_all add: set_trap_return_def)

lemma proc_wf_cong: "procs k' = procs k \<Longrightarrow> current k' = current k \<Longrightarrow> proc_wf k' = proc_wf k"
  by (simp add: proc_wf_def)

lemma round_due:
  assumes "proc_wf k" "waits_turn i n k" "i \<noteq> current k"
  shows "due i n k (switch_to (fst (schedule k)) (set_trap_return v (wake_sleepers k)))"
    "due i n k (switch_to (fst (schedule k)) (wake_sleepers k))" "due i n k (wake_sleepers k)"
proof -
  have wf: "proc_wf (wake_sleepers k)" "proc_wf (set_trap_return v (wake_sleepers k))"
    using wake_sleepers_wf [OF assms(1)] by (simp_all cong: proc_wf_cong)
  show "due i n k (switch_to (fst (schedule k)) (set_trap_return v (wake_sleepers k)))"
    using round [OF assms wf(2)] by (auto simp: due_def)
  show "due i n k (switch_to (fst (schedule k)) (wake_sleepers k))"
    using round [OF assms wf(1)] by (auto simp: due_def)
  show "due i n k (wake_sleepers k)"
    using assms(1,2)
  proof (cases rule: waits_turn_cases)
    case (ready p)
    then show ?thesis using wf(1) by (simp add: due_def waits_turn_def turn_distance_def const_defs)
  next
    case (asleep p)
    then show ?thesis using wf(1) by (simp add: due_def waits_turn_def const_defs)
  qed
qed

lemma yield_to_next_due:
  assumes "proc_wf k" "waits_turn i n k" "i \<noteq> current k"
  shows "due i n k (yield_to_next k)"
proof -
  have "yield_to_next k = (if fst (schedule k) \<noteq> current k
      then switch_to (fst (schedule k)) (set_trap_return 0 (wake_sleepers k)) else wake_sleepers k)"
    by (simp add: yield_to_next_def case_prod_beta current_pid_def)
  then show ?thesis using round_due [OF assms] by simp
qed

lemma due_from:
  assumes "same_turn i k k1" "proc_wf k1" "waits_turn i n k" "i \<noteq> current k"
    "\<And>k. proc_wf k \<Longrightarrow> waits_turn i n k \<Longrightarrow> i \<noteq> current k \<Longrightarrow> due i n k (f k)"
  shows "due i n k (f k1)"
proof -
  have "due i n k1 (f k1)"
    using assms(5) [OF assms(2) waits_turn_same [OF assms(3,1)]] assms(1,4) by (simp add: same_turn_def)
  then show ?thesis using assms(1) by (simp add: due_def same_turn_def)
qed

lemma waits_turn_i: "waits_turn i n k \<Longrightarrow> i < 16"
  by (simp add: waits_turn_def const_defs)

lemma same_turn_due: "proc_wf k' \<Longrightarrow> same_turn i k k' \<Longrightarrow> waits_turn i n k \<Longrightarrow> due i n k k'"
  using waits_turn_same [of i n k k'] by (simp add: due_def same_turn_def)

lemma due_trans_upd:
  assumes "due i n k k'" "current k' \<noteq> i" "i < 16" "\<And>p. p_pid (f p) = p_pid p"
  shows "due i n k (upd_proc (current k') f k')"
proof -
  have wf: "proc_wf k'" and w: "waits_turn i n k'" using assms(1,2) by (auto simp: due_def)
  have "same_turn i k' (upd_proc (current k') f k')" using assms(2,3) by (intro same_turn_upd [OF wf]) auto
  then have "due i n k' (upd_proc (current k') f k')" using w by (intro same_turn_due upd_proc_wf wf assms(4))
  then show ?thesis using assms(1) by (simp add: due_def)
qed

lemma sys_sleep_due:
  assumes wf: "proc_wf k" and w: "waits_turn i n k" and i: "i \<noteq> current k"
  shows "due i n k (snd (sys_sleep ms k))"
proof -
  define k1 where "k1 = set_wake_tick (of_nat (min (unat (ticks k) + (unat ms + 9) div 10) (2 ^ 64 - 1))) k"
  note i16 = waits_turn_i [OF w]
  have k1: "same_turn i k k1" "proc_wf k1"
    unfolding k1_def set_wake_tick_def using i i16 by (auto intro: same_turn_upd upd_proc_wf wf)
  have w1: "waits_turn i n k1" and i1: "i \<noteq> current k1"
    using waits_turn_same [OF w k1(1)] k1(1) i by (simp_all add: same_turn_def)
  note r = round_due [OF k1(2) w1 i1]
  have "due i n k1 (snd (sys_sleep ms k))"
  proof (cases "fst (schedule k1) = current k1")
    case True
    then have "snd (sys_sleep ms k) = clear_wake_tick (wake_sleepers k1)"
      by (simp add: sys_sleep_def k1_def Let_def case_prod_beta current_pid_def)
    then show ?thesis using due_trans_upd [OF r(3)] i1 i16 by (simp add: clear_wake_tick_def)
  next
    case False
    then have "snd (sys_sleep ms k) = switch_to (fst (schedule k1)) (set_trap_return 0 (wake_sleepers k1))"
      by (simp add: sys_sleep_def k1_def Let_def case_prod_beta current_pid_def)
    then show ?thesis using r(1) by simp
  qed
  then show ?thesis using k1(1) by (simp add: due_def same_turn_def)
qed

lemma set_state_simps [simp]:
  "current (set_state p st k) = current k" "scheduling_enabled (set_state p st k) = scheduling_enabled k"
  "ticks (set_state p st k) = ticks k"
  by (simp_all add: set_state_def)

lemma set_state_due:
  assumes "proc_wf k" "waits_turn i n k"
  shows "due i n k (set_state p Ready k)"
proof -
  have wf: "proc_wf (set_state p Ready k)" using assms(1) by (simp add: set_state_def upd_proc_wf)
  have d: "turn_distance i (set_state p Ready k) = turn_distance i k" by (simp add: turn_distance_def set_state_def)
  have i: "i < 16" using assms(2) by (rule waits_turn_i)
  have le: "turn_distance i k \<le> 15"
    using mod_less_divisor [of 16 "i + 16 - current k"] unfolding turn_distance_def process_sizes by linarith
  show ?thesis
  proof (cases "p = i \<and> p < MAX_PROCS")
    case True
    then show ?thesis using assms(2) wf i d le
      by (auto simp: due_def waits_turn_def set_state_def upd_proc_nth proc_wf_length [OF assms(1)] split: option.splits)
  next
    case False
    then have "same_turn i k (set_state p Ready k)"
      using i same_turn_upd [OF assms(1), of i p] by (auto simp: set_state_def same_turn_def)
    then show ?thesis using same_turn_due [OF wf _ assms(2)] by blast
  qed
qed

lemma wake_due:
  assumes "proc_wf k" "waits_turn i n k" "i \<noteq> current k"
  shows "due i n k (snd (snd (wake_loop (\<lambda>p. set_state p Ready) addr space max_wake woken ws k)))"
  using assms
proof (induction ws arbitrary: woken k)
  case (Cons slot ws)
  let ?k1 = "set_state (fw_pid (the slot)) Ready k"
  have k1: "proc_wf ?k1" "i \<noteq> current ?k1" "scheduling_enabled ?k1 = scheduling_enabled k" "waits_turn i n ?k1"
    using set_state_due [OF Cons.prems(1,2), of "fw_pid (the slot)"] Cons.prems(3) by (simp_all add: due_def)
  show ?case
    using Cons.IH [OF Cons.prems] Cons.IH [OF k1(1,4,2)] k1(3) Cons.prems
    by (auto simp: due_def case_prod_beta Let_def)
qed (simp add: due_def)

lemma due_waiters [simp]: "due i n k (k'\<lparr>futex_waiters := ws\<rparr>) = due i n k k'"
  by (simp add: due_def waits_turn_def turn_distance_def proc_wf_def cong: option.case_cong)

lemma futex_due:
  assumes wf: "proc_wf k" and w: "waits_turn i n k" and i: "i \<noteq> current k"
  shows "due i n k (snd (sys_futex addr op val k))"
proof -
  note i16 = waits_turn_i [OF w]
  have same: "due i n k k" using wf w by (simp add: due_def)
  have "due i n k (snd (sys_futex_wait addr val k))"
  proof (cases "snd (sys_futex_wait addr val k) = k")
    case False
    then obtain ws where ws: "snd (sys_futex_wait addr val k) = yield_to_next (set_state (current_pid k) Blocked (k\<lparr>futex_waiters := ws\<rparr>))"
      by (auto simp: sys_futex_wait_def Let_def split: sum.splits if_splits option.splits)
    let ?k1 = "set_state (current_pid k) Blocked (k\<lparr>futex_waiters := ws\<rparr>)"
    have wf0: "proc_wf (k\<lparr>futex_waiters := ws\<rparr>)" using wf by (simp cong: proc_wf_cong)
    have "same_turn i (k\<lparr>futex_waiters := ws\<rparr>) ?k1" "proc_wf ?k1"
      using same_turn_upd [OF wf0 i16] i by (auto simp: set_state_def current_pid_def upd_proc_wf wf0)
    then have "same_turn i k ?k1" "proc_wf ?k1" by (simp_all add: same_turn_def)
    then show ?thesis unfolding ws by (rule due_from [OF _ _ w i yield_to_next_due])
  qed (simp add: same)
  moreover have "due i n k (snd (sys_futex_wake addr val k))"
    using wake_due [OF wf w i, of addr "current_page_table k" val 0 "futex_waiters k"] same
    by (simp add: sys_futex_wake_def wake_waiters_for_address_space_def case_prod_beta Let_def)
  ultimately show ?thesis using same by (simp add: sys_futex_def)
qed

lemma tick_due:
  assumes wf: "proc_wf k" and w: "waits_turn i n k" and i: "i \<noteq> current k" and en: "scheduling_enabled k"
    and t: "unat (ticks k) + 1 < 2 ^ 64"
  shows "due i (n - 1) k (timer_tick k)" "ticks (timer_tick k) = ticks k + 1"
proof -
  define k1 where "k1 = k\<lparr>ticks := ticks k + 1\<rparr>"
  have t1: "unat (ticks k1) = unat (ticks k) + 1" using t by (simp add: k1_def unat_word_ariths)
  have k1: "proc_wf k1" "i \<noteq> current k1" using wf i by (simp_all add: k1_def cong: proc_wf_cong)
  have w1: "waits_turn i n k1"
    using w t1 by (auto simp: waits_turn_def k1_def turn_distance_def split: option.splits)
  define k2 where "k2 = switch_to (fst (schedule k1)) (wake_sleepers k1)"
  have eq: "timer_tick k = k2"
  proof (cases "fst (schedule k1) = current k1")
    case True
    then have "k2 = wake_sleepers k1" using switch_to_same [of "wake_sleepers k1"] by (simp add: k2_def)
    then show ?thesis using True en
      by (simp add: timer_tick_def k1_def [symmetric] case_prod_beta current_pid_def) (simp add: k1_def)
  next
    case False
    then show ?thesis using en
      by (simp add: timer_tick_def k1_def [symmetric] case_prod_beta current_pid_def k2_def) (simp add: k1_def)
  qed
  note r = round [OF k1(1) w1 k1(2) wake_sleepers_wf [OF k1(1)], folded k2_def, simplified]
  show "ticks (timer_tick k) = ticks k + 1" using r(2) by (simp add: eq k1_def)
  have "current k2 = i \<or> waits_turn i (n - 1) k2"
    using k1(1) w1
  proof (cases rule: waits_turn_cases)
    case (ready p)
    then show ?thesis using r(4) by (auto simp: is_ready_def)
  next
    case (asleep p)
    then have k: "procs k ! i = Some p" "p_state p = Sleeping" by (simp_all add: k1_def)
    then have "unat (wake_tick p) - unat (ticks k) + 15 \<le> n" using w by (simp add: waits_turn_def)
    then have "unat (wake_tick p) - unat (ticks k1) + 15 \<le> n - 1" using t1 asleep(5) by simp
    then have "waits_turn i (n - 1) k1" using asleep by (simp add: waits_turn_def const_defs)
    from round(4) [OF k1(1) this k1(2) wake_sleepers_wf [OF k1(1)], folded k2_def] show ?thesis by auto
  qed
  then show "due i (n - 1) k (timer_tick k)" using r(1,3) eq by (simp add: due_def k1_def)
qed

lemma exec_due:
  assumes "proc_wf k" "waits_turn i n k" "i \<noteq> current k" "op \<noteq> Tick"
  shows "due i n k (exec op k)"
  using assms yield_to_next_due [OF assms(1-3)] sys_sleep_due [OF assms(1-3)] futex_due [OF assms(1-3)]
  by (cases op) (simp_all add: sys_yield_def)

lemma ticks_yield [simp]: "ticks (switch_to n k) = ticks k"
  by (simp add: switch_to_def Let_def split: option.splits)

lemma ticks_wake_loop:
  "ticks (snd (snd (wake_loop (\<lambda>p. set_state p Ready) addr space max_wake woken ws k))) = ticks k"
  by (induction ws arbitrary: woken k) (simp_all add: case_prod_beta Let_def)

lemma ticks_exec:
  assumes "op \<noteq> Tick"
  shows "ticks (exec op k) = ticks k"
proof -
  have y: "ticks (yield_to_next k) = ticks k" for k
    by (simp add: yield_to_next_def case_prod_beta current_pid_def)
  have w: "ticks (snd (sys_futex_wait a v k)) = ticks k" for a v
    by (auto simp: sys_futex_wait_def Let_def y split: sum.splits option.splits)
  show ?thesis
  proof (cases op)
    case (Sleep ms)
    then show ?thesis
      by (simp add: sys_sleep_def Let_def case_prod_beta set_wake_tick_def clear_wake_tick_def)
  next
    case (FutexWake a n)
    then show ?thesis
      by (simp add: sys_futex_def FUTEX_WAIT_def FUTEX_WAKE_def sys_futex_wake_def wake_waiters_for_address_space_def
          case_prod_beta Let_def ticks_wake_loop)
  qed (use assms y w in \<open>simp_all add: sys_yield_def sys_futex_def\<close>)
qed

section \<open>Properties\<close>

text \<open>C23: No ready process starves and every sleeper runs soon after its deadline. If process \<open>i\<close> is
  ready \<open>d\<close> slots after the current one, or asleep until tick \<open>w\<close>, it becomes current during every
  sequence of timer ticks, yields, sleeps and futex calls that contains \<open>d\<close> ticks, or \<open>15\<close> ticks
  more than remain until \<open>w\<close>.\<close>

theorem scheduler_fair:
  assumes "proc_wf k" "scheduling_enabled k" "waits_turn i n k"
    and "n \<le> count_if (\<lambda>op. op = Tick) ops" "unat (ticks k) + count_if (\<lambda>op. op = Tick) ops < 2 ^ 64"
  shows "\<exists>before after. ops = before @ after \<and> current (fold exec before k) = i"
  using assms
proof (induction ops arbitrary: k n)
  case Nil
  then have "waits_turn i 0 k" using waits_turn_mono by simp
  then have "turn_distance i k = 0" "i < 16" by (auto simp: waits_turn_def const_defs split: option.splits)
  then have "current k = i" using turn_distance(1) [OF Nil.prems(1), of i] by fastforce
  then show ?case by simp
next
  case (Cons op ops)
  show ?case
  proof (cases "current k = i")
    case True
    then have "op # ops = [] @ op # ops \<and> current (fold exec [] k) = i" by simp
    then show ?thesis by blast
  next
    case False
    let ?n = "if op = Tick then n - 1 else n"
    have t: "unat (ticks k) + 1 < 2 ^ 64" if "op = Tick" using Cons.prems(5) that by simp
    have due: "due i ?n k (exec op k)"
      using tick_due(1) [OF Cons.prems(1,3) _ Cons.prems(2)] exec_due [OF Cons.prems(1,3)] t False by (cases "op = Tick") auto
    show ?thesis
    proof (cases "current (exec op k) = i")
      case True
      then have "op # ops = [op] @ ops \<and> current (fold exec [op] k) = i" by simp
      then show ?thesis by blast
    next
      case nc: False
      have ticks: "unat (ticks (exec op k)) = unat (ticks k) + (if op = Tick then 1 else 0)"
        using tick_due(2) [OF Cons.prems(1,3) _ Cons.prems(2)] t False ticks_exec [of op k]
        by (auto simp: unat_word_ariths)
      have "\<exists>before after. ops = before @ after \<and> current (fold exec before (exec op k)) = i"
        using due nc Cons.prems(2,4,5) ticks by (intro Cons.IH [of _ ?n]) (auto simp: due_def split: if_splits)
      then obtain before after where "op # ops = (op # before) @ after" "current (fold exec (op # before) k) = i" by auto
      then show ?thesis by blast
    qed
  qed
qed

lemma boot_kernel_wf: "proc_wf boot_kernel"
  by (auto simp: proc_wf_def boot_kernel_def enable_scheduling_def process_init_def kernel_statics_def const_defs nth_list_update)

lemma boot_procs:
  obtains p where "procs boot_kernel = Some p # replicate 15 None" "p_state p = Running" "p_parent p = None" "p_pid p = 0"
    "capabilities p = CAP_ALL" "page_table_phys p = table_base boot_mmu" "fds p = fd_table_new" "sig_state p = signal_state_new"
proof -
  have r: "replicate 16 None = None # replicate 15 (None :: process option)" by (simp add: numeral_eq_Suc)
  show thesis
    by (rule that [of "the (hd (procs boot_kernel))"])
      (simp_all add: boot_kernel_def enable_scheduling_def process_init_def kernel_statics_def process_sizes r)
qed

lemma boot_kernel_simps [simp]:
  "current boot_kernel = 0" "ticks boot_kernel = 0" "scheduling_enabled boot_kernel" "pages boot_kernel = boot_pages"
  "mmu boot_kernel = boot_mmu" "active_frame boot_kernel = None"
  by (simp_all add: boot_kernel_def enable_scheduling_def process_init_def kernel_statics_def)

lemma with_process_simps [simp]:
  "current (with_process p k) = current k" "ticks (with_process p k) = ticks k" "pages (with_process p k) = pages k"
  "scheduling_enabled (with_process p k) = scheduling_enabled k" "mmu (with_process p k) = mmu k"
  "procs (with_process p k) = (procs k)[p_pid p := Some p]"
  by (simp_all add: with_process_def)

lemma example_process_simps [simp]:
  "p_pid (example_process i st) = i" "p_state (example_process i st) = st" "p_parent (example_process i st) = Some 0"
  "capabilities (example_process i st) = FORK_DEFAULT" "sig_state (example_process i st) = signal_state_new"
  by (simp_all add: example_process_def)

lemma with_process_wf: "proc_wf k \<Longrightarrow> p_pid p < 16 \<Longrightarrow> proc_wf (with_process p k)"
  by (auto simp: proc_wf_def with_process_def const_defs nth_list_update)

theorem scheduler_fair_witness:
  "\<exists>before after. replicate 17 Tick = before @ after \<and>
     current (fold exec before (with_process (example_process 5 Sleeping\<lparr>wake_tick := 2\<rparr>) boot_kernel)) = 5"
proof (rule scheduler_fair)
  let ?p = "example_process 5 Sleeping\<lparr>wake_tick := 2\<rparr>"
  show "proc_wf (with_process ?p boot_kernel)"
    by (rule with_process_wf [OF boot_kernel_wf]) (simp add: example_process_def)
  show "scheduling_enabled (with_process ?p boot_kernel)"
    by (simp add: with_process_def boot_kernel_def enable_scheduling_def)
  have t: "ticks (with_process ?p boot_kernel) = 0"
    by (simp add: with_process_def boot_kernel_def enable_scheduling_def process_init_def kernel_statics_def)
  have "procs (with_process ?p boot_kernel) ! 5 = Some ?p"
    using proc_wf_length [OF boot_kernel_wf] by (simp add: with_process_def example_process_def)
  then show "waits_turn 5 17 (with_process ?p boot_kernel)"
    using t by (simp add: waits_turn_def const_defs example_process_def)
  show "unat (ticks (with_process ?p boot_kernel)) + count_if (\<lambda>op. op = Tick) (replicate 17 Tick) < 2 ^ 64"
    by (simp add: t)
qed simp

end
