(* ===== verification/Delivery.thy ===== *)
theory Delivery
  imports Scheduling
begin

text \<open>
  Termination and signals across components: who may kill whom and what a kill leaves behind, which
  children a parent reaps, and the frame a handled signal puts on the user stack and \<open>sigreturn\<close> takes
  off it. The operations are those of \<open>process.rs\<close> and \<open>signal.rs\<close> in \<open>Process\<close>.
\<close>

section \<open>Reaping\<close>

definition dead_child :: "pid \<Rightarrow> process option \<Rightarrow> bool" where
  "dead_child parent slot = (case slot of None \<Rightarrow> False | Some c \<Rightarrow> p_parent c = Some parent \<and> p_state c = Dead)"

lemma waitpid_eq:
  assumes "c < 16"
  shows "waitpid c k = (if dead_child (current k) (procs k ! c)
     then (Some (exit_status (the (procs k ! c))), k\<lparr>procs := (procs k)[c := None]\<rparr>) else (None, k))"
  using assms by (simp add: waitpid_def dead_child_def const_defs split: option.splits)

lemma reap_fold:
  assumes "n \<le> 16" "length (procs k) = 16"
  shows "fold (\<lambda>p (reaped, k). case waitpid p k of (Some _, k) \<Rightarrow> (Suc reaped, k) | (None, k) \<Rightarrow> (reaped, k)) [0..<n] (0, k) =
    (count_if (dead_child (current k)) (take n (procs k)),
     k\<lparr>procs := map (\<lambda>slot. if dead_child (current k) slot then None else slot) (take n (procs k)) @ drop n (procs k)\<rparr>)"
  using assms(1)
proof (induction n)
  case 0
  then show ?case by simp
next
  case (Suc n)
  let ?f = "\<lambda>slot. if dead_child (current k) slot then None else slot"
  let ?k = "k\<lparr>procs := map ?f (take n (procs k)) @ drop n (procs k)\<rparr>"
  have n: "n < length (procs k)" using Suc.prems assms(2) by simp
  have tk: "take (Suc n) (procs k) = take n (procs k) @ [procs k ! n]"
    and dr: "drop n (procs k) = procs k ! n # drop (Suc n) (procs k)"
    using n by (simp_all add: take_Suc_conv_app_nth Cons_nth_drop_Suc)
  have at: "procs ?k ! n = procs k ! n" "current ?k = current k" using n by (simp_all add: nth_append)
  have wp: "waitpid n ?k = (if dead_child (current k) (procs k ! n)
      then (Some (exit_status (the (procs k ! n))), ?k\<lparr>procs := (procs ?k)[n := None]\<rparr>) else (None, ?k))"
    using waitpid_eq [of n ?k] Suc.prems unfolding at by simp
  have up: "(procs ?k)[n := None] = map ?f (take n (procs k)) @ None # drop (Suc n) (procs k)"
    using n by (simp add: list_update_append dr)
  show ?case
    using Suc.IH Suc.prems wp up by (simp add: tk dr)
qed

text \<open>C30: \<open>reap_dead_children\<close> frees exactly the slots of the caller's dead children, reports how many
  there were, and leaves every other slot and the rest of the kernel alone.\<close>

theorem reap_dead_children_exact:
  assumes "proc_wf k"
  shows "reap_dead_children k =
    (count_if (dead_child (current k)) (procs k),
     k\<lparr>procs := map (\<lambda>slot. if dead_child (current k) slot then None else slot) (procs k)\<rparr>)"
  using reap_fold [of 16 k] proc_wf_length [OF assms] by (simp add: reap_dead_children_def const_defs)

theorem reap_dead_children_exact_witness:
  "fst (reap_dead_children (with_process (example_process 3 Dead) (with_process (example_process 4 Ready) boot_kernel))) = 1"
proof -
  let ?k = "with_process (example_process 3 Dead) (with_process (example_process 4 Ready) boot_kernel)"
  have "proc_wf ?k" by (intro with_process_wf boot_kernel_wf) (simp_all add: example_process_def)
  moreover have "count_if (dead_child (current ?k)) (procs ?k) = 1"
    by (rule boot_procs) (simp add: numeral_eq_Suc dead_child_def)
  ultimately show ?thesis using reap_dead_children_exact [of ?k] by simp
qed

section \<open>Termination by a signal\<close>

lemma close_fds_simps [simp]:
  "current (close_fds p k) = current k" "pages (close_fds p k) = pages k" "mmu (close_fds p k) = mmu k"
  "inboxes (close_fds p k) = inboxes k" "length (procs (close_fds p k)) = length (procs k)"
  "supervision (close_fds p k) = supervision k" "futex_waiters (close_fds p k) = futex_waiters k"
  "active_frame (close_fds p k) = active_frame k"
  by (simp_all add: close_fds_def case_prod_beta Let_def split: option.splits)

lemma close_fds_nth:
  assumes "i < length (procs k)" "p < length (procs k)"
  shows "procs (close_fds p k) ! i = (if i = p then map_option (\<lambda>x. x\<lparr>fds := replicate (length (fds x)) None\<rparr>) (procs k ! p) else procs k ! i)"
  using assms by (auto simp: close_fds_def case_prod_beta Let_def upd_proc_nth close_all_table split: option.splits)

lemma terminate_simps [simp]:
  "current (terminate_process p k) = current k" "pages (terminate_process p k) = pages k" "mmu (terminate_process p k) = mmu k"
  "inboxes (terminate_process p k) = inboxes k" "active_frame (terminate_process p k) = active_frame k"
  "length (procs (terminate_process p k)) = length (procs k)"
  by (simp_all add: terminate_process_def Let_def)

lemma terminate_nth:
  assumes "i < length (procs k)" "p < length (procs k)"
  shows "procs (terminate_process p k) ! i = (if i = p then
     map_option (\<lambda>x. x\<lparr>p_state := Dead, fds := replicate (length (fds x)) None\<rparr>) (procs k ! p) else procs k ! i)"
  using assms by (auto simp: terminate_process_def Let_def close_fds_nth upd_proc_nth option.map_comp o_def)

lemma free_waiters_none: "Some w \<in> set (free_waiters_for_pid p ws) \<Longrightarrow> fw_pid w \<noteq> p"
  by (auto simp: free_waiters_for_pid_def split: option.splits if_splits)

lemma terminate_releases:
  "Some w \<in> set (futex_waiters (terminate_process p k)) \<Longrightarrow> fw_pid w \<noteq> p"
  "slot \<in> set (services (supervision (terminate_process p k))) \<Longrightarrow> \<not> claims p slot"
  using free_waiters_none clear_pid_no_claim by (auto simp: terminate_process_def Let_def)

text \<open>The outcomes of \<open>deliver_signal_to\<close>: an error and no change, a pending bit, nothing, or the
  termination of the target.\<close>

lemma deliver_signal_cases:
  assumes "deliver_signal_to p sig k = (r, k')"
  obtains (error) "k' = k" "r \<noteq> 0"
  | (pending) x where "r = 0" "p \<noteq> 0" "p < 16" "sig \<noteq> Sigkill" "procs k ! p = Some x"
      "k' = upd_proc p (\<lambda>x. x\<lparr>sig_state := set_pending sig (sig_state x)\<rparr>) k"
  | (ignored) "r = 0" "k' = k" "sig \<noteq> Sigkill"
  | (killed) x where "r = 0" "p \<noteq> 0" "p < 16" "procs k ! p = Some x" "p_state x \<noteq> Dead" "k' = terminate_process p k"
proof -
  consider (e) "p = 0 \<or> 16 \<le> p \<or> procs k ! p = None \<or> (\<exists>x. procs k ! p = Some x \<and> p_state x = Dead)"
    | (live) x where "p \<noteq> 0" "p < 16" "procs k ! p = Some x" "p_state x \<noteq> Dead" by fastforce
  then show thesis
  proof cases
    case e
    then have "k' = k" "r \<noteq> 0" using assms by (auto simp: deliver_signal_to_def const_defs split: if_splits)
    then show thesis by (rule error)
  next
    case (live x)
    show thesis
    proof (cases "sig = Sigkill")
      case True
      then show thesis using live assms by (intro killed [of x]) (simp_all add: deliver_signal_to_def const_defs)
    next
      case ns: False
      show thesis
      proof (cases "action sig (sig_state x)")
        case (ActHandler h)
        then show thesis using live ns assms by (intro pending [of x]) (simp_all add: deliver_signal_to_def const_defs)
      next
        case ActIgnore
        then show thesis using live ns assms by (intro ignored) (simp_all add: deliver_signal_to_def const_defs)
      next
        case ActDefault
        show thesis
        proof (cases "default_action sig")
          case Terminate
          then show thesis using live ns ActDefault assms by (intro killed [of x]) (simp_all add: deliver_signal_to_def const_defs)
        next
          case Ignore
          then show thesis using live ns ActDefault assms by (intro ignored) (simp_all add: deliver_signal_to_def const_defs)
        qed
      qed
    qed
  qed
qed

lemma sys_kill_cases:
  assumes "sys_kill p signum k = (r, k')"
  obtains (denied) "k' = k" "r \<noteq> 0"
  | (sent) sig where "signal_from_u32 (unat signum) = Some sig" "unat p < 256" "p \<noteq> 0"
      "unat p = current k \<or> cap_check (current_capabilities k) KILL = Inr ()"
      "deliver_signal_to (unat p) sig k = (r, k')"
proof (cases "signal_from_u32 (unat signum)")
  case None
  then show thesis using assms by (intro denied) (auto simp: sys_kill_def)
next
  case (Some sig)
  show thesis
  proof (cases "256 \<le> unat p \<or> p = 0 \<or> unat p \<noteq> current k \<and> cap_check (current_capabilities k) KILL \<noteq> Inr ()")
    case True
    then show thesis using assms Some
      by (intro denied) (auto simp: sys_kill_def current_pid_def cap_check_def split: if_splits)
  next
    case False
    then show thesis using assms Some
      by (intro sent [of sig]) (auto simp: sys_kill_def current_pid_def split: if_splits)
  qed
qed

section \<open>Properties of kill\<close>

definition authority :: "process \<Rightarrow> u32 \<times> pid option \<times> usize \<times> u32" where
  "authority p = (capabilities p, p_parent p, page_table_phys p, uid p)"

text \<open>C24: A kill touches no process but its target, never the first process, and without the kill
  capability nobody but the caller itself; capabilities, parents and address spaces of all processes
  stay as they are.\<close>

theorem kill_confined:
  assumes "proc_wf k" "sys_kill p signum k = (r, k')" "i < MAX_PROCS"
  shows "(i \<noteq> unat p \<or> i = 0 \<or> r \<noteq> 0 \<longrightarrow> procs k' ! i = procs k ! i) \<and>
      (i \<noteq> current k \<and> cap_check (current_capabilities k) KILL \<noteq> Inr () \<longrightarrow> procs k' ! i = procs k ! i) \<and>
      map_option authority (procs k' ! i) = map_option authority (procs k ! i)"
proof -
  have len: "length (procs k) = 16" using assms(1) by (rule proc_wf_length)
  have i: "i < 16" using assms(3) by (simp add: const_defs)
  from assms(2) show ?thesis
  proof (cases rule: sys_kill_cases)
    case (sent sig)
    from sent(5) show ?thesis
    proof (cases rule: deliver_signal_cases)
      case (pending x)
      then show ?thesis using sent(4) i len
        by (auto simp: upd_proc_nth option.map_comp o_def authority_def)
    next
      case (killed x)
      then show ?thesis using sent(4) i len
        by (auto simp: terminate_nth option.map_comp o_def authority_def)
    qed simp_all
  qed simp
qed

lemma boot_with_process:
  assumes "p_pid p < 16"
  shows "proc_wf (with_process p boot_kernel)" "procs (with_process p boot_kernel) ! p_pid p = Some p"
  using with_process_wf [OF boot_kernel_wf assms] proc_wf_length [OF boot_kernel_wf] assms by simp_all

theorem kill_confined_witness:
  "procs (snd (sys_kill 3 9 (with_process (example_process 3 Ready) boot_kernel))) ! 0 = procs boot_kernel ! 0"
proof -
  let ?k = "with_process (example_process 3 Ready) boot_kernel"
  have "procs (snd (sys_kill 3 9 ?k)) ! 0 = procs ?k ! 0"
    using kill_confined [of ?k 3 9 "fst (sys_kill 3 9 ?k)" "snd (sys_kill 3 9 ?k)" 0] boot_with_process(1) [of "example_process 3 Ready"]
    by (simp add: const_defs)
  then show ?thesis by simp
qed

text \<open>C31: \<open>SIGKILL\<close> cannot be caught, blocked or ignored: sent to a live process by itself or by a
  holder of the kill capability it leaves the target dead, without descriptors, futex waits or a
  supervisor claim. It returns no memory: the page allocator, the page tables and the target's inbox
  are unchanged, and so they are when the parent then reaps the slot; the frames and the address
  space of the killed process have no owner left that could free them.\<close>

theorem sigkill_terminates:
  assumes "proc_wf k" "procs k ! unat p = Some x" "p_state x \<noteq> Dead" "p \<noteq> 0" "unat p < MAX_PROCS"
    and "unat p = current k \<or> cap_check (current_capabilities k) KILL = Inr ()"
  shows "\<exists>k'. sys_kill p 9 k = (0, k') \<and>
    procs k' ! unat p = Some (x\<lparr>p_state := Dead, fds := replicate (length (fds x)) None\<rparr>) \<and>
    (\<forall>w. Some w \<in> set (futex_waiters k') \<longrightarrow> fw_pid w \<noteq> unat p) \<and>
    (\<forall>slot\<in>set (services (supervision k')). \<not> claims (unat p) slot) \<and>
    pages k' = pages k \<and> mmu k' = mmu k \<and> inboxes k' = inboxes k \<and> current k' = current k \<and>
    (\<forall>caller. pages (snd (waitpid (unat p) (k'\<lparr>current := caller\<rparr>))) = pages k \<and>
              mmu (snd (waitpid (unat p) (k'\<lparr>current := caller\<rparr>))) = mmu k)"
proof -
  have p: "unat p < 16" using assms(5) by (simp add: const_defs)
  have "sys_kill p 9 k = (0, terminate_process (unat p) k)"
    using assms p by (auto simp: sys_kill_def signal_from_u32_def deliver_signal_to_def current_pid_def const_defs unat_eq_zero)
  moreover have "pages (snd (waitpid (unat p) k1)) = pages k1" "mmu (snd (waitpid (unat p) k1)) = mmu k1" for k1
    by (simp_all add: waitpid_eq [OF p])
  ultimately show ?thesis
    using assms(2) terminate_nth [of "unat p" k "unat p"] p proc_wf_length [OF assms(1)]
      terminate_releases [of _ "unat p" k] by simp
qed

theorem sigkill_terminates_witness:
  "\<exists>k'. sys_kill 3 9 (with_process (example_process 3 Blocked) boot_kernel) = (0, k') \<and>
     map_option p_state (procs k' ! 3) = Some Dead"
proof -
  have caps: "cap_check (current_capabilities (with_process (example_process 3 Blocked) boot_kernel)) KILL = Inr ()"
    by (rule boot_procs) (simp add: current_capabilities_def cap_check_def const_defs)
  show ?thesis
    using sigkill_terminates [of "with_process (example_process 3 Blocked) boot_kernel" 3 "example_process 3 Blocked"]
      boot_with_process [of "example_process 3 Blocked"] caps by (auto simp: const_defs)
qed



section \<open>Signal frames\<close>

lemma current_page_table_upd:
  assumes "\<And>p. page_table_phys (f p) = page_table_phys p"
  shows "current_page_table (upd_proc j f k) = current_page_table k"
proof (cases "current k < length (procs k)")
  case True
  then show ?thesis using assms by (simp add: current_page_table_def upd_proc_nth split: option.splits)
next
  case False
  then have "procs (upd_proc j f k) ! current k = procs k ! current k"
    by (cases "j = current k") (simp_all add: upd_proc_def list_update_beyond)
  then show ?thesis by (simp add: current_page_table_def)
qed

text \<open>C25: Delivering a handled signal to an interrupted process whose stack has room saves the whole
  context on the user stack and enters the handler with the signal number, the trampoline as return
  address and the pending bit cleared; a \<open>sigreturn\<close> from any context with that stack pointer resumes
  the interrupted context exactly, but for the status word, which is forced to user mode.\<close>

theorem deliver_sigreturn_roundtrip:
  assumes "context_wf frame" "current_user_page_table k = Some (ttbr0 (mmu k))" "SIGNAL_FRAME_SIZE \<le> unat (ctx_sp frame)"
    and "validate_user_range (Some (ttbr0 (mmu k))) (unat (ctx_sp frame) - SIGNAL_FRAME_SIZE) SIGNAL_FRAME_SIZE Write (mmu k)"
    and "inj_on (pl0_translate (mmu k) Write) {unat (ctx_sp frame) - SIGNAL_FRAME_SIZE..<unat (ctx_sp frame)}"
  shows "\<exists>frame' k'. deliver frame sig handler k = (Inr frame', k') \<and>
    ctx_pc frame' = handler \<and> ctx_r frame' ! 0 = of_nat (signal_num sig) \<and> ctx_lr frame' = of_nat SIGNAL_TRAMPOLINE_VA \<and>
    (\<forall>p. cur_proc k' = Some p \<longrightarrow> current k < length (procs k) \<longrightarrow> \<not> is_pending sig (sig_state p)) \<and>
    (\<forall>f. ctx_sp f = ctx_sp frame' \<longrightarrow>
       sigreturn_frame f k' = Inr (frame\<lparr>ctx_cpsr := sanitize_user_cpsr (ctx_cpsr frame)\<rparr>))"
proof -
  let ?sp = "unat (ctx_sp frame) - SIGNAL_FRAME_SIZE" and ?m = "mmu k"
  have len: "length (encode_signal_frame frame) = SIGNAL_FRAME_SIZE" using assms(1) by (rule encode_length)
  have fa: "signal_frame_address (ctx_sp frame) = Some (ctx_sp frame - of_nat SIGNAL_FRAME_SIZE)"
    using assms(3) by (simp add: signal_frame_address_def)
  have sp: "unat (ctx_sp frame - of_nat SIGNAL_FRAME_SIZE) = ?sp"
    using assms(3) by (simp add: unat_sub word_le_nat_alt unat_of_nat const_defs)
  have "inj_on (pl0_translate ?m Write) {?sp..<?sp + length (encode_signal_frame frame)}" using assms(3,5) len by simp
  then obtain ram where ram: "copy_to_user (Some (ttbr0 ?m)) ?m ?sp (encode_signal_frame frame) (phys_mem (pages k)) = (Inr (), ram)"
    "copy_from_user (Some (ttbr0 ?m)) ?m ram ?sp SIGNAL_FRAME_SIZE = Inr (encode_signal_frame frame)"
    using user_copy_rt [of ?m ?sp "encode_signal_frame frame" "phys_mem (pages k)"] assms(4) len by auto
  define k1 where "k1 = k\<lparr>pages := (pages k)\<lparr>phys_mem := ram\<rparr>\<rparr>"
  define frame' where "frame' = frame\<lparr>ctx_sp := ctx_sp frame - of_nat SIGNAL_FRAME_SIZE, ctx_pc := handler,
      ctx_lr := of_nat SIGNAL_TRAMPOLINE_VA, ctx_r := (ctx_r frame)[0 := of_nat (signal_num sig)]\<rparr>"
  have d: "deliver frame sig handler k = (Inr frame', clear_pending_for_current sig k1)"
    using fa ram(1) sp assms(2) by (simp add: deliver_def user_write_def k1_def frame'_def)
  have pt: "current_user_page_table (clear_pending_for_current sig k1) = Some (ttbr0 ?m)"
    using assms(2) current_page_table_upd [of _ "current k" k1]
    by (simp add: current_user_page_table_def clear_pending_for_current_def current_pid_def)
      (simp add: k1_def current_page_table_def table_base_def)
  have resume: "sigreturn_frame f (clear_pending_for_current sig k1) = Inr (frame\<lparr>ctx_cpsr := sanitize_user_cpsr (ctx_cpsr frame)\<rparr>)"
    if "ctx_sp f = ctx_sp frame'" for f
    using that sp ram(2) pt decode_encode [OF assms(1)]
    by (simp add: sigreturn_frame_def user_read_def frame'_def) (simp add: clear_pending_for_current_def k1_def)
  have "\<not> is_pending sig (sig_state p)" if "cur_proc (clear_pending_for_current sig k1) = Some p" "current k < length (procs k)" for p
    using that by (auto simp: clear_pending_for_current_def k1_def upd_proc_nth)
  moreover have "ctx_r frame' ! 0 = of_nat (signal_num sig)" using assms(1) by (simp add: frame'_def context_wf_def)
  ultimately show ?thesis
    using d resume by (intro exI [of _ frame'] exI [of _ "clear_pending_for_current sig k1"]) (simp add: frame'_def)
qed

theorem deliver_sigreturn_roundtrip_witness:
  "\<exists>frame' k'. deliver (context_initial 0x7FF00000 0x20000800 0x10) Sigusr1 0x7FF00100
      (with_process (example_process 3 Running\<lparr>page_table_phys := 0x40140000\<rparr>) boot_kernel\<lparr>current := 3, mmu := one_page\<rparr>) = (Inr frame', k') \<and>
     ctx_pc frame' = 0x7FF00100 \<and> sigreturn_frame frame' k' = Inr (context_initial 0x7FF00000 0x20000800 0x10)"
proof -
  let ?f = "context_initial 0x7FF00000 0x20000800 0x10"
  let ?k = "with_process (example_process 3 Running\<lparr>page_table_phys := 0x40140000\<rparr>) boot_kernel\<lparr>current := 3, mmu := one_page\<rparr>"
  have pt: "current_user_page_table ?k = Some (ttbr0 (mmu ?k))"
    using proc_wf_length [OF boot_kernel_wf]
    by (simp add: current_user_page_table_def current_page_table_def current_pid_def one_page_def mmu_statics_def table_base_def)
  have f: "context_wf ?f" "unat (ctx_sp ?f) = 0x20000800" "?f\<lparr>ctx_cpsr := sanitize_user_cpsr (ctx_cpsr ?f)\<rparr> = ?f"
    by (simp_all add: context_initial_def context_wf_def sanitize_eq)
  have v: "validate_user_range (Some (ttbr0 (mmu ?k))) (unat (ctx_sp ?f) - SIGNAL_FRAME_SIZE) SIGNAL_FRAME_SIZE Write (mmu ?k)"
      "inj_on (pl0_translate (mmu ?k) Write) {unat (ctx_sp ?f) - SIGNAL_FRAME_SIZE..<unat (ctx_sp ?f)}"
    using one_page_range [of "0x200007BC" "68"] by (simp_all add: f(2) const_defs)
  have "SIGNAL_FRAME_SIZE \<le> unat (ctx_sp ?f)" by (simp add: f(2) const_defs)
  from deliver_sigreturn_roundtrip [OF f(1) pt this v, of Sigusr1 "0x7FF00100"] show ?thesis
    unfolding f(3) by blast
qed

end
