(* ===== verification/Memsys.thy ===== *)
theory Memsys
  imports Scheduling
begin

text \<open>
  The memory system calls of \<open>syscall.rs\<close>: single pages, the program break, anonymous mappings and
  their protection. Frames come from the page allocator and are entered in the page table of the
  calling process; every failure path gives them back. The searches and loops of the handlers are
  functions of their own.
\<close>

section \<open>Pages of the calling process\<close>

text \<open>The address of page \<open>i\<close> of a region, in \<open>usize\<close> arithmetic.\<close>

definition page_at :: "usize \<Rightarrow> nat \<Rightarrow> usize" where
  "page_at base i = uadd base (umul i PAGE_SIZE)"

text \<open>Enter a frame, splitting the section that covers the address first.\<close>

definition place_page :: "usize \<Rightarrow> usize \<Rightarrow> usize \<Rightarrow> u32 \<Rightarrow> mmu_state \<Rightarrow> bool \<times> mmu_state" where
  "place_page pt va phys attrs m =
    (case ensure_page_mappable pt va m of
       (False, m) \<Rightarrow> (False, m)
     | (True, m) \<Rightarrow> map_page pt va phys attrs m)"

text \<open>Read the frame, clear the entry, free the frame.\<close>

definition unmap_and_free :: "usize \<Rightarrow> usize \<Rightarrow> kernel \<Rightarrow> kernel" where
  "unmap_and_free pt va k =
    (let phys = read_l2_phys pt va (mmu k);
         k = k\<lparr>mmu := unmap_page pt va (mmu k)\<rparr>
     in case phys of None \<Rightarrow> k | Some f \<Rightarrow> k\<lparr>pages := free_page f (pages k)\<rparr>)"

text \<open>A stretch of work under the kernel's own table, after which the process table is live again.\<close>

definition under_kernel_table :: "usize \<Rightarrow> (kernel \<Rightarrow> kernel) \<Rightarrow> kernel \<Rightarrow> kernel" where
  "under_kernel_table pt f k =
    (let k = f (k\<lparr>mmu := switch_addr_space (table_base (mmu k)) (mmu k)\<rparr>)
     in k\<lparr>mmu := switch_addr_space pt (mmu k)\<rparr>)"

definition release_pages :: "usize \<Rightarrow> usize \<Rightarrow> nat \<Rightarrow> kernel \<Rightarrow> kernel" where
  "release_pages pt base n = under_kernel_table pt (fold (\<lambda>i. unmap_and_free pt (page_at base i)) [0..<n])"

section \<open>Single pages\<close>

definition sys_alloc_page :: "kernel \<Rightarrow> u32 \<times> kernel" where
  "sys_alloc_page k =
    (case alloc_page (pages k) of
       (Some addr, ps) \<Rightarrow> (of_nat addr, k\<lparr>pages := ps\<rparr>)
     | (None, ps) \<Rightarrow> (-1, k\<lparr>pages := ps\<rparr>))"

definition sys_free_page :: "u32 \<Rightarrow> kernel \<Rightarrow> u32 \<times> kernel" where
  "sys_free_page arg0 k =
    (if \<not> is_freeable_user_page (unat arg0) then (err EINVAL, k)
     else let (freed, ps) = try_free_page (unat arg0) (pages k)
          in (if freed then 0 else err EINVAL, k\<lparr>pages := ps\<rparr>))"

section \<open>The program break\<close>

definition round_up_page :: "usize \<Rightarrow> usize" where
  "round_up_page a = align_down (uadd a (PAGE_SIZE - 1))"

text \<open>The growth loop; the result is false when it returned early. Out of memory gives back the pages
  of this call; a failed mapping gives back only the page at hand.\<close>

fun brk_grow :: "usize \<Rightarrow> usize \<Rightarrow> u32 \<Rightarrow> nat list \<Rightarrow> kernel \<Rightarrow> bool \<times> kernel" where
  "brk_grow pt cur attrs [] k = (True, k)"
| "brk_grow pt cur attrs (i # is) k =
    (case alloc_page (pages k) of
       (None, ps) \<Rightarrow> (False, release_pages pt cur i (k\<lparr>pages := ps\<rparr>))
     | (Some phys, ps) \<Rightarrow>
        (let k = k\<lparr>pages := ps\<rparr> in
         case place_page pt (page_at cur i) phys attrs (mmu k) of
           (True, m) \<Rightarrow> brk_grow pt cur attrs is (k\<lparr>mmu := m\<rparr>)
         | (False, m) \<Rightarrow>
            (False, under_kernel_table pt (\<lambda>k. k\<lparr>pages := free_page phys (pages k)\<rparr>) (k\<lparr>mmu := m\<rparr>))))"

definition sys_brk :: "u32 \<Rightarrow> kernel \<Rightarrow> u32 \<times> kernel" where
  "sys_brk new_break_raw k =
    (let cur = current_heap_break k in
     if new_break_raw = 0 then (of_nat cur, k)
     else
       let new_break = round_up_page (unat new_break_raw);
           pt = current_page_table k
       in if pt = 0 then (of_nat cur, k)
          else if cur < new_break then
            (case brk_grow pt cur (prot_to_l2_flags (PROT_READ OR PROT_WRITE)) [0..<(new_break - cur) div PAGE_SIZE] k of
               (True, k) \<Rightarrow> (let k = set_heap_break new_break k in (of_nat (current_heap_break k), k))
             | (False, k) \<Rightarrow> (of_nat cur, k))
          else if new_break < cur then
            (let k = set_heap_break new_break (release_pages pt new_break ((cur - new_break) div PAGE_SIZE) k)
             in (of_nat (current_heap_break k), k))
          else (of_nat (current_heap_break k), k))"

section \<open>Anonymous mappings\<close>

definition MAP_FAILED :: u32 where "MAP_FAILED = -1"
definition MAP_ANONYMOUS :: u32 where "MAP_ANONYMOUS = 0x20"
definition MMAP_LIMIT :: usize where "MMAP_LIMIT = 0x30000000"

text \<open>The end of the first recorded mapping that overlaps the candidate region.\<close>

fun overlap_end :: "usize \<Rightarrow> usize \<Rightarrow> vm_mapping option list \<Rightarrow> usize option" where
  "overlap_end candidate candidate_end [] = None"
| "overlap_end candidate candidate_end (slot # slots) =
    (case slot of
       None \<Rightarrow> overlap_end candidate candidate_end slots
     | Some m \<Rightarrow>
        (let m_end = page_at (vm_start m) (vm_pages m) in
         if candidate < m_end \<and> vm_start m < candidate_end then Some m_end
         else overlap_end candidate candidate_end slots))"

lemma overlap_end_progress: "overlap_end c e slots = Some past \<Longrightarrow> c < past \<and> past < USIZE_MOD"
  by (induction slots) (auto simp: Let_def page_at_def split: option.splits if_splits)

function mmap_search :: "vm_mapping option list \<Rightarrow> nat \<Rightarrow> usize \<Rightarrow> usize option" where
  "mmap_search slots page_count candidate =
    (let candidate_end = page_at candidate page_count in
     if MMAP_LIMIT < candidate_end then None
     else case overlap_end candidate candidate_end slots of
       Some past \<Rightarrow> mmap_search slots page_count past
     | None \<Rightarrow> Some candidate)"
  by pat_completeness auto
termination
proof (relation "measure (\<lambda>(slots, page_count, candidate). USIZE_MOD - candidate)")
  fix slots page_count candidate candidate_end past
  assume "overlap_end candidate candidate_end slots = Some past"
  from overlap_end_progress [OF this]
  show "((slots, page_count, past), (slots, page_count, candidate)) \<in> measure (\<lambda>(slots, page_count, candidate). USIZE_MOD - candidate)"
    by (simp add: diff_less_mono2)
qed simp

declare mmap_search.simps [simp del]

text \<open>The loop that backs the region; on failure every frame of the call is given back.\<close>

fun mmap_pages :: "usize \<Rightarrow> usize \<Rightarrow> u32 \<Rightarrow> nat list \<Rightarrow> kernel \<Rightarrow> bool \<times> kernel" where
  "mmap_pages pt candidate attrs [] k = (True, k)"
| "mmap_pages pt candidate attrs (i # is) k =
    (case alloc_page (pages k) of
       (None, ps) \<Rightarrow> (False, release_pages pt candidate i (k\<lparr>pages := ps\<rparr>))
     | (Some phys, ps) \<Rightarrow>
        (let k = k\<lparr>pages := ps\<rparr> in
         case place_page pt (page_at candidate i) phys attrs (mmu k) of
           (True, m) \<Rightarrow> mmap_pages pt candidate attrs is (k\<lparr>mmu := m\<rparr>)
         | (False, m) \<Rightarrow>
            (False, under_kernel_table pt
               (\<lambda>k. fold (\<lambda>j. unmap_and_free pt (page_at candidate j)) [0..<i] (k\<lparr>pages := free_page phys (pages k)\<rparr>))
               (k\<lparr>mmu := m\<rparr>))))"

definition exec_only :: "u32 \<Rightarrow> bool" where
  "exec_only prot \<longleftrightarrow> prot AND (PROT_READ OR PROT_WRITE) = 0 \<and> prot AND PROT_EXEC \<noteq> 0"

text \<open>The slots the search reads: those of the current process.\<close>

definition current_mappings :: "kernel \<Rightarrow> vm_mapping option list" where
  "current_mappings k = (case cur_proc k of None \<Rightarrow> replicate MAX_MAPPINGS None | Some p \<Rightarrow> mappings p)"

definition sys_mmap :: "u32 \<Rightarrow> u32 \<Rightarrow> u32 \<Rightarrow> u32 \<Rightarrow> kernel \<Rightarrow> u32 \<times> kernel" where
  "sys_mmap arg0 arg1 prot_flags arg3 k =
    (let len = unat arg1; flags = arg3 AND 0xFFFF; fd = drop_bit 16 arg3 in
     if len = 0 then (MAP_FAILED, k)
     else if flags AND MAP_ANONYMOUS = 0 then (MAP_FAILED, k)
     else if fd \<noteq> 0xFFFF then (MAP_FAILED, k)
     else if exec_only prot_flags then (MAP_FAILED, k)
     else
       let page_count = div_ceil len PAGE_SIZE; pt = current_page_table k in
       if pt = 0 then (MAP_FAILED, k)
       else case mmap_search (current_mappings k) page_count MMAP_BASE of
         None \<Rightarrow> (MAP_FAILED, k)
       | Some candidate \<Rightarrow>
          (case mmap_pages pt candidate (prot_to_l2_flags prot_flags) [0..<page_count] k of
             (False, k) \<Rightarrow> (MAP_FAILED, k)
           | (True, k) \<Rightarrow>
              (case add_mapping \<lparr>vm_start = candidate, vm_pages = page_count, vm_prot = prot_flags\<rparr> k of
                 (Some _, k) \<Rightarrow> (of_nat candidate, k)
               | (None, k) \<Rightarrow> (MAP_FAILED, release_pages pt candidate page_count k))))"

definition sys_munmap :: "u32 \<Rightarrow> u32 \<Rightarrow> kernel \<Rightarrow> u32 \<times> kernel" where
  "sys_munmap arg0 arg1 k =
    (let pt = current_page_table k in
     if pt = 0 then (err EINVAL, k)
     else case remove_mapping (unat arg0) k of
       (None, k) \<Rightarrow> (err EINVAL, k)
     | (Some mapping, k) \<Rightarrow> (0, release_pages pt (vm_start mapping) (vm_pages mapping) k))"

text \<open>Change the pages of a region in order until one has no entry.\<close>

fun protect_pages :: "usize \<Rightarrow> usize \<Rightarrow> u32 \<Rightarrow> nat list \<Rightarrow> mmu_state \<Rightarrow> bool \<times> mmu_state" where
  "protect_pages pt base attrs [] m = (True, m)"
| "protect_pages pt base attrs (i # is) m =
    (case update_page_prot pt (page_at base i) attrs m of
       (False, m) \<Rightarrow> (False, m)
     | (True, m) \<Rightarrow> protect_pages pt base attrs is m)"

definition sys_mprotect :: "u32 \<Rightarrow> u32 \<Rightarrow> u32 \<Rightarrow> kernel \<Rightarrow> u32 \<times> kernel" where
  "sys_mprotect arg0 arg1 new_prot k =
    (let pt = current_page_table k in
     if pt = 0 then (err EINVAL, k)
     else if exec_only new_prot then (err EINVAL, k)
     else case find_mapping (unat arg0) k of
       None \<Rightarrow> (err EINVAL, k)
     | Some mapping \<Rightarrow>
        (case protect_pages pt (vm_start mapping) (prot_to_l2_flags new_prot) [0..<vm_pages mapping] (mmu k) of
           (False, m) \<Rightarrow> (err EFAULT, k\<lparr>mmu := m\<rparr>)
         | (True, m) \<Rightarrow> (0, snd (update_mapping_prot (unat arg0) new_prot (k\<lparr>mmu := m\<rparr>)))))"

section \<open>The search for a free region\<close>

lemma page_at_exact: "base + n * 4096 < USIZE_MOD \<Longrightarrow> page_at base n = base + n * 4096"
  by (simp add: page_at_def PAGE_SIZE_val)

definition mapping_end :: "vm_mapping \<Rightarrow> nat" where
  "mapping_end m = vm_start m + vm_pages m * PAGE_SIZE"

definition fits :: "vm_mapping option list \<Rightarrow> nat \<Rightarrow> usize \<Rightarrow> bool" where
  "fits slots n c \<longleftrightarrow> c + n * PAGE_SIZE \<le> MMAP_LIMIT \<and>
     (\<forall>m. Some m \<in> set slots \<longrightarrow> mapping_end m \<le> c \<or> c + n * PAGE_SIZE \<le> vm_start m)"

definition slots_ok :: "vm_mapping option list \<Rightarrow> bool" where
  "slots_ok slots \<longleftrightarrow> (\<forall>m. Some m \<in> set slots \<longrightarrow> mapping_end m \<le> MMAP_LIMIT)"

lemma overlap_end_cases:
  assumes "slots_ok slots"
  shows "case overlap_end c e slots of
      None \<Rightarrow> \<forall>m. Some m \<in> set slots \<longrightarrow> mapping_end m \<le> c \<or> e \<le> vm_start m
    | Some past \<Rightarrow> \<exists>m. Some m \<in> set slots \<and> past = mapping_end m \<and> c < past \<and> vm_start m < e"
  using assms
proof (induction slots)
  case (Cons slot slots)
  have ok: "slots_ok slots" using Cons.prems by (auto simp: slots_ok_def)
  show ?case
  proof (cases slot)
    case None
    then show ?thesis using Cons.IH [OF ok] by (auto split: option.splits)
  next
    case (Some m)
    have "page_at (vm_start m) (vm_pages m) = mapping_end m"
      using Cons.prems Some by (auto simp: slots_ok_def mapping_end_def PAGE_SIZE_val MMAP_LIMIT_def USIZE_MOD_def intro!: page_at_exact)
    then show ?thesis
      using Cons.IH [OF ok] Some by (auto simp: Let_def split: option.splits)
  qed
qed simp

lemma mmap_search_first:
  assumes "slots_ok slots" "n * PAGE_SIZE \<le> MMAP_LIMIT" "c \<le> MMAP_LIMIT"
  shows "case mmap_search slots n c of
      Some r \<Rightarrow> c \<le> r \<and> fits slots n r \<and> (\<forall>c'. c \<le> c' \<and> c' < r \<longrightarrow> \<not> fits slots n c')
    | None \<Rightarrow> \<forall>c'\<ge>c. \<not> fits slots n c'"
  using assms
proof (induction slots n c rule: mmap_search.induct)
  case (1 slots n c)
  let ?e = "c + n * PAGE_SIZE"
  have e: "page_at c n = ?e"
    using 1(3,4) page_at_exact [of c n] by (simp add: PAGE_SIZE_val MMAP_LIMIT_def USIZE_MOD_def)
  show ?case
  proof (cases "MMAP_LIMIT < ?e")
    case True
    then show ?thesis using e by (simp add: mmap_search.simps [of slots n c] fits_def)
  next
    case False
    show ?thesis
    proof (cases "overlap_end c ?e slots")
      case None
      then have "fits slots n c" using False overlap_end_cases [OF 1(2), of c ?e] by (simp add: fits_def)
      then show ?thesis using None False e by (auto simp: mmap_search.simps [of slots n c])
    next
      case (Some past)
      obtain m where m: "Some m \<in> set slots" "past = mapping_end m" "c < past" "vm_start m < ?e"
        using overlap_end_cases [OF 1(2), of c ?e] Some by auto
      have "past \<le> MMAP_LIMIT" using 1(2) m by (auto simp: slots_ok_def)
      note ih = 1(1) [OF e [symmetric] False [folded e, unfolded e] Some 1(2,3) this]
      have skip: "\<not> fits slots n c'" if "c \<le> c'" "c' < past" for c'
        using m that by (auto simp: fits_def)
      have step: "mmap_search slots n c = mmap_search slots n past"
        using Some False e by (simp add: mmap_search.simps [of slots n c])
      show ?thesis
        using ih skip m(3) unfolding step by (auto split: option.splits) (metis not_le)+
    qed
  qed
qed

section \<open>Properties\<close>



text \<open>C33: The bound check of the search wraps around: a request of \<open>0xE0000\<close> pages or more passes it at
  the base of the window whatever is mapped there, because the end of the region is computed modulo
  the address space. Existing mappings are then overwritten page by page.\<close>

theorem mmap_search_wraps:
  assumes "0xE0000 \<le> n" "n \<le> 0x100000" "\<forall>m. Some m \<in> set slots \<longrightarrow> MMAP_BASE \<le> vm_start m"
  shows "mmap_search slots n MMAP_BASE = Some MMAP_BASE"
proof -
  have e: "page_at MMAP_BASE n \<le> MMAP_BASE"
  proof (cases "n = 0x100000")
    case False
    then have "umul n PAGE_SIZE = n * 4096" using assms(2) by (simp add: umul_def USIZE_MOD_def PAGE_SIZE_val)
    moreover have "(MMAP_BASE + n * 4096) mod USIZE_MOD = MMAP_BASE + n * 4096 - USIZE_MOD"
      using assms(1,2) False by (simp add: USIZE_MOD_def const_defs mod_if)
    ultimately show ?thesis using assms(2) by (simp add: page_at_def uadd_def USIZE_MOD_def const_defs)
  qed (simp add: page_at_def umul_def uadd_def USIZE_MOD_def const_defs)
  then have "overlap_end MMAP_BASE (page_at MMAP_BASE n) slots = None"
    using assms(3) by (induction slots) (fastforce split: option.splits)+
  moreover have "\<not> MMAP_LIMIT < page_at MMAP_BASE n" using e by (simp add: MMAP_LIMIT_def process_sizes)
  ultimately show ?thesis by (simp add: mmap_search.simps [of slots n MMAP_BASE])
qed

theorem mmap_search_wraps_witness:
  "mmap_search [Some \<lparr>vm_start = MMAP_BASE, vm_pages = 3, vm_prot = 3\<rparr>] 0xE0000 MMAP_BASE = Some MMAP_BASE"
  by (rule mmap_search_wraps) simp_all

end
