(* ===== verification/Elf.thy ===== *)
theory Elf
  imports Memguard Signal
begin

text \<open>
  The ELF loader of \<open>elf.rs\<close>: validation of an untrusted image (\<open>validate\<close>), placement and
  allocation of the per-process image frame (\<open>plan_confined_image\<close>), and the loops that write the
  segments (\<open>load_confined\<close>). The image is a list of bytes; a header field is read at its offset in
  the packed layout. Instruction-cache maintenance has no effect on the state.
\<close>

section \<open>Model\<close>

definition ELF_MAGIC :: "u8 list" where "ELF_MAGIC = [0x7F, 69, 76, 70]"
definition ELFCLASS32 :: u8 where "ELFCLASS32 = 1"
definition ELFDATA2LSB :: u8 where "ELFDATA2LSB = 1"
definition EM_ARM :: u32 where "EM_ARM = 40"
definition PT_LOAD :: u32 where "PT_LOAD = 1"
definition PF_X :: u32 where "PF_X = 1"
definition PF_W :: u32 where "PF_W = 2"
definition PF_R :: u32 where "PF_R = 4"
definition EHDR_SIZE :: nat where "EHDR_SIZE = 52"
definition PHDR_SIZE :: nat where "PHDR_SIZE = 32"
definition MAX_ELF_PAGES :: nat where "MAX_ELF_PAGES = 2048"

lemmas elf_consts [const_defs] = ELFCLASS32_def ELFDATA2LSB_def EM_ARM_def PT_LOAD_def PF_X_def PF_W_def PF_R_def
lemma elf_sizes [const_defs]: "EHDR_SIZE = 52" "PHDR_SIZE = 32" "MAX_ELF_PAGES = 2048"
  by (simp_all add: EHDR_SIZE_def PHDR_SIZE_def MAX_ELF_PAGES_def)

definition flags_to_prot :: "u32 \<Rightarrow> u32" where
  "flags_to_prot p_flags =
    (if p_flags AND PF_R \<noteq> 0 then PROT_READ else 0) OR
    (if p_flags AND PF_W \<noteq> 0 then PROT_WRITE else 0) OR
    (if p_flags AND PF_X \<noteq> 0 then PROT_EXEC else 0)"

definition le16 :: "u8 list \<Rightarrow> nat \<Rightarrow> u32" where
  "le16 data i = from_bytes (data ! i) (data ! (i + 1)) 0 0"

definition le32 :: "u8 list \<Rightarrow> nat \<Rightarrow> u32" where
  "le32 data i = from_bytes (data ! i) (data ! (i + 1)) (data ! (i + 2)) (data ! (i + 3))"

record elf32_ehdr =
  e_ident :: "u8 list"
  e_machine :: u32
  e_entry :: u32
  e_phoff :: u32
  e_phentsize :: u32
  e_phnum :: u32

definition read_ehdr :: "u8 list \<Rightarrow> elf32_ehdr" where
  "read_ehdr data = \<lparr>e_ident = take 16 data, e_machine = le16 data 18, e_entry = le32 data 24,
     e_phoff = le32 data 28, e_phentsize = le16 data 42, e_phnum = le16 data 44\<rparr>"

record elf32_phdr =
  p_type :: u32
  p_offset :: u32
  p_vaddr :: u32
  p_filesz :: u32
  p_memsz :: u32
  p_flags :: u32

definition read_phdr :: "u8 list \<Rightarrow> nat \<Rightarrow> elf32_phdr" where
  "read_phdr data i = \<lparr>p_type = le32 data i, p_offset = le32 data (i + 4), p_vaddr = le32 data (i + 8),
     p_filesz = le32 data (i + 16), p_memsz = le32 data (i + 20), p_flags = le32 data (i + 24)\<rparr>"

datatype elf_error = BadMagic | Not32Bit | NotLittleEndian | NotArm | OutOfMemory | InvalidSegment

record segment =
  s_vaddr :: usize
  s_memsz :: usize
  s_filesz :: usize
  s_offset :: usize
  s_flags :: u32

record validated_elf =
  v_segments :: "segment list"
  total_pages :: nat

record loaded_elf =
  l_entry :: usize
  pages_used :: nat
  l_segments :: "(usize \<times> usize \<times> u32) list"
  image_phys :: usize
  image_lo :: usize
  image_pages :: nat

definition checked_mul :: "usize \<Rightarrow> usize \<Rightarrow> usize option" where
  "checked_mul a b = (if a * b < USIZE_MOD then Some (a * b) else None)"

text \<open>One program header of the loop in \<open>validate\<close>.\<close>

definition validate_phdr :: "u8 list \<Rightarrow> elf32_phdr \<Rightarrow> validated_elf \<Rightarrow> elf_error + validated_elf" where
  "validate_phdr data ph v =
    (if p_type ph \<noteq> PT_LOAD then Inr v
     else
       let vaddr = unat (p_vaddr ph); memsz = unat (p_memsz ph); filesz = unat (p_filesz ph); off = unat (p_offset ph)
       in case checked_add off filesz of
            None \<Rightarrow> Inl InvalidSegment
          | Some file_end \<Rightarrow>
             if length data < file_end then Inl InvalidSegment
             else if \<not> validate_user_buffer vaddr memsz then Inl InvalidSegment
             else (case map_option (\<lambda>r. r div PAGE_SIZE) (checked_add memsz (PAGE_SIZE - 1)) of
                     None \<Rightarrow> Inl InvalidSegment
                   | Some seg_pages \<Rightarrow>
                      if MAX_ELF_PAGES < total_pages v + seg_pages then Inl InvalidSegment
                      else if 16 \<le> length (v_segments v) then Inl InvalidSegment
                      else Inr (v\<lparr>total_pages := total_pages v + seg_pages,
                                  v_segments := v_segments v @ [\<lparr>s_vaddr = vaddr, s_memsz = memsz, s_filesz = filesz,
                                    s_offset = off, s_flags = p_flags ph\<rparr>]\<rparr>)))"

fun validate_phdrs :: "u8 list \<Rightarrow> usize \<Rightarrow> usize \<Rightarrow> nat list \<Rightarrow> validated_elf \<Rightarrow> elf_error + validated_elf" where
  "validate_phdrs data phoff phentsize [] v = Inr v"
| "validate_phdrs data phoff phentsize (i # is) v =
    (case Option.bind (checked_mul i phentsize) (\<lambda>stride. checked_add stride phoff) of
       None \<Rightarrow> Inl InvalidSegment
     | Some off \<Rightarrow>
        (case checked_add off PHDR_SIZE of
           None \<Rightarrow> Inl InvalidSegment
         | Some off_end \<Rightarrow>
            if length data < off_end then Inl InvalidSegment
            else (case validate_phdr data (read_phdr data off) v of
                    Inl e \<Rightarrow> Inl e
                  | Inr v \<Rightarrow> validate_phdrs data phoff phentsize is v)))"

definition entry_in_loaded_segment :: "usize \<Rightarrow> segment list \<Rightarrow> bool" where
  "entry_in_loaded_segment entry segs =
    list_ex (\<lambda>s. s_vaddr s \<le> entry \<and> entry < saturating_add (s_vaddr s) (s_memsz s)) segs"

definition validate :: "u8 list \<Rightarrow> elf_error + (usize \<times> validated_elf)" where
  "validate data =
    (if length data < EHDR_SIZE then Inl BadMagic
     else
       let eh = read_ehdr data
       in if take 4 (e_ident eh) \<noteq> ELF_MAGIC then Inl BadMagic
          else if e_ident eh ! 4 \<noteq> ELFCLASS32 then Inl Not32Bit
          else if e_ident eh ! 5 \<noteq> ELFDATA2LSB then Inl NotLittleEndian
          else if e_machine eh \<noteq> EM_ARM then Inl NotArm
          else
            let entry = unat (e_entry eh); phoff = unat (e_phoff eh); phnum = unat (e_phnum eh); phentsize = unat (e_phentsize eh)
            in if 0 < phnum \<and> phentsize < PHDR_SIZE then Inl InvalidSegment
               else case validate_phdrs data phoff phentsize [0..<phnum] \<lparr>v_segments = [], total_pages = 0\<rparr> of
                      Inl e \<Rightarrow> Inl e
                    | Inr v \<Rightarrow>
                       if entry_in_loaded_segment entry (v_segments v) then Inr (entry, v) else Inl InvalidSegment)"

text \<open>The pass over the segments: \<open>None\<close> when one lies outside the window, else the lowest address
  and the highest end.\<close>

fun image_span :: "usize \<Rightarrow> usize \<Rightarrow> segment list \<Rightarrow> usize \<Rightarrow> usize \<Rightarrow> (usize \<times> usize) option" where
  "image_span lo hi [] lo_img max_end = Some (lo_img, max_end)"
| "image_span lo hi (s # ss) lo_img max_end =
    (if s_vaddr s < lo \<or> hi < s_vaddr s + s_memsz s then None
     else image_span lo hi ss (min lo_img (s_vaddr s)) (max max_end (s_vaddr s + s_memsz s)))"

definition plan_confined_image :: "validated_elf \<Rightarrow> usize \<Rightarrow> usize \<Rightarrow> page_state \<Rightarrow> (elf_error + usize \<times> usize) \<times> page_state" where
  "plan_confined_image v lo hi ps =
    (case image_span lo hi (v_segments v) (USIZE_MOD - 1) 0 of
       None \<Rightarrow> (Inl InvalidSegment, ps)
     | Some (lo_img, max_end) \<Rightarrow>
        if div_ceil (max_end - lo_img) PAGE_SIZE \<noteq> total_pages v then (Inl InvalidSegment, ps)
        else (case alloc_contiguous (total_pages v) ps of
                (None, ps) \<Rightarrow> (Inl OutOfMemory, ps)
              | (Some phys, ps) \<Rightarrow> (Inr (phys, lo_img), ps)))"

definition segment_byte :: "u8 list \<Rightarrow> segment \<Rightarrow> nat \<Rightarrow> u8" where
  "segment_byte data s byte_offset =
    (if byte_offset < s_filesz s then
       (case checked_add (s_offset s) byte_offset of
          None \<Rightarrow> 0
        | Some i \<Rightarrow> if i < length data then data ! i else 0)
     else 0)"

definition load_segment_page :: "u8 list \<Rightarrow> segment \<Rightarrow> usize \<Rightarrow> nat \<Rightarrow> mem \<Rightarrow> mem" where
  "load_segment_page data s seg_dest p ram =
    (let dest = seg_dest + p * PAGE_SIZE;
         page_start = p * PAGE_SIZE;
         page_end = min (page_start + PAGE_SIZE) (s_memsz s)
     in fold (\<lambda>k ram. ram(dest + (k - page_start) := segment_byte data s k)) [page_start..<page_end] ram)"

definition load_segment :: "u8 list \<Rightarrow> usize \<Rightarrow> usize \<Rightarrow> segment \<Rightarrow> mem \<Rightarrow> mem" where
  "load_segment data phys lo_img s ram =
    (let seg_dest = phys + (s_vaddr s - lo_img);
         num_pages = div_ceil (s_memsz s) PAGE_SIZE
     in fold (load_segment_page data s seg_dest) [0..<num_pages] ram)"

definition load_confined :: "u8 list \<Rightarrow> usize \<Rightarrow> usize \<Rightarrow> page_state \<Rightarrow> (elf_error + loaded_elf) \<times> page_state" where
  "load_confined data lo hi ps =
    (case validate data of
       Inl e \<Rightarrow> (Inl e, ps)
     | Inr (entry, v) \<Rightarrow>
        if free_count ps < total_pages v then (Inl OutOfMemory, ps)
        else (case plan_confined_image v lo hi ps of
                (Inl e, ps) \<Rightarrow> (Inl e, ps)
              | (Inr (phys, lo_img), ps) \<Rightarrow>
                 (Inr \<lparr>l_entry = entry, pages_used = sum_list (map (\<lambda>s. div_ceil (s_memsz s) PAGE_SIZE) (v_segments v)),
                       l_segments = map (\<lambda>s. (s_vaddr s, s_memsz s, s_flags s)) (v_segments v),
                       image_phys = phys, image_lo = lo_img, image_pages = total_pages v\<rparr>,
                  ps\<lparr>phys_mem := fold (load_segment data phys lo_img) (v_segments v) (phys_mem ps)\<rparr>)))"

section \<open>Validation\<close>

definition segment_ok :: "u8 list \<Rightarrow> segment \<Rightarrow> bool" where
  "segment_ok data s \<longleftrightarrow> s_offset s + s_filesz s \<le> length data \<and> s_offset s + s_filesz s < USIZE_MOD \<and>
     (s_memsz s = 0 \<or> KERNEL_END \<le> s_vaddr s \<and> s_vaddr s + s_memsz s \<le> RAM_END)"

definition elf_wf :: "u8 list \<Rightarrow> validated_elf \<Rightarrow> bool" where
  "elf_wf data v \<longleftrightarrow> length (v_segments v) \<le> 16 \<and> total_pages v \<le> MAX_ELF_PAGES \<and>
     total_pages v = sum_list (map (\<lambda>s. div_ceil (s_memsz s) PAGE_SIZE) (v_segments v)) \<and>
     (\<forall>s\<in>set (v_segments v). segment_ok data s)"

lemma validate_phdr_wf:
  assumes "elf_wf data v" "validate_phdr data ph v = Inr v'"
  shows "elf_wf data v'"
proof (cases "p_type ph = PT_LOAD")
  case False
  then show ?thesis using assms by (simp add: validate_phdr_def)
next
  case True
  then obtain file_end r where
    f: "checked_add (unat (p_offset ph)) (unat (p_filesz ph)) = Some file_end" "file_end \<le> length data"
      "validate_user_buffer (unat (p_vaddr ph)) (unat (p_memsz ph))"
      "checked_add (unat (p_memsz ph)) (PAGE_SIZE - 1) = Some r" "total_pages v + r div PAGE_SIZE \<le> MAX_ELF_PAGES"
      "length (v_segments v) < 16"
    and v': "v' = v\<lparr>total_pages := total_pages v + r div PAGE_SIZE, v_segments := v_segments v @
      [\<lparr>s_vaddr = unat (p_vaddr ph), s_memsz = unat (p_memsz ph), s_filesz = unat (p_filesz ph), s_offset = unat (p_offset ph), s_flags = p_flags ph\<rparr>]\<rparr>"
    using assms(2) by (auto simp: validate_phdr_def Let_def not_less split: option.splits if_splits)
  have "r div PAGE_SIZE = div_ceil (unat (p_memsz ph)) PAGE_SIZE"
    using f(4) by (auto simp: checked_add_def div_ceil_def PAGE_SIZE_val split: if_splits)
  moreover have "unat (p_offset ph) + unat (p_filesz ph) \<le> length data" "unat (p_offset ph) + unat (p_filesz ph) < USIZE_MOD"
    using f(1,2) by (auto simp: checked_add_def split: if_splits)
  moreover have "unat (p_memsz ph) = 0 \<or> KERNEL_END \<le> unat (p_vaddr ph) \<and> unat (p_vaddr ph) + unat (p_memsz ph) \<le> RAM_END"
    using f(3) by (auto simp: validate_user_buffer_def checked_add_def split: if_splits)
  ultimately show ?thesis using assms(1) f(5,6) unfolding v' elf_wf_def by (auto simp: segment_ok_def)
qed

lemma validate_phdrs_wf:
  "elf_wf data v \<Longrightarrow> validate_phdrs data phoff phentsize is v = Inr v' \<Longrightarrow> elf_wf data v'"
proof (induction "is" arbitrary: v)
  case (Cons i ix)
  then obtain off v1 where "validate_phdr data (read_phdr data off) v = Inr v1" "validate_phdrs data phoff phentsize ix v1 = Inr v'"
    by (auto split: option.splits sum.splits if_splits)
  then show ?case using Cons.IH validate_phdr_wf [OF Cons.prems(1)] by blast
qed simp

lemma validate_wf:
  assumes "validate data = Inr (entry, v)"
  shows "elf_wf data v" "entry_in_loaded_segment entry (v_segments v)"
proof -
  obtain phoff phentsize phnum where "validate_phdrs data phoff phentsize [0..<phnum] \<lparr>v_segments = [], total_pages = 0\<rparr> = Inr v"
      "entry_in_loaded_segment entry (v_segments v)"
    using assms by (auto simp: validate_def Let_def split: if_splits sum.splits)
  moreover have "elf_wf data \<lparr>v_segments = [], total_pages = 0\<rparr>" by (simp add: elf_wf_def)
  ultimately show "elf_wf data v" "entry_in_loaded_segment entry (v_segments v)" using validate_phdrs_wf by blast+
qed

section \<open>Writing the segments\<close>

lemma fold_store_range:
  "fold (\<lambda>k ram. ram(d + k := f k)) [i..<j] ram = (\<lambda>a. if d + i \<le> a \<and> a < d + j then f (a - d) else ram a)"
proof (induction j)
  case (Suc j)
  then show ?case by (cases "i \<le> j") (auto simp: fun_eq_iff)
qed (auto simp: fun_eq_iff)

lemma load_segment_page_eq:
  "load_segment_page data s d p ram =
    (\<lambda>a. if d + p * 4096 \<le> a \<and> a < d + min (p * 4096 + 4096) (s_memsz s) then segment_byte data s (a - d) else ram a)"
proof -
  have "fold (\<lambda>k ram. ram(d + p * 4096 + (k - p * 4096) := segment_byte data s k)) [p * 4096..<e] ram =
      fold (\<lambda>k ram. ram(d + k := segment_byte data s k)) [p * 4096..<e] ram" for e
    by (rule fold_cong) auto
  then show ?thesis by (simp add: load_segment_page_def Let_def PAGE_SIZE_val fold_store_range)
qed

lemma load_segment_pages_eq:
  "fold (load_segment_page data s d) [0..<n] ram =
    (\<lambda>a. if d \<le> a \<and> a < d + min (n * 4096) (s_memsz s) then segment_byte data s (a - d) else ram a)"
proof (induction n)
  case (Suc n)
  then show ?case by (auto simp: fun_eq_iff load_segment_page_eq min_def)
qed (auto simp: fun_eq_iff)

lemma div_ceil_bounds: "a \<le> div_ceil a 4096 * 4096" "0 < a \<Longrightarrow> (div_ceil a 4096 - 1) * 4096 < a"
proof -
  let ?q = "(a + 4095) div 4096"
  have "(a + 4095) mod 4096 < 4096" "4096 * ?q + (a + 4095) mod 4096 = a + 4095" by simp_all
  then show "a \<le> div_ceil a 4096 * 4096" "0 < a \<Longrightarrow> (div_ceil a 4096 - 1) * 4096 < a"
    by (simp_all add: div_ceil_def diff_mult_distrib)
qed

lemma load_segment_eq:
  "load_segment data phys lo s ram =
    (\<lambda>a. if phys + (s_vaddr s - lo) \<le> a \<and> a < phys + (s_vaddr s - lo) + s_memsz s
         then segment_byte data s (a - (phys + (s_vaddr s - lo))) else ram a)"
proof -
  have "min (div_ceil (s_memsz s) 4096 * 4096) (s_memsz s) = s_memsz s" using div_ceil_bounds(1) [of "s_memsz s"] by simp
  then show ?thesis by (simp add: load_segment_def Let_def PAGE_SIZE_val load_segment_pages_eq)
qed

definition covers :: "usize \<Rightarrow> usize \<Rightarrow> segment \<Rightarrow> usize \<Rightarrow> bool" where
  "covers phys lo s a \<longleftrightarrow> phys + (s_vaddr s - lo) \<le> a \<and> a < phys + (s_vaddr s - lo) + s_memsz s"

text \<open>After all segments the last one that covers an address decides its byte.\<close>

lemma fold_load_segment:
  "fold (load_segment data phys lo) ss ram a =
    (case find (\<lambda>s. covers phys lo s a) (rev ss) of
       None \<Rightarrow> ram a
     | Some s \<Rightarrow> segment_byte data s (a - (phys + (s_vaddr s - lo))))"
proof (induction ss rule: rev_induct)
  case (snoc s ss)
  then show ?case by (simp add: load_segment_eq covers_def)
qed simp

lemma image_span_bounds:
  "image_span lo hi ss l0 m0 = Some (l, m) \<Longrightarrow>
    (\<forall>s\<in>set ss. lo \<le> s_vaddr s \<and> s_vaddr s + s_memsz s \<le> hi \<and> l \<le> s_vaddr s \<and> s_vaddr s + s_memsz s \<le> m) \<and> l \<le> l0 \<and> m0 \<le> m"
proof (induction ss arbitrary: l0 m0)
  case (Cons s ss)
  then have "image_span lo hi ss (min l0 (s_vaddr s)) (max m0 (s_vaddr s + s_memsz s)) = Some (l, m)"
      "lo \<le> s_vaddr s" "s_vaddr s + s_memsz s \<le> hi"
    by (auto split: if_splits)
  then show ?case using Cons.IH by fastforce
qed simp

lemma plan_cases:
  assumes inv: "page_inv ps" and plan: "plan_confined_image v lo hi ps = (r, ps')"
  obtains (failed) e where "r = Inl e" "ps' = ps"
  | (planned) st lo_img where "r = Inr (frame_addr ps st, lo_img)" "{st..<st + total_pages v} \<subseteq> free_set (page_bitmap ps)"
      "free_set (page_bitmap ps') = free_set (page_bitmap ps) - {st..<st + total_pages v}" "page_inv ps'"
      "phys_mem ps' = phys_mem ps"
      "\<And>s. s \<in> set (v_segments v) \<Longrightarrow> lo \<le> s_vaddr s \<and> s_vaddr s + s_memsz s \<le> hi \<and> lo_img \<le> s_vaddr s \<and>
         s_vaddr s - lo_img + s_memsz s \<le> total_pages v * 4096"
proof (cases "image_span lo hi (v_segments v) (USIZE_MOD - 1) 0")
  case None
  then show thesis using plan by (intro failed [of InvalidSegment]) (simp_all add: plan_confined_image_def)
next
  case (Some lm)
  obtain l m where lm: "lm = (l, m)" by fastforce
  note span = image_span_bounds [OF Some [unfolded lm]]
  show thesis
  proof (cases "div_ceil (m - l) PAGE_SIZE = total_pages v")
    case False
    then show thesis using plan Some lm by (intro failed [of InvalidSegment]) (simp_all add: plan_confined_image_def)
  next
    case True
    obtain r1 ps1 where al: "alloc_contiguous (total_pages v) ps = (r1, ps1)" by fastforce
    have ps1: "ps' = ps1" using plan Some lm True al by (auto simp: plan_confined_image_def split: option.splits)
    from inv al show thesis
    proof (cases rule: alloc_contiguous_cases)
      case none
      then show thesis using plan Some lm True al by (intro failed [of OutOfMemory]) (simp_all add: plan_confined_image_def)
    next
      case (some st)
      have "m - l \<le> total_pages v * 4096" using div_ceil_bounds(1) [of "m - l"] True by (simp add: PAGE_SIZE_val)
      then have seg: "lo \<le> s_vaddr s \<and> s_vaddr s + s_memsz s \<le> hi \<and> l \<le> s_vaddr s \<and> s_vaddr s - l + s_memsz s \<le> total_pages v * 4096"
        if "s \<in> set (v_segments v)" for s using span that by fastforce
      have "r = Inr (frame_addr ps st, l)" using plan Some lm True al some(1) by (simp add: plan_confined_image_def)
      from planned [OF this some(3) some(5) [folded ps1] some(6) [folded ps1] some(7) [folded ps1] seg]
      show thesis .
    qed
  qed
qed

section \<open>Properties\<close>

text \<open>C26: An image that passes validation is safe to load: every segment's file range lies inside the
  file, every non-empty memory range inside the user DRAM window, there are at most 16 segments
  whose page total is within the budget and is exactly the sum of their sizes in pages, and the
  entry point lies inside one of them. All header fields are untrusted words.\<close>

theorem elf_validate_sound:
  assumes "validate data = Inr (entry, v)"
  shows "length (v_segments v) \<le> 16 \<and> total_pages v \<le> MAX_ELF_PAGES \<and>
    total_pages v = sum_list (map (\<lambda>s. div_ceil (s_memsz s) PAGE_SIZE) (v_segments v)) \<and>
    (\<forall>s\<in>set (v_segments v). s_offset s + s_filesz s \<le> length data \<and>
       (s_memsz s = 0 \<or> KERNEL_END \<le> s_vaddr s \<and> s_vaddr s + s_memsz s \<le> RAM_END)) \<and>
    (\<exists>s\<in>set (v_segments v). s_vaddr s \<le> entry \<and> entry < s_vaddr s + s_memsz s)"
proof -
  have "\<exists>s\<in>set (v_segments v). s_vaddr s \<le> entry \<and> entry < s_vaddr s + s_memsz s"
    using validate_wf(2) [OF assms] by (fastforce simp: entry_in_loaded_segment_def list_ex_iff saturating_add_def)
  then show ?thesis using validate_wf(1) [OF assms] by (auto simp: elf_wf_def segment_ok_def)
qed

text \<open>An image with one segment: four bytes of code at the user text base, eight bytes of memory.\<close>

definition tiny_elf :: "u8 list" where
  "tiny_elf = [0x7F, 69, 76, 70, 1, 1, 1, 0, 0, 0, 0, 0, 0, 0, 0, 0] @ [2, 0, 40, 0, 1, 0, 0, 0] @
     [0, 0, 0xF0, 0x7F] @ [52, 0, 0, 0] @ [0, 0, 0, 0] @ [0, 0, 0, 0] @ [52, 0, 32, 0, 1, 0, 0, 0, 0, 0, 0, 0] @
     [1, 0, 0, 0] @ [84, 0, 0, 0] @ [0, 0, 0xF0, 0x7F] @ [0, 0, 0, 0] @ [4, 0, 0, 0] @ [8, 0, 0, 0] @ [5, 0, 0, 0] @ [0, 16, 0, 0] @
     [11, 22, 33, 44]"

lemma tiny_elf_valid:
  "validate tiny_elf = Inr (0x7FF00000, \<lparr>v_segments = [\<lparr>s_vaddr = 0x7FF00000, s_memsz = 8, s_filesz = 4, s_offset = 84, s_flags = 5\<rparr>],
     total_pages = 1\<rparr>)"
  by (simp add: validate_def tiny_elf_def read_ehdr_def le16_def le32_def from_bytes_def elf_sizes ELF_MAGIC_def elf_consts
      read_phdr_def validate_phdr_def checked_mul_def checked_add_def USIZE_MOD_def validate_user_buffer_def const_defs
      entry_in_loaded_segment_def saturating_add_def)

theorem elf_validate_sound_witness:
  "\<exists>v. validate tiny_elf = Inr (0x7FF00000, v) \<and> length (v_segments v) \<le> 16 \<and> total_pages v \<le> MAX_ELF_PAGES"
  using elf_validate_sound [OF tiny_elf_valid] tiny_elf_valid by blast



text \<open>C34: The placement check accepts overlapping segments when a gap makes up for the overlap: the
  comparison of the span with the page total is no proof that the segments tile the image. Two
  segments on the same page and one two pages above it are planned as three contiguous frames, of
  which the middle one belongs to no segment.\<close>

theorem plan_accepts_overlap_and_gap:
  assumes "lo + 12288 \<le> hi" "hi < USIZE_MOD"
  shows "plan_confined_image
      \<lparr>v_segments = [\<lparr>s_vaddr = lo, s_memsz = 4096, s_filesz = n, s_offset = i, s_flags = f\<rparr>,
         \<lparr>s_vaddr = lo, s_memsz = 4096, s_filesz = n, s_offset = i, s_flags = f'\<rparr>,
         \<lparr>s_vaddr = lo + 8192, s_memsz = 4096, s_filesz = n, s_offset = i, s_flags = f\<rparr>], total_pages = 3\<rparr> lo hi ps =
    (case alloc_contiguous 3 ps of (None, ps) \<Rightarrow> (Inl OutOfMemory, ps) | (Some phys, ps) \<Rightarrow> (Inr (phys, lo), ps))"
  using assms by (auto simp: plan_confined_image_def div_ceil_def PAGE_SIZE_val min_def max_def)

theorem plan_accepts_overlap_and_gap_witness:
  "\<exists>phys ps'. plan_confined_image
      \<lparr>v_segments = [\<lparr>s_vaddr = 0x7FF00000, s_memsz = 4096, s_filesz = 0, s_offset = 0, s_flags = 5\<rparr>,
         \<lparr>s_vaddr = 0x7FF00000, s_memsz = 4096, s_filesz = 0, s_offset = 0, s_flags = 6\<rparr>,
         \<lparr>s_vaddr = 0x7FF02000, s_memsz = 4096, s_filesz = 0, s_offset = 0, s_flags = 5\<rparr>], total_pages = 3\<rparr>
      0x7FF00000 0x80000000 boot_pages = (Inr (phys, 0x7FF00000), ps')"
proof -
  obtain ps' where "alloc_contiguous 3 boot_pages = (Some (frame_addr boot_pages 512), ps')"
    using boot_alloc_run [of 3] by (cases "alloc_contiguous 3 boot_pages") simp
  then show ?thesis
    using plan_accepts_overlap_and_gap [of "0x7FF00000" "0x80000000" 0 0 5 6 boot_pages] by (simp add: USIZE_MOD_def)
qed

end
