(* ===== verification/Lifecycle.thy ===== *)
theory Lifecycle
  imports Memsys Elf
begin

text \<open>
  The operations of \<open>process.rs\<close> that build and tear down address spaces: spawning kernel threads and
  user images, fork, exec, exit and the fault exit, and \<open>sys_execve\<close> of \<open>syscall.rs\<close>. A loop with an
  early return is a function whose boolean result says whether it ran to its end. Instruction-cache
  and TLB maintenance have no effect on the state.
\<close>

section \<open>Mapping an image\<close>

definition grant_page :: "usize \<Rightarrow> usize \<Rightarrow> usize \<Rightarrow> u32 \<Rightarrow> mmu_state \<Rightarrow> bool \<times> mmu_state" where
  "grant_page pt va phys attrs m =
    (case shatter_section pt va m of
       (False, m) \<Rightarrow> (False, m)
     | (True, m) \<Rightarrow> map_page pt va phys attrs m)"

fun grant_pages :: "usize \<Rightarrow> u32 \<Rightarrow> (usize \<times> usize) list \<Rightarrow> mmu_state \<Rightarrow> bool \<times> mmu_state" where
  "grant_pages pt attrs [] m = (True, m)"
| "grant_pages pt attrs ((va, phys) # ps) m =
    (case grant_page pt va phys attrs m of
       (False, m) \<Rightarrow> (False, m)
     | (True, m) \<Rightarrow> grant_pages pt attrs ps m)"

definition segment_pages :: "loaded_elf \<Rightarrow> usize \<Rightarrow> usize \<Rightarrow> (usize \<times> usize) list" where
  "segment_pages loaded vaddr memsz =
    map (\<lambda>p. let va = page_at vaddr p in (va, uadd (image_phys loaded) (usub va (image_lo loaded))))
      [0..<div_ceil memsz PAGE_SIZE]"

fun map_segments :: "usize \<Rightarrow> loaded_elf \<Rightarrow> (usize \<times> usize \<times> u32) list \<Rightarrow> mmu_state \<Rightarrow> bool \<times> mmu_state" where
  "map_segments pt loaded [] m = (True, m)"
| "map_segments pt loaded ((vaddr, memsz, p_fl) # segs) m =
    (if vaddr mod PAGE_SIZE \<noteq> 0 then (False, m)
     else case grant_pages pt (prot_to_l2_flags (flags_to_prot p_fl)) (segment_pages loaded vaddr memsz) m of
       (False, m) \<Rightarrow> (False, m)
     | (True, m) \<Rightarrow> map_segments pt loaded segs m)"

definition map_user_image :: "usize \<Rightarrow> loaded_elf \<Rightarrow> mmu_state \<Rightarrow> bool \<times> mmu_state" where
  "map_user_image pt loaded m = map_segments pt loaded (l_segments loaded) m"

definition map_user_stack :: "usize \<Rightarrow> usize \<Rightarrow> nat \<Rightarrow> mmu_state \<Rightarrow> bool \<times> mmu_state" where
  "map_user_stack pt base n m =
    grant_pages pt (prot_to_l2_flags (PROT_READ OR PROT_WRITE)) (map (\<lambda>i. (page_at base i, page_at base i)) [0..<n]) m"

definition write_trampoline_page :: "usize \<Rightarrow> mem \<Rightarrow> mem" where
  "write_trampoline_page phys ram =
    store32 (store32 ram phys (trampoline_words ! 0)) (uadd phys 4) (trampoline_words ! 1)"

definition map_signal_trampoline :: "usize \<Rightarrow> kernel \<Rightarrow> usize option \<times> kernel" where
  "map_signal_trampoline pt k =
    (case alloc_page (pages k) of
       (None, ps) \<Rightarrow> (None, k\<lparr>pages := ps\<rparr>)
     | (Some phys, ps) \<Rightarrow>
        (case grant_page pt SIGNAL_TRAMPOLINE_VA phys (prot_to_l2_flags (PROT_READ OR PROT_EXEC)) (mmu k) of
           (False, m) \<Rightarrow> (None, k\<lparr>pages := free_page phys ps, mmu := m\<rparr>)
         | (True, m) \<Rightarrow> (Some phys, k\<lparr>pages := ps\<lparr>phys_mem := write_trampoline_page phys (phys_mem ps)\<rparr>, mmu := m\<rparr>)))"

definition revoke_user_pages :: "usize \<Rightarrow> usize \<Rightarrow> nat \<Rightarrow> mmu_state \<Rightarrow> mmu_state" where
  "revoke_user_pages pt base n m =
    fold (\<lambda>i m. snd (update_page_prot pt (page_at base i) KERNEL_DEFAULT_PAGE m)) [0..<n] m"

definition free_unspawned_image :: "loaded_elf \<Rightarrow> page_state \<Rightarrow> page_state" where
  "free_unspawned_image loaded ps =
    (if 0 < image_pages loaded then snd (free_contiguous (image_phys loaded) (image_pages loaded) ps) else ps)"

section \<open>Spawning\<close>

text \<open>The control block every creation path fills in.\<close>

definition new_process :: "pid \<Rightarrow> cpu_context \<Rightarrow> pid \<Rightarrow> usize \<Rightarrow> usize \<Rightarrow> process" where
  "new_process p ctx parent pt sb =
    \<lparr>p_pid = p, p_state = Ready, p_ctx = ctx, p_parent = Some parent, exit_status = 0, page_table_phys = pt,
     stack_base = sb, stack_pages = STACK_PAGES, heap_break = DEFAULT_HEAP_BREAK, mappings = replicate MAX_MAPPINGS None,
     sig_state = signal_state_new, uid = 1, wake_tick = 0, capabilities = FORK_DEFAULT, fds = fd_table_new, cwd = DEFAULT_CWD\<rparr>"

definition install :: "nat \<Rightarrow> process \<Rightarrow> kernel \<Rightarrow> kernel" where
  "install slot p k = k\<lparr>procs := (procs k)[slot := Some p]\<rparr>"

text \<open>Single pages, recorded one by one so that a failure frees exactly these.\<close>

fun alloc_tracked :: "nat \<Rightarrow> usize list \<Rightarrow> page_state \<Rightarrow> usize list option \<times> page_state" where
  "alloc_tracked 0 taken ps = (Some taken, ps)"
| "alloc_tracked (Suc n) taken ps =
    (case alloc_page ps of
       (Some a, ps) \<Rightarrow> alloc_tracked n (taken @ [a]) ps
     | (None, ps) \<Rightarrow> (None, fold free_page taken ps))"

definition spawn :: "u32 \<Rightarrow> kernel \<Rightarrow> pid option \<times> kernel" where
  "spawn entry_point k =
    (case find_index Option.is_none (procs k) of
       None \<Rightarrow> (None, k)
     | Some slot \<Rightarrow>
        (case alloc_addr_space (mmu k) of
           (None, m) \<Rightarrow> (None, k\<lparr>mmu := m\<rparr>)
         | (Some new_pt, m) \<Rightarrow>
            (let m = clone_addr_space (table_base m) new_pt m in
             case alloc_tracked STACK_PAGES [] (pages k) of
               (None, ps) \<Rightarrow> (None, k\<lparr>mmu := snd (free_addr_space new_pt m), pages := ps\<rparr>)
             | (Some taken, ps) \<Rightarrow>
                (let sb = hd taken;
                     ctx = context_initial entry_point (of_nat (page_at sb STACK_PAGES)) 0x1F
                 in (Some slot, install slot (new_process slot ctx (current k) new_pt sb) (k\<lparr>mmu := m, pages := ps\<rparr>))))))"

definition spawn_user :: "loaded_elf \<Rightarrow> kernel \<Rightarrow> pid option \<times> kernel" where
  "spawn_user loaded k =
    (case find_index Option.is_none (procs k) of
       None \<Rightarrow> (None, k\<lparr>pages := free_unspawned_image loaded (pages k)\<rparr>)
     | Some slot \<Rightarrow>
        (case alloc_addr_space (mmu k) of
           (None, m) \<Rightarrow> (None, k\<lparr>mmu := m, pages := free_unspawned_image loaded (pages k)\<rparr>)
         | (Some new_pt, m) \<Rightarrow>
            (let m = clone_addr_space (table_base m) new_pt m in
             case alloc_contiguous STACK_PAGES (pages k) of
               (None, ps) \<Rightarrow> (None, k\<lparr>pages := free_unspawned_image loaded ps, mmu := snd (free_addr_space new_pt m)\<rparr>)
             | (Some sb, ps) \<Rightarrow>
                (let (tramp, k1) = map_signal_trampoline new_pt (k\<lparr>mmu := m, pages := ps\<rparr>);
                     (ok, m2) = (if tramp = None then (False, mmu k1)
                       else case map_user_image new_pt loaded (mmu k1) of
                         (False, m) \<Rightarrow> (False, m)
                       | (True, m) \<Rightarrow> map_user_stack new_pt sb STACK_PAGES m)
                 in if \<not> ok then
                      let ps = (case tramp of None \<Rightarrow> pages k1 | Some phys \<Rightarrow> free_page phys (pages k1));
                          ps = free_unspawned_image loaded ps;
                          ps = snd (free_contiguous sb STACK_PAGES ps)
                      in (None, k1\<lparr>pages := ps, mmu := snd (free_addr_space new_pt m2)\<rparr>)
                    else
                      let ctx = context_initial (of_nat (l_entry loaded)) (of_nat (page_at sb STACK_PAGES)) 0x10
                      in (Some slot, install slot (new_process slot ctx (current k) new_pt sb) (k1\<lparr>mmu := m2\<rparr>))))))"

text \<open>Load and spawn, as boot does for \<open>/init\<close> and \<open>/shell\<close>, and the relaunch of a supervised service,
  with the file that the plan found in the root file system.\<close>

definition spawn_image :: "u8 list \<Rightarrow> kernel \<Rightarrow> pid option \<times> kernel" where
  "spawn_image data k =
    (case load_confined data USER_TEXT_BASE RAM_END (pages k) of
       (Inl _, ps) \<Rightarrow> (None, k\<lparr>pages := ps\<rparr>)
     | (Inr loaded, ps) \<Rightarrow> spawn_user loaded (k\<lparr>pages := ps\<rparr>))"

definition restart_supervised :: "string \<Rightarrow> u8 list option \<Rightarrow> kernel \<Rightarrow> pid option \<times> kernel" where
  "restart_supervised path plan k =
    (let k = k\<lparr>mmu := switch_addr_space (table_base (mmu k)) (mmu k)\<rparr> in
     case plan of
       None \<Rightarrow> (None, k)
     | Some elf_data \<Rightarrow>
        (case spawn_image elf_data k of
           (None, k) \<Rightarrow> (None, k)
         | (Some p, k) \<Rightarrow> (Some p, k\<lparr>supervision := set_current_pid path (Some p) (supervision k)\<rparr>)))"

section \<open>Fork\<close>

definition free_user_pages :: "usize \<Rightarrow> kernel \<Rightarrow> kernel" where
  "free_user_pages pt k =
    snd (for_each_user_page mmu (\<lambda>va phys attrs k. (True, k\<lparr>pages := snd (try_free_page phys (pages k))\<rparr>)) pt k)"

definition copy_page :: "usize \<Rightarrow> usize \<Rightarrow> mem \<Rightarrow> mem" where
  "copy_page src dst ram = (\<lambda>a. if dst \<le> a \<and> a < dst + PAGE_SIZE then ram (src + (a - dst)) else ram a)"

text \<open>One user page of the parent.\<close>

definition fork_copy_page :: "usize \<Rightarrow> usize \<Rightarrow> usize \<Rightarrow> u32 \<Rightarrow> kernel \<Rightarrow> bool \<times> kernel" where
  "fork_copy_page child_pt va parent_phys attrs k =
    (if \<not> (RAM_START \<le> parent_phys \<and> parent_phys < RAM_END) then (False, k)
     else case alloc_page (pages k) of
       (None, ps) \<Rightarrow> (False, k\<lparr>pages := ps\<rparr>)
     | (Some child_page, ps) \<Rightarrow>
        (let ps = ps\<lparr>phys_mem := copy_page parent_phys child_page (phys_mem ps)\<rparr> in
         case grant_page child_pt va child_page attrs (mmu k) of
           (False, m) \<Rightarrow> (False, k\<lparr>pages := free_page child_page ps, mmu := m\<rparr>)
         | (True, m) \<Rightarrow> (True, k\<lparr>pages := ps, mmu := m\<rparr>)))"

definition fork_copy_phase :: "usize \<Rightarrow> usize \<Rightarrow> kernel \<Rightarrow> bool \<times> kernel" where
  "fork_copy_phase parent_pt child_pt k =
    (let k = k\<lparr>mmu := switch_addr_space (table_base (mmu k)) (mmu k)\<rparr>;
         (ok, k) = for_each_user_page mmu (fork_copy_page child_pt) parent_pt k;
         k = (if ok then k else free_user_pages child_pt k)
     in (ok, k\<lparr>mmu := switch_addr_space parent_pt (mmu k)\<rparr>))"

text \<open>What a child takes from its parent, whichever way its memory is made.\<close>

definition child_of :: "process \<Rightarrow> pid \<Rightarrow> pid \<Rightarrow> cpu_context \<Rightarrow> usize \<Rightarrow> fd_table \<Rightarrow> process" where
  "child_of parent parent_pid child_pid ctx child_pt child_fds =
    parent\<lparr>p_pid := child_pid, p_state := Ready, p_ctx := ctx, p_parent := Some parent_pid, exit_status := 0,
      page_table_phys := child_pt, sig_state := (sig_state parent)\<lparr>pending := 0\<rparr>, wake_tick := 0,
      capabilities := capabilities parent AND FORK_DEFAULT, fds := child_fds\<rparr>"

definition fork_pl0 :: "nat \<Rightarrow> process \<Rightarrow> cpu_context \<Rightarrow> kernel \<Rightarrow> pid option \<times> kernel" where
  "fork_pl0 slot parent ctx k =
    (let parent_pt = page_table_phys parent in
     if parent_pt = 0 \<or> parent_pt = table_base (mmu k) then (None, k)
     else case alloc_addr_space (mmu k) of
       (None, m) \<Rightarrow> (None, k\<lparr>mmu := m\<rparr>)
     | (Some child_pt, m) \<Rightarrow>
        (let m = clone_addr_space (table_base m) child_pt m in
         case fork_copy_phase parent_pt child_pt (k\<lparr>mmu := m\<rparr>) of
           (False, k) \<Rightarrow> (None, k\<lparr>mmu := snd (free_addr_space child_pt (mmu k))\<rparr>)
         | (True, k) \<Rightarrow>
            (let (child_fds, fs) = fork_table (fds parent) (files k)
             in (Some slot, install slot (child_of parent (current k) slot ctx child_pt child_fds) (k\<lparr>files := fs\<rparr>)))))"

definition translate_stack_pointer :: "u32 \<Rightarrow> usize \<Rightarrow> nat \<Rightarrow> usize \<Rightarrow> u32" where
  "translate_stack_pointer parent_sp parent_stack_base parent_stack_pages child_stack_base =
    (let child_stack_size = of_nat (STACK_PAGES * PAGE_SIZE); parent_base = of_nat parent_stack_base;
         parent_span = of_nat (parent_stack_pages * PAGE_SIZE); child_base = of_nat child_stack_base
     in if 0 < parent_stack_pages \<and> parent_base \<le> parent_sp then
          let off = parent_sp - parent_base in
          if off < parent_span \<and> off < child_stack_size then child_base + off else child_base
        else child_base)"

definition copy_bytes :: "usize \<Rightarrow> usize \<Rightarrow> nat \<Rightarrow> mem \<Rightarrow> mem" where
  "copy_bytes src dst n ram = (\<lambda>a. if dst \<le> a \<and> a < dst + n then ram (src + (a - dst)) else ram a)"

text \<open>The path for kernel threads: the tables are shared, the stack is copied.\<close>

definition fork_pl1 :: "nat \<Rightarrow> process \<Rightarrow> cpu_context \<Rightarrow> kernel \<Rightarrow> pid option \<times> kernel" where
  "fork_pl1 slot parent ctx k =
    (case alloc_addr_space (mmu k) of
       (None, m) \<Rightarrow> (None, k\<lparr>mmu := m\<rparr>)
     | (Some child_pt, m) \<Rightarrow>
        (let src_pt = (if page_table_phys parent = 0 then table_base m else page_table_phys parent);
             m = clone_addr_space src_pt child_pt m
         in case alloc_tracked STACK_PAGES [] (pages k) of
              (None, ps) \<Rightarrow> (None, k\<lparr>mmu := snd (free_addr_space child_pt m), pages := ps\<rparr>)
            | (Some taken, ps) \<Rightarrow>
               (let sb = hd taken;
                    ctx = ctx\<lparr>ctx_sp := translate_stack_pointer (ctx_sp ctx) (stack_base parent) (stack_pages parent) sb\<rparr>;
                    ps = (if 0 < stack_pages parent
                      then ps\<lparr>phys_mem := copy_bytes (stack_base parent) sb (min (stack_pages parent) STACK_PAGES * PAGE_SIZE) (phys_mem ps)\<rparr>
                      else ps);
                    (child_fds, fs) = fork_table (fds parent) (files k)
                in (Some slot, install slot ((child_of parent (current k) slot ctx child_pt child_fds)\<lparr>stack_base := sb, stack_pages := STACK_PAGES\<rparr>)
                     (k\<lparr>mmu := m, pages := ps, files := fs\<rparr>)))))"

text \<open>The defaults used in place of an absent parent.\<close>

definition no_parent :: "pid \<Rightarrow> process" where
  "no_parent p = \<lparr>p_pid = p, p_state = Ready, p_ctx = context_zero, p_parent = None, exit_status = 0, page_table_phys = 0,
     stack_base = 0, stack_pages = 0, heap_break = DEFAULT_HEAP_BREAK, mappings = replicate MAX_MAPPINGS None,
     sig_state = signal_state_new, uid = 1, wake_tick = 0, capabilities = FORK_DEFAULT, fds = fd_table_new, cwd = DEFAULT_CWD\<rparr>"

definition fork :: "kernel \<Rightarrow> pid option \<times> kernel" where
  "fork k =
    (case find_index Option.is_none (procs k) of
       None \<Rightarrow> (None, k)
     | Some slot \<Rightarrow>
        (let parent = (case cur_proc k of Some p \<Rightarrow> p | None \<Rightarrow> no_parent (current k));
             ctx = active_frame_ctx_or (p_ctx parent) k;
             ctx = ctx\<lparr>ctx_r := (ctx_r ctx)[0 := 0]\<rparr>
         in if ctx_cpsr ctx AND CPSR_MODE_MASK = CPSR_MODE_USER then fork_pl0 slot parent ctx k
            else fork_pl1 slot parent ctx k))"

definition sys_fork :: "kernel \<Rightarrow> u32 \<times> kernel" where
  "sys_fork k = (case fork k of (Some p, k) \<Rightarrow> (of_nat p, k) | (None, k) \<Rightarrow> (-1, k))"

section \<open>Exit\<close>

definition exit_process :: "i32 \<Rightarrow> process \<Rightarrow> kernel \<Rightarrow> kernel" where
  "exit_process status p k =
    (let i = current k; pt = page_table_phys p; own_table = (pt \<noteq> 0 \<and> pt \<noteq> table_base (mmu k));
         k = close_fds i (upd_proc i (\<lambda>x. x\<lparr>exit_status := status, p_state := Dead\<rparr>) k);
         stack_l2_backed = (own_table \<and> (case read_l2_entry pt (stack_base p) (mmu k) of
            None \<Rightarrow> False | Some e \<Rightarrow> l2_entry_is_user e));
         k = (if own_table then
                let k = free_user_pages pt k in k\<lparr>mmu := snd (free_addr_space pt (mmu k))\<rparr>
              else k);
         k = upd_proc i (\<lambda>x. x\<lparr>page_table_phys := 0, stack_pages := 0\<rparr>) k
     in if stack_l2_backed then k
        else k\<lparr>pages := fold (\<lambda>j. free_page (page_at (stack_base p) j)) [0..<stack_pages p] (pages k)\<rparr>)"

definition exit_cleanup :: "i32 \<Rightarrow> kernel \<Rightarrow> kernel" where
  "exit_cleanup status k =
    (let k = k\<lparr>supervision := clear_pid (current_pid k) (supervision k)\<rparr>;
         k = k\<lparr>mmu := switch_addr_space (table_base (mmu k)) (mmu k)\<rparr>;
         k = (case cur_proc k of None \<Rightarrow> k | Some p \<Rightarrow> exit_process status p k)
     in k\<lparr>futex_waiters := free_waiters_for_pid (current k) (futex_waiters k),
          inboxes := clear_inbox (current k) (inboxes k)\<rparr>)"

text \<open>\<open>None\<close> when there is no successor: the processor parks.\<close>

definition exit_current :: "i32 \<Rightarrow> kernel \<Rightarrow> (u32 \<times> kernel) option" where
  "exit_current status k =
    (let (next_pid, k) = schedule (exit_cleanup status k) in
     if next_pid \<noteq> current_pid k then Some (0, switch_to next_pid k) else None)"

definition fault_exit_current :: "fault_kind \<Rightarrow> kernel \<Rightarrow> kernel option" where
  "fault_exit_current kind k =
    map_option snd (exit_current (of_int (fault_exit_status kind)) (notify_fault (current_pid k) kind k))"

section \<open>Exec\<close>

definition IMAGE_WINDOW_PAGES :: nat where "IMAGE_WINDOW_PAGES = 256"

definition free_old_image :: "usize \<Rightarrow> kernel \<Rightarrow> kernel" where
  "free_old_image pt k =
    fold (\<lambda>i k. let va = page_at USER_TEXT_BASE i in
        case read_l2_entry pt va (mmu k) of
          None \<Rightarrow> k
        | Some entry \<Rightarrow>
           if l2_entry_is_user entry then
             (case read_l2_phys pt va (mmu k) of None \<Rightarrow> k | Some phys \<Rightarrow> k\<lparr>pages := snd (try_free_page phys (pages k))\<rparr>)
           else k)
      [0..<IMAGE_WINDOW_PAGES] k"

text \<open>Entries without a frame are left alone.\<close>

definition drop_page :: "usize \<Rightarrow> usize \<Rightarrow> kernel \<Rightarrow> kernel" where
  "drop_page pt va k =
    (case read_l2_phys pt va (mmu k) of
       None \<Rightarrow> k
     | Some phys \<Rightarrow> k\<lparr>mmu := unmap_page pt va (mmu k), pages := free_page phys (pages k)\<rparr>)"

definition drop_region :: "usize \<Rightarrow> usize \<Rightarrow> nat \<Rightarrow> kernel \<Rightarrow> kernel" where
  "drop_region pt base n k = fold (\<lambda>i. drop_page pt (page_at base i)) [0..<n] k"

definition drop_mappings :: "usize \<Rightarrow> vm_mapping option list \<Rightarrow> kernel \<Rightarrow> kernel" where
  "drop_mappings pt slots k =
    fold (\<lambda>slot k. case slot of None \<Rightarrow> k | Some mp \<Rightarrow> drop_region pt (vm_start mp) (vm_pages mp) k) slots k"

text \<open>The old memory of the process: image frames, image window, stack, mappings, heap.\<close>

definition discard_image :: "usize \<Rightarrow> process \<Rightarrow> kernel \<Rightarrow> kernel" where
  "discard_image pt p k =
    (let k = free_old_image pt k;
         k = k\<lparr>mmu := snd (reset_shattered_section pt USER_TEXT_BASE (mmu k))\<rparr>;
         k = k\<lparr>mmu := revoke_user_pages pt (stack_base p) (stack_pages p) (mmu k)\<rparr>;
         k = drop_region pt (stack_base p) (stack_pages p) k;
         k = drop_mappings pt (mappings p) k
     in drop_region pt DEFAULT_HEAP_BREAK (div_ceil (heap_break p - DEFAULT_HEAP_BREAK) PAGE_SIZE) k)"

definition exec_replace_context :: "loaded_elf \<Rightarrow> usize \<Rightarrow> usize \<Rightarrow> nat \<Rightarrow> kernel \<Rightarrow> bool \<times> kernel" where
  "exec_replace_context loaded stack_top new_base new_pages k =
    (case cur_proc k of
       None \<Rightarrow> (False, k)
     | Some p \<Rightarrow>
        (let pt = page_table_phys p; i = current k;
             k = discard_image pt p (k\<lparr>mmu := switch_addr_space (table_base (mmu k)) (mmu k)\<rparr>);
             (image_ok, m) = map_user_image pt loaded (mmu k);
             (stack_ok, m) = map_user_stack pt new_base new_pages m;
             k = upd_proc i (\<lambda>x. x\<lparr>heap_break := DEFAULT_HEAP_BREAK, mappings := replicate MAX_MAPPINGS None\<rparr>)
               (k\<lparr>mmu := switch_addr_space pt m\<rparr>)
         in if \<not> (image_ok \<and> stack_ok) then
              let k = fold (\<lambda>j k. k\<lparr>mmu := unmap_page pt (page_at new_base j) (mmu k), pages := free_page (page_at new_base j) (pages k)\<rparr>)
                    [0..<new_pages] k
              in (False, upd_proc i (\<lambda>x. x\<lparr>stack_base := 0, stack_pages := 0\<rparr>) k)
            else
              let ctx = context_initial (of_nat (l_entry loaded)) (of_nat stack_top) 0x10;
                  k = upd_proc i (\<lambda>x. x\<lparr>stack_base := new_base, stack_pages := new_pages, p_ctx := ctx\<rparr>) k
              in (True, k\<lparr>active_frame := map_option (\<lambda>_. ctx) (active_frame k)\<rparr>)))"

end
