(* ===== verification/Frames.thy ===== *)
theory Frames
  imports Mmu
begin

text \<open>
  Which physical frame a live address space maps at a virtual page, and how every operation of
  \<open>mmu.rs\<close> changes this view. On top of it the ownership invariant that ties the page tables to the
  page allocator: a managed frame that some address space maps for user access is allocated, and no
  other page of any address space maps it.
\<close>

section \<open>Reading entries after a table write\<close>

lemma l2_word_owner:
  assumes inv: "mmu_inv m" and t: "live_l1 m t" "i < 4096" "pt_entry m t i" "i \<notin> {KERNEL_MB..<KERNEL_MB + KERNEL_SECTIONS}"
    and t': "live_l1 m t'" "i' < 4096" "pt_entry m t' i'" and j: "j < 256" "j' < 256"
    and eq: "target m t' i' + 4 * j' = target m t i + 4 * j"
  shows "t' = t \<and> i' = i \<and> j' = j"
proof -
  note lay = mmu_invD(1) [OF inv]
  obtain s where s: "s < L2_POOL_SIZE" "target m t i = l2_table_addr m s"
    using mmu_invD(2) [OF inv t(1-3)] t(4) by (auto simp: entry_ok_def)
  have "\<not> (\<exists>k<2. target m t' i' = kernel_l2_base m + k * 1024)"
    using l2_kernel_words_apart [OF lay s(1) j(1) _ j(2)] eq s(2) by metis
  then obtain s' where s': "s' < L2_POOL_SIZE" "target m t' i' = l2_table_addr m s'"
    using mmu_invD(2) [OF inv t'] by (auto simp: entry_ok_def mmu_sizes)
  have "s' = s \<and> j' = j" using l2_words_unique [OF j(2,1)] eq s(2) s'(2) by metis
  then show ?thesis using mmu_invD(3) [OF inv t'(1-3) t(1-3) s(1)] s s' by auto
qed

lemma read_after_write:
  assumes inv: "mmu_inv m" and t: "live_l1 m t" "i < 4096" "pt_entry m t i" "i \<notin> {KERNEL_MB..<KERNEL_MB + KERNEL_SECTIONS}"
    and j: "j < 256" and t': "live_l1 m t'" and va: "va < USIZE_MOD"
    and m': "tbl m' = (tbl m)(target m t i + 4 * j := d)"
  shows "read_l2_entry t' va m' = (if t' = t \<and> l1_index va = i \<and> l2_index va = j then Some d else read_l2_entry t' va m)"
proof -
  let ?i = "l1_index va"
  note i = l1_index_less [OF va]
  have l1: "tbl m' (t' + 4 * ?i) = tbl m (t' + 4 * ?i)"
    using entry_word_not_l1 [OF inv t(1-3) live_is_l1 [OF t'] i j] m' by simp
  show ?thesis
  proof (cases "pt_entry m t' ?i")
    case True
    have "target m t' ?i + 4 * l2_index va = target m t i + 4 * j \<longleftrightarrow> t' = t \<and> ?i = i \<and> l2_index va = j"
      using l2_word_owner [OF inv t t' i True j l2_index_less] by auto
    then show ?thesis using True l1 m' by (auto simp: read_l2_entry_def Let_def pt_entry_def target_def)
  next
    case False
    then have "read_l2_entry t' va m' = None" "read_l2_entry t' va m = None"
      using l1 by (simp_all add: read_l2_entry_def Let_def pt_entry_def)
    moreover have "\<not> (t' = t \<and> ?i = i)" using False t(3) by auto
    ultimately show ?thesis by auto
  qed
qed

text \<open>A fresh second-level table is filled and linked.\<close>

lemma read_after_link:
  assumes inv: "mmu_inv m" and t: "live_l1 m t" "i < 4096" and s: "s < L2_POOL_SIZE" "\<not> bit (l2_alloc m) s"
    and t': "live_l1 m t'" and va: "va < USIZE_MOD"
    and l1: "tbl m' (t + 4 * i) = of_nat (l2_table_addr m s) OR L1_PAGE_TABLE"
    and fill: "\<And>j. j < 256 \<Longrightarrow> tbl m' (l2_table_addr m s + 4 * j) = g j"
    and keep: "\<And>a. a \<noteq> t + 4 * i \<Longrightarrow> (\<And>j. j < 256 \<Longrightarrow> a \<noteq> l2_table_addr m s + 4 * j) \<Longrightarrow> tbl m' a = tbl m a"
  shows "read_l2_entry t' va m' = (if t' = t \<and> l1_index va = i then Some (g (l2_index va)) else read_l2_entry t' va m)"
proof -
  note lay = mmu_invD(1) [OF inv] and ii = l1_index_less [OF va]
  let ?i = "l1_index va"
  show ?thesis
  proof (cases "t' = t \<and> ?i = i")
    case True
    then show ?thesis
      using l1 fill [OF l2_index_less] l2_table_addr_desc [OF lay s(1)] by (simp add: read_l2_entry_def Let_def)
  next
    case False
    have w: "tbl m' (t' + 4 * ?i) = tbl m (t' + 4 * ?i)"
      using False l1_words_unique [OF lay live_is_l1 [OF t'] live_is_l1 [OF t(1)] ii t(2)]
        l1_l2_words_apart [OF lay live_is_l1 [OF t'] ii s(1)] by (intro keep) auto
    show ?thesis
    proof (cases "pt_entry m t' ?i")
      case True
      have "target m t' ?i + 4 * l2_index va \<noteq> l2_table_addr m s + 4 * j" if "j < 256" for j
      proof
        assume eq: "target m t' ?i + 4 * l2_index va = l2_table_addr m s + 4 * j"
        have "\<not> (\<exists>k<2. target m t' ?i = kernel_l2_base m + k * 1024)"
          using l2_kernel_words_apart [OF lay s(1) that _ l2_index_less] eq by metis
        then obtain s' where s': "s' < L2_POOL_SIZE" "bit (l2_alloc m) s'" "target m t' ?i = l2_table_addr m s'"
          using mmu_invD(2) [OF inv t' ii True] by (auto simp: entry_ok_def mmu_sizes)
        then have "s' = s" using l2_words_unique [OF l2_index_less that] eq by metis
        then show False using s' s(2) by simp
      qed
      moreover have "t + 4 * i \<noteq> target m t' ?i + 4 * l2_index va"
        by (rule entry_word_not_l1 [OF inv t' ii True live_is_l1 [OF t(1)] t(2) l2_index_less])
      ultimately have "tbl m' (target m t' ?i + 4 * l2_index va) = tbl m (target m t' ?i + 4 * l2_index va)"
        by (intro keep) auto
      then show ?thesis using False w True by (auto simp: read_l2_entry_def Let_def pt_entry_def target_def)
    next
      case no: False
      then show ?thesis using False w by (auto simp: read_l2_entry_def Let_def pt_entry_def)
    qed
  qed
qed

section \<open>Valid entries\<close>

definition vpage :: "usize \<Rightarrow> bool" where
  "vpage va \<longleftrightarrow> va mod 4096 = 0 \<and> va < USIZE_MOD"

text \<open>The valid second-level descriptor of a page, if there is one.\<close>

definition pte :: "mmu_state \<Rightarrow> usize \<Rightarrow> usize \<Rightarrow> u32 option" where
  "pte m t va = (case read_l2_entry t va m of None \<Rightarrow> None | Some e \<Rightarrow> if e AND 0b11 = 0 then None else Some e)"

definition frame_of :: "u32 \<Rightarrow> usize" where
  "frame_of e = unat (e AND 0xFFFFF000)"

definition uframe :: "mmu_state \<Rightarrow> usize \<Rightarrow> usize \<Rightarrow> usize option" where
  "uframe m t va = (case pte m t va of None \<Rightarrow> None | Some e \<Rightarrow> if l2_entry_is_user e then Some (frame_of e) else None)"

lemma vpage_index:
  assumes "vpage va" "vpage va'"
  shows "l1_index va = l1_index va' \<and> l2_index va = l2_index va' \<longleftrightarrow> va = va'"
proof
  assume eq: "l1_index va = l1_index va' \<and> l2_index va = l2_index va'"
  have split: "v = (l1_index v * 256 + l2_index v) * 4096" if "vpage v" for v
  proof -
    have "v div 4096 div 256 = l1_index v" by (simp add: l1_index_def flip: div_mult2_eq)
    then have "v div 4096 = l1_index v * 256 + l2_index v"
      using div_mult_mod_eq [of "v div 4096" 256] by (simp add: l2_index_def)
    then show ?thesis using that by (metis vpage_def mod_0_imp_dvd dvd_div_mult_self)
  qed
  show "va = va'" using split [OF assms(1)] split [OF assms(2)] eq by metis
qed auto

lemma vpageD: "vpage va \<Longrightarrow> va < USIZE_MOD"
  by (simp add: vpage_def)

lemma read_l2_phys_pte: "read_l2_phys t va m = map_option frame_of (pte m t va)"
  by (simp add: read_l2_phys_def read_l2_entry_def pte_def frame_of_def Let_def)

lemma pte_cong: "read_l2_entry t va m' = read_l2_entry t va m \<Longrightarrow> pte m' t va = pte m t va"
  by (simp add: pte_def)

lemma user_window_not_kernel: "user_window va \<Longrightarrow> l1_index va \<notin> {KERNEL_MB..<KERNEL_MB + KERNEL_SECTIONS}"
  by (simp add: user_window_def)

lemma pte_map:
  assumes inv: "mmu_inv m" and t: "live_l1 m t" "t \<noteq> l1_base m" and va: "vpage va" "user_window va"
    and mp: "map_page t va pa at m = (True, m')" and d: "((of_nat pa AND 0xFFFFF000) OR at) AND 0b11 \<noteq> 0"
    and t': "live_l1 m t'" "vpage va'"
  shows "pte m' t' va' = (if t' = t \<and> va' = va then Some ((of_nat pa AND 0xFFFFF000) OR at) else pte m t' va')"
proof -
  note i = l1_index_less [OF vpageD [OF va(1)]] and lay = mmu_invD(1) [OF inv]
  from mp show ?thesis
  proof (cases rule: map_page_cases)
    case present
    have "read_l2_entry t' va' m' = (if t' = t \<and> l1_index va' = l1_index va \<and> l2_index va' = l2_index va
        then Some ((of_nat pa AND 0xFFFFF000) OR at) else read_l2_entry t' va' m)"
      by (rule read_after_write [OF inv t(1) i present(1) user_window_not_kernel [OF va(2)] l2_index_less t'(1) vpageD [OF t'(2)]])
        (simp add: present)
    then show ?thesis using d vpage_index [OF t'(2) va(1)] by (auto simp: pte_def)
  next
    case (fresh a m1)
    obtain s where s: "s < L2_POOL_SIZE" "a = l2_table_addr m s" "\<not> bit (l2_alloc m) s"
      "m1 = m\<lparr>l2_alloc := l2_alloc m OR push_bit s 1, tbl := fill_words (l2_table_addr m s) 256 (\<lambda>_. 0) (tbl m)\<rparr>"
      using alloc_l2_SomeE [OF fresh(2)] by blast
    have ne: "t + 4 * l1_index va \<noteq> l2_table_addr m s + 4 * j" if "j < 256" for j
      by (rule l1_l2_words_apart [OF lay live_is_l1 [OF t(1)] i s(1) that])
    have "read_l2_entry t' va' m' = (if t' = t \<and> l1_index va' = l1_index va
        then Some ((\<lambda>j. if j = l2_index va then (of_nat pa AND 0xFFFFF000) OR at else 0) (l2_index va')) else read_l2_entry t' va' m)"
    proof (rule read_after_link [OF inv t(1) i s(1,3) t'(1) vpageD [OF t'(2)]])
      show "tbl m' (t + 4 * l1_index va) = of_nat (l2_table_addr m s) OR L1_PAGE_TABLE"
        using fresh(4) s(2,4) ne [OF l2_index_less] by simp
      show "tbl m' (l2_table_addr m s + 4 * j) = (if j = l2_index va then (of_nat pa AND 0xFFFFF000) OR at else 0)" if "j < 256" for j
        using fresh(4) s(2,4) ne [OF that] that by auto
      show "tbl m' x = tbl m x" if "x \<noteq> t + 4 * l1_index va" "\<And>j. j < 256 \<Longrightarrow> x \<noteq> l2_table_addr m s + 4 * j" for x
        using fresh(4) s(2,4) that(1) that(2) [OF l2_index_less] fill_words_out [of 256 x] that(2) by simp
    qed
    moreover have "pte m t va' = None" if "l1_index va' = l1_index va" for va'
      using that fresh(1) by (simp add: pte_def read_l2_entry_def Let_def)
    ultimately show ?thesis using d vpage_index [OF t'(2) va(1)] by (auto simp: pte_def)
  qed simp
qed

text \<open>The descriptor a split section puts at a page: the page itself, for the kernel only.\<close>

definition identity_entry :: "usize \<Rightarrow> u32" where
  "identity_entry va = (push_bit 20 (of_nat (l1_index va)) + push_bit 12 (of_nat (l2_index va))) OR KERNEL_DEFAULT_PAGE"

definition identity_sections :: "mmu_state \<Rightarrow> bool" where
  "identity_sections m \<longleftrightarrow> (\<forall>t i. live_l1 m t \<and> i < 4096 \<and> tbl m (t + 4 * i) AND 0b11 = SECTION \<longrightarrow>
     tbl m (t + 4 * i) AND 0xFFF00000 = push_bit 20 (of_nat i))"

lemma pte_shatter:
  assumes inv: "mmu_inv m" "identity_sections m" and t: "live_l1 m t" "t \<noteq> l1_base m" and va: "vpage va" "user_window va"
    and sh: "shatter_section t va m = (ok, m')"
    and t': "live_l1 m t'" "vpage va'"
  shows "pte m' t' va' = pte m t' va' \<or> t' = t \<and> pte m t va' = None \<and> pte m' t va' = Some (identity_entry va')"
proof -
  note i = l1_index_less [OF vpageD [OF va(1)]] and lay = mmu_invD(1) [OF inv(1)]
  from sh show ?thesis
  proof (cases rule: shatter_section_cases)
    case (fresh a m1)
    obtain s where s: "s < L2_POOL_SIZE" "a = l2_table_addr m s" "\<not> bit (l2_alloc m) s"
      "m1 = m\<lparr>l2_alloc := l2_alloc m OR push_bit s 1, tbl := fill_words (l2_table_addr m s) 256 (\<lambda>_. 0) (tbl m)\<rparr>"
      using alloc_l2_SomeE [OF fresh(2)] by blast
    let ?g = "\<lambda>j. ((tbl m (t + 4 * l1_index va) AND 0xFFF00000) + push_bit 12 (of_nat j)) OR KERNEL_DEFAULT_PAGE"
    have ne: "t + 4 * l1_index va \<noteq> l2_table_addr m s + 4 * j" if "j < 256" for j
      by (rule l1_l2_words_apart [OF lay live_is_l1 [OF t(1)] i s(1) that])
    have r: "read_l2_entry t' va' m' = (if t' = t \<and> l1_index va' = l1_index va then Some (?g (l2_index va')) else read_l2_entry t' va' m)"
    proof (rule read_after_link [OF inv(1) t(1) i s(1,3) t'(1) vpageD [OF t'(2)]])
      show "tbl m' (t + 4 * l1_index va) = of_nat (l2_table_addr m s) OR L1_PAGE_TABLE"
        using fresh(4) s(2) by simp
      show "tbl m' (l2_table_addr m s + 4 * j) = ?g j" if "j < 256" for j
        using fresh(4) s(2) ne [OF that] that by auto
      show "tbl m' x = tbl m x" if "x \<noteq> t + 4 * l1_index va" "\<And>j. j < 256 \<Longrightarrow> x \<noteq> l2_table_addr m s + 4 * j" for x
        using fresh(4) s(2,4) that fill_words_out [of 256 x] by simp
    qed
    have idn: "tbl m (t + 4 * l1_index va) AND 0xFFF00000 = push_bit 20 (of_nat (l1_index va))"
      using inv(2) t(1) i fresh(1) unfolding identity_sections_def by blast
    have sec: "SECTION \<noteq> L1_PAGE_TABLE" by (simp add: const_defs L1_PAGE_TABLE_def)
    have kd: "(w OR KERNEL_DEFAULT_PAGE) AND 0b11 \<noteq> 0" for w :: u32
    proof
      assume "(w OR KERNEL_DEFAULT_PAGE) AND 0b11 = 0"
      then have "\<not> bit ((w OR KERNEL_DEFAULT_PAGE) AND 0b11) 1" by simp
      then show False by (simp add: bit_and_iff bit_or_iff KERNEL_DEFAULT_PAGE_def const_defs)
    qed
    show ?thesis
    proof (cases "t' = t \<and> l1_index va' = l1_index va")
      case True
      then have "pte m t va' = None" using fresh(1) sec by (simp add: pte_def read_l2_entry_def Let_def)
      moreover have "pte m' t va' = Some (identity_entry va')"
        using r True kd by (simp add: pte_def idn identity_entry_def)
      ultimately show ?thesis using True by blast
    next
      case False
      then show ?thesis using r by (auto simp: pte_def)
    qed
  qed simp_all
qed

lemma pte_ensure:
  assumes "mmu_inv m" "identity_sections m" "live_l1 m t" "t \<noteq> l1_base m" "vpage va" "user_window va"
    and "ensure_page_mappable t va m = (ok, m')" "live_l1 m t'" "vpage va'"
  shows "pte m' t' va' = pte m t' va' \<or> t' = t \<and> pte m t va' = None \<and> pte m' t va' = Some (identity_entry va')"
  using pte_shatter [OF assms(1-6) _ assms(8,9)] assms(7) by (auto simp: ensure_page_mappable_def split: if_splits)

lemma unmap_emptied:
  assumes "pt_entry m t (l1_index va)"
    and "unmap_page t va m \<noteq> m\<lparr>tbl := (tbl m)(target m t (l1_index va) + 4 * l2_index va := 0)\<rparr>"
    and "j < 256" "j \<noteq> l2_index va"
  shows "tbl m (target m t (l1_index va) + 4 * j) = 0"
proof -
  let ?m1 = "m\<lparr>tbl := (tbl m)(target m t (l1_index va) + 4 * l2_index va := 0)\<rparr>"
  have "list_all (\<lambda>i. tbl ?m1 (target m t (l1_index va) + 4 * i) = 0) [0..<256]"
  proof (rule ccontr)
    assume "\<not> list_all (\<lambda>i. tbl ?m1 (target m t (l1_index va) + 4 * i) = 0) [0..<256]"
    then have "unmap_page t va m = ?m1"
      using assms(1) by (simp add: unmap_page_def Let_def pt_entry_def target_def del: upt.simps)
    with assms(2) show False by blast
  qed
  then have "tbl ?m1 (target m t (l1_index va) + 4 * j) = 0" using assms(3) by (simp add: list_all_iff)
  then show ?thesis using assms(4) by simp
qed

lemma pte_unmap:
  assumes inv: "mmu_inv m" and t: "live_l1 m t" and va: "vpage va" "user_window va" and t': "live_l1 m t'" "vpage va'"
  shows "pte (unmap_page t va m) t' va' = (if t' = t \<and> va' = va then None else pte m t' va')"
proof -
  let ?i = "l1_index va" and ?m' = "unmap_page t va m"
  note i = l1_index_less [OF vpageD [OF va(1)]] and nk = user_window_not_kernel [OF va(2)]
  show ?thesis
  proof (cases rule: unmap_page_cases [of m t va])
    case present
    have "read_l2_entry t' va' ?m' = (if t' = t \<and> l1_index va' = ?i \<and> l2_index va' = l2_index va then Some 0 else read_l2_entry t' va' m)"
      by (rule read_after_write [OF inv t i present(1) nk l2_index_less t'(1) vpageD [OF t'(2)]]) (simp add: present(2))
    then show ?thesis using vpage_index [OF t'(2) va(1)] by (auto simp: pte_def)
  next
    case absent
    then have "pte m t va = None" by (simp add: pte_def read_l2_entry_def Let_def pt_entry_def)
    then show ?thesis using absent(2) by simp
  next
    case emptied
    let ?m1 = "m\<lparr>tbl := (tbl m)(target m t ?i + 4 * l2_index va := 0)\<rparr>"
    have tb: "tbl ?m' = (tbl ?m1)(t + 4 * ?i := 0)"
      unfolding emptied(2) by (simp add: free_l2_table_facts)
    have r1: "read_l2_entry t' va' ?m1 = (if t' = t \<and> l1_index va' = ?i \<and> l2_index va' = l2_index va then Some 0 else read_l2_entry t' va' m)"
      by (rule read_after_write [OF inv t i emptied(1) nk l2_index_less t'(1) vpageD [OF t'(2)]]) simp
    show ?thesis
    proof (cases "t' = t \<and> l1_index va' = ?i")
      case True
      then have "read_l2_entry t' va' ?m' = None" by (simp add: read_l2_entry_def Let_def tb)
      moreover have "pte m t va' = None" if "va' \<noteq> va"
      proof -
        have ne: "l2_index va' \<noteq> l2_index va" using that True vpage_index [OF t'(2) va(1)] by auto
        have "?m' \<noteq> ?m1"
        proof
          assume "?m' = ?m1"
          then have "tbl ?m1 (t + 4 * ?i) = 0" using tb by (metis fun_upd_same)
          moreover have "t + 4 * ?i \<noteq> target m t ?i + 4 * l2_index va"
            by (rule entry_word_not_l1 [OF inv t i emptied(1) live_is_l1 [OF t] i l2_index_less])
          ultimately show False using emptied(1) by (simp add: pt_entry_def)
        qed
        then have "tbl m (target m t ?i + 4 * l2_index va') = 0" by (rule unmap_emptied [OF emptied(1) _ l2_index_less ne])
        then show ?thesis using True emptied(1) by (simp add: pte_def read_l2_entry_def Let_def pt_entry_def target_def)
      qed
      ultimately show ?thesis using True by (auto simp: pte_def)
    next
      case False
      have keep: "tbl ?m' x = tbl ?m1 x" if "x \<noteq> t + 4 * ?i" for x using tb that by simp
      note ii = l1_index_less [OF vpageD [OF t'(2)]]
      have w: "t' + 4 * l1_index va' \<noteq> t + 4 * ?i"
        using False l1_words_unique [OF mmu_invD(1) [OF inv] live_is_l1 [OF t'(1)] live_is_l1 [OF t] ii i] by blast
      have w1: "tbl ?m1 (t' + 4 * l1_index va') = tbl m (t' + 4 * l1_index va')"
        using entry_word_not_l1 [OF inv t i emptied(1) live_is_l1 [OF t'(1)] ii l2_index_less] by simp
      have "read_l2_entry t' va' ?m' = read_l2_entry t' va' ?m1"
      proof (cases "pt_entry m t' (l1_index va')")
        case True
        have "t + 4 * ?i \<noteq> target m t' (l1_index va') + 4 * l2_index va'"
          by (rule entry_word_not_l1 [OF inv t'(1) ii True live_is_l1 [OF t] i l2_index_less])
        then show ?thesis
          using keep [OF w] w1 True keep [of "target m t' (l1_index va') + 4 * l2_index va'"]
          by (simp add: read_l2_entry_def Let_def pt_entry_def target_def)
      next
        case no: False
        then show ?thesis using keep [OF w] w1 by (simp add: read_l2_entry_def Let_def pt_entry_def)
      qed
      then show ?thesis using r1 False by (auto simp: pte_def)
    qed
  qed
qed

lemma pte_prot:
  assumes inv: "mmu_inv m" and t: "live_l1 m t" and va: "vpage va" "user_window va" and t': "live_l1 m t'" "vpage va'"
    and up: "update_page_prot t va at m = (ok, m')" and at: "\<And>w :: u32. ((w AND 0xFFFFF000) OR at) AND 0b11 \<noteq> 0"
  shows "ok \<longleftrightarrow> pte m t va \<noteq> None"
    "pte m' t' va' = (if t' = t \<and> va' = va then map_option (\<lambda>e. (e AND 0xFFFFF000) OR at) (pte m t va) else pte m t' va')"
proof -
  note i = l1_index_less [OF vpageD [OF va(1)]] and nk = user_window_not_kernel [OF va(2)]
  have none: "update_page_prot t va at m = (False, m) \<Longrightarrow> pte m t va = None"
    by (auto simp: update_page_prot_def pte_def read_l2_entry_def Let_def split: if_splits)
  have "(ok \<longleftrightarrow> pte m t va \<noteq> None) \<and>
      pte m' t' va' = (if t' = t \<and> va' = va then map_option (\<lambda>e. (e AND 0xFFFFF000) OR at) (pte m t va) else pte m t' va')"
  proof (cases rule: update_page_prot_cases [of m t va at])
    case (written old)
    have old: "pte m t va = Some old"
      using written by (simp add: pte_def read_l2_entry_def Let_def pt_entry_def target_def)
    have ok: "ok" "tbl m' = (tbl m)(target m t (l1_index va) + 4 * l2_index va := (old AND 0xFFFFF000) OR at)"
      using up written(4) by auto
    have "read_l2_entry t' va' m' = (if t' = t \<and> l1_index va' = l1_index va \<and> l2_index va' = l2_index va
        then Some ((old AND 0xFFFFF000) OR at) else read_l2_entry t' va' m)"
      by (rule read_after_write [OF inv t i written(1) nk l2_index_less t'(1) vpageD [OF t'(2)] ok(2)])
    then show ?thesis using old ok(1) at vpage_index [OF t'(2) va(1)] by (auto simp: pte_def)
  next
    case absent
    then show ?thesis using none up by auto
  qed
  then show "ok \<longleftrightarrow> pte m t va \<noteq> None"
    "pte m' t' va' = (if t' = t \<and> va' = va then map_option (\<lambda>e. (e AND 0xFFFFF000) OR at) (pte m t va) else pte m t' va')"
    by blast+
qed

section \<open>First-level entries\<close>

lemma identity_sections_step:
  assumes "identity_sections m" "\<And>t. live_l1 m' t \<Longrightarrow> live_l1 m t"
    and "\<And>t i. live_l1 m' t \<Longrightarrow> i < 4096 \<Longrightarrow> tbl m' (t + 4 * i) = tbl m (t + 4 * i) \<or> tbl m' (t + 4 * i) AND 0b11 \<noteq> SECTION"
  shows "identity_sections m'"
  using assms unfolding identity_sections_def by metis

lemma section_not_pt: "SECTION \<noteq> L1_PAGE_TABLE" "L1_PAGE_TABLE \<noteq> SECTION" "(0 :: u32) AND 0b11 \<noteq> SECTION"
  by (simp_all add: const_defs L1_PAGE_TABLE_def)

lemma l1_word_write:
  assumes "mmu_inv m" "live_l1 m t" "i < 4096" "pt_entry m t i" "j < 256" "live_l1 m t'" "i' < 4096"
  shows "((tbl m)(target m t i + 4 * j := d)) (t' + 4 * i') = tbl m (t' + 4 * i')"
  using entry_word_not_l1 [OF assms(1-4) live_is_l1 [OF assms(6)] assms(7,5)] by simp

lemma l1_word_link:
  assumes inv: "mmu_inv m" and t: "live_l1 m t" "i < 4096" and s: "s < L2_POOL_SIZE" and t': "live_l1 m t'" "i' < 4096"
    and l1: "tbl m' (t + 4 * i) = of_nat (l2_table_addr m s) OR L1_PAGE_TABLE"
    and keep: "\<And>a. a \<noteq> t + 4 * i \<Longrightarrow> (\<And>j. j < 256 \<Longrightarrow> a \<noteq> l2_table_addr m s + 4 * j) \<Longrightarrow> tbl m' a = tbl m a"
  shows "tbl m' (t' + 4 * i') = tbl m (t' + 4 * i') \<or> tbl m' (t' + 4 * i') AND 0b11 \<noteq> SECTION"
proof (cases "t' = t \<and> i' = i")
  case True
  then show ?thesis using l1 l2_table_addr_desc(2) [OF mmu_invD(1) [OF inv] s] section_not_pt by auto
next
  case False
  have "tbl m' (t' + 4 * i') = tbl m (t' + 4 * i')"
    using False l1_words_unique [OF mmu_invD(1) [OF inv] live_is_l1 [OF t'(1)] live_is_l1 [OF t(1)] t'(2) t(2)]
      l1_l2_words_apart [OF mmu_invD(1) [OF inv] live_is_l1 [OF t'(1)] t'(2) s] by (intro keep) auto
  then show ?thesis by blast
qed

lemma confined_live:
  assumes "confined t m m'" "addr_space_alloc m' = addr_space_alloc m"
  shows "live_l1 m' = live_l1 m" "l1_base m' = l1_base m"
  using assms live_l1_cong [of m m'] same_layout_simps(5) [of m m'] by (auto simp: confined_def fun_eq_iff)

lemma map_page_identity:
  assumes inv: "mmu_inv m" "identity_sections m" and t: "live_l1 m t" "t \<noteq> l1_base m" and va: "user_window va"
    and mp: "map_page t va pa at m = (ok, m')"
  shows "identity_sections m'"
proof -
  have c: "confined t m m'" "addr_space_alloc m' = addr_space_alloc m"
    using mm_step_confined [OF inv(1) t, of "MMap va pa at"] va mp by simp_all
  note live = confined_live [OF c] and i = l1_index_less [of va]
  have iva: "l1_index va < 4096" using i va by (simp add: user_window_def)
  show ?thesis
  proof (rule identity_sections_step [OF inv(2)])
    show "live_l1 m t'" if "live_l1 m' t'" for t' using that live by simp
    fix t' i' assume "live_l1 m' t'" and i': "i' < (4096 :: nat)"
    then have t': "live_l1 m t'" using live by simp
    from mp show "tbl m' (t' + 4 * i') = tbl m (t' + 4 * i') \<or> tbl m' (t' + 4 * i') AND 0b11 \<noteq> SECTION"
    proof (cases rule: map_page_cases)
      case present
      then show ?thesis using l1_word_write [OF inv(1) t(1) iva present(1) l2_index_less t' i'] by simp
    next
      case (fresh a m1)
      obtain s where s: "s < L2_POOL_SIZE" "a = l2_table_addr m s"
        "m1 = m\<lparr>l2_alloc := l2_alloc m OR push_bit s 1, tbl := fill_words (l2_table_addr m s) 256 (\<lambda>_. 0) (tbl m)\<rparr>"
        using alloc_l2_SomeE [OF fresh(2)] by blast
      have ne: "t + 4 * l1_index va \<noteq> l2_table_addr m s + 4 * l2_index va"
        by (rule l1_l2_words_apart [OF mmu_invD(1) [OF inv(1)] live_is_l1 [OF t(1)] iva s(1) l2_index_less])
      show ?thesis
      proof (rule l1_word_link [OF inv(1) t(1) iva s(1) t' i'])
        show "tbl m' (t + 4 * l1_index va) = of_nat (l2_table_addr m s) OR L1_PAGE_TABLE" using fresh(4) s(2) ne by simp
        show "tbl m' x = tbl m x" if "x \<noteq> t + 4 * l1_index va" "\<And>j. j < 256 \<Longrightarrow> x \<noteq> l2_table_addr m s + 4 * j" for x
          using fresh(4) s(2,3) that(1) that(2) [OF l2_index_less] fill_words_out [of 256 x] that(2) by simp
      qed
    qed simp
  qed
qed

lemma shatter_identity:
  assumes inv: "mmu_inv m" "identity_sections m" and t: "live_l1 m t" "t \<noteq> l1_base m" and va: "user_window va"
    and sh: "shatter_section t va m = (ok, m')"
  shows "identity_sections m'"
proof -
  have c: "confined t m m'" "addr_space_alloc m' = addr_space_alloc m"
    using mm_step_confined [OF inv(1) t, of "MShatter va"] va sh by simp_all
  note live = confined_live [OF c]
  have iva: "l1_index va < 4096" using l1_index_less [of va] va by (simp add: user_window_def)
  show ?thesis
  proof (rule identity_sections_step [OF inv(2)])
    show "live_l1 m t'" if "live_l1 m' t'" for t' using that live by simp
    fix t' i' assume "live_l1 m' t'" and i': "i' < (4096 :: nat)"
    then have t': "live_l1 m t'" using live by simp
    from sh show "tbl m' (t' + 4 * i') = tbl m (t' + 4 * i') \<or> tbl m' (t' + 4 * i') AND 0b11 \<noteq> SECTION"
    proof (cases rule: shatter_section_cases)
      case (fresh a m1)
      obtain s where s: "s < L2_POOL_SIZE" "a = l2_table_addr m s"
        "m1 = m\<lparr>l2_alloc := l2_alloc m OR push_bit s 1, tbl := fill_words (l2_table_addr m s) 256 (\<lambda>_. 0) (tbl m)\<rparr>"
        using alloc_l2_SomeE [OF fresh(2)] by blast
      show ?thesis
      proof (rule l1_word_link [OF inv(1) t(1) iva s(1) t' i'])
        show "tbl m' (t + 4 * l1_index va) = of_nat (l2_table_addr m s) OR L1_PAGE_TABLE" using fresh(4) s(2) by simp
        show "tbl m' x = tbl m x" if "x \<noteq> t + 4 * l1_index va" "\<And>j. j < 256 \<Longrightarrow> x \<noteq> l2_table_addr m s + 4 * j" for x
          using fresh(4) s(2,3) that fill_words_out [of 256 x] by simp
      qed
    qed simp_all
  qed
qed

lemma unmap_identity:
  assumes inv: "mmu_inv m" "identity_sections m" and t: "live_l1 m t" "t \<noteq> l1_base m" and va: "user_window va"
  shows "identity_sections (unmap_page t va m)"
proof -
  let ?m' = "unmap_page t va m"
  have c: "confined t m ?m'" "addr_space_alloc ?m' = addr_space_alloc m"
    using mm_step_confined [OF inv(1) t, of "MUnmap va"] va by simp_all
  note live = confined_live [OF c]
  have iva: "l1_index va < 4096" using l1_index_less [of va] va by (simp add: user_window_def)
  show ?thesis
  proof (rule identity_sections_step [OF inv(2)])
    show "live_l1 m t'" if "live_l1 ?m' t'" for t' using that live by simp
    fix t' i' assume "live_l1 ?m' t'" and i': "i' < (4096 :: nat)"
    then have t': "live_l1 m t'" using live by simp
    show "tbl ?m' (t' + 4 * i') = tbl m (t' + 4 * i') \<or> tbl ?m' (t' + 4 * i') AND 0b11 \<noteq> SECTION"
    proof (cases rule: unmap_page_cases [of m t va])
      case present
      then show ?thesis using l1_word_write [OF inv(1) t(1) iva present(1) l2_index_less t' i'] by simp
    next
      case emptied
      then show ?thesis
        using l1_word_write [OF inv(1) t(1) iva emptied(1) l2_index_less t' i', of 0] section_not_pt(3)
        by (simp add: free_l2_table_facts)
    qed simp
  qed
qed

lemma prot_identity:
  assumes inv: "mmu_inv m" "identity_sections m" and t: "live_l1 m t" "t \<noteq> l1_base m" and va: "user_window va"
    and up: "update_page_prot t va at m = (ok, m')"
  shows "identity_sections m'"
proof -
  have c: "confined t m m'" "addr_space_alloc m' = addr_space_alloc m"
    using mm_step_confined [OF inv(1) t, of "MProt va at"] va up by simp_all
  note live = confined_live [OF c]
  have iva: "l1_index va < 4096" using l1_index_less [of va] va by (simp add: user_window_def)
  show ?thesis
  proof (rule identity_sections_step [OF inv(2)])
    show "live_l1 m t'" if "live_l1 m' t'" for t' using that live by simp
    fix t' i' assume "live_l1 m' t'" and i': "i' < (4096 :: nat)"
    then have t': "live_l1 m t'" using live by simp
    show "tbl m' (t' + 4 * i') = tbl m (t' + 4 * i') \<or> tbl m' (t' + 4 * i') AND 0b11 \<noteq> SECTION"
    proof (cases rule: update_page_prot_cases [of m t va at])
      case (written old)
      then show ?thesis using l1_word_write [OF inv(1) t(1) iva written(1) l2_index_less t' i'] up by auto
    next
      case absent
      then show ?thesis using up by simp
    qed
  qed
qed

section \<open>Descriptors\<close>

lemma page_mask: "(0xFFFFF000 :: u32) = NOT (mask 12)"
  by (simp add: mask_eq_exp_minus_1)

lemmas page_mask_bits = bit_and_iff bit_or_iff bit_not_iff bit_mask_iff

lemma bit_low12: "(w :: u32) AND NOT (mask 12) = 0 \<Longrightarrow> 12 \<le> n \<Longrightarrow> \<not> bit w n"
proof
  assume w: "w AND NOT (mask 12) = 0" and n: "12 \<le> n" and b: "bit w n"
  have "n < 32" using b bit_imp_le_length [of w n] by simp
  then have "bit (w AND NOT (mask 12)) n" using b n by (simp add: page_mask_bits)
  then show False using w by simp
qed

text \<open>Attribute words: the bits of a small page below its frame number.\<close>

definition page_attrs :: "u32 \<Rightarrow> bool" where
  "page_attrs at \<longleftrightarrow> at AND 0xFFFFF000 = 0 \<and> at AND SMALL_PAGE \<noteq> 0"

lemma attrs_low: "at AND 0xFFFFF000 = 0 \<Longrightarrow> c AND 0xFFFFF000 = 0 \<Longrightarrow> ((w AND 0xFFFFF000) OR at) AND c = (at AND c :: u32)"
  unfolding page_mask
  by (rule bit_word_eqI) (use bit_low12 [of at] bit_low12 [of c] in \<open>auto simp: page_mask_bits\<close>)

lemma attrs_desc:
  assumes "page_attrs at"
  shows "((w AND 0xFFFFF000) OR at) AND 0b11 \<noteq> 0" "l2_entry_is_user ((w AND 0xFFFFF000) OR at) \<longleftrightarrow> l2_entry_is_user at"
    "frame_of ((w AND 0xFFFFF000) OR at) = frame_of w"
proof -
  have z: "at AND 0xFFFFF000 = 0" and sp: "at AND SMALL_PAGE \<noteq> 0" using assms by (simp_all add: page_attrs_def)
  have "bit at 1" using sp by (metis SMALL_PAGE_def and_exp_eq_0_iff_not_bit power_one_right)
  then have "bit (((w AND 0xFFFFF000) OR at) AND mask 2) 1" by (simp add: page_mask_bits)
  then show "((w AND 0xFFFFF000) OR at) AND 0b11 \<noteq> 0" by (auto simp: mask_eq_exp_minus_1)
  show "l2_entry_is_user ((w AND 0xFFFFF000) OR at) \<longleftrightarrow> l2_entry_is_user at"
    using attrs_low [OF z, of SMALL_PAGE w] attrs_low [OF z, of NG w] by (simp add: l2_entry_is_user_def const_defs)
  have "((w AND 0xFFFFF000) OR at) AND 0xFFFFF000 = w AND 0xFFFFF000"
    using z unfolding page_mask by (intro bit_word_eqI) (use bit_low12 [of at] in \<open>auto simp: page_mask_bits\<close>)
  then show "frame_of ((w AND 0xFFFFF000) OR at) = frame_of w" by (simp add: frame_of_def)
qed

lemma frame_of_nat: "f mod 4096 = 0 \<Longrightarrow> f < USIZE_MOD \<Longrightarrow> frame_of (of_nat f) = f"
  using page_desc(2,3) [of f 0] by (simp add: frame_of_def)

lemma frame_of_aligned: "frame_of w mod 4096 = 0"
proof -
  have "unat (w AND 0xFFFFF000) = unat (push_bit 12 (drop_bit 12 w))"
    unfolding page_mask
    by (rule arg_cong [where f = unat], rule bit_word_eqI) (auto simp: page_mask_bits bit_push_bit_iff bit_drop_bit_eq)
  also have "\<dots> = 4096 * unat (drop_bit 12 w) mod 2 ^ 32"
    unfolding unsigned_push_bit_eq by (simp add: push_bit_eq_mult [where ?'a = nat] take_bit_eq_mod [where ?'a = nat] mult.commute)
  finally show ?thesis by (simp add: frame_of_def mod_mult_right_eq mod_mod_cancel)
qed

lemma prot_attrs: "page_attrs (prot_to_l2_flags p)" "l2_entry_is_user (prot_to_l2_flags p)"
  by (simp_all add: page_attrs_def l2_entry_is_user_def prot_to_l2_flags_def const_defs)

lemma kernel_attrs: "page_attrs KERNEL_DEFAULT_PAGE" "\<not> l2_entry_is_user KERNEL_DEFAULT_PAGE"
  by (simp_all add: page_attrs_def l2_entry_is_user_def KERNEL_DEFAULT_PAGE_def const_defs)

lemma entry_attrs:
  assumes "l2_entry_is_user e"
  shows "page_attrs (e AND 0xFFF)" "l2_entry_is_user (e AND 0xFFF)"
proof -
  have sp: "(e AND 0xFFF) AND SMALL_PAGE = e AND SMALL_PAGE" "(e AND 0xFFF) AND NG = e AND NG"
    by (simp_all add: and.assoc const_defs)
  have "(e AND 0xFFF) AND 0xFFFFF000 = 0" by (simp add: and.assoc)
  then show "page_attrs (e AND 0xFFF)" "l2_entry_is_user (e AND 0xFFF)"
    using assms sp by (simp_all add: page_attrs_def l2_entry_is_user_def)
qed

lemma identity_entry_eq:
  assumes "vpage va"
  shows "identity_entry va = (of_nat va AND 0xFFFFF000) OR KERNEL_DEFAULT_PAGE"
proof -
  have v: "va div 4096 * 4096 = va" using assms by (metis vpage_def mod_0_imp_dvd dvd_div_mult_self)
  have "va div 4096 div 256 = l1_index va" by (simp add: l1_index_def flip: div_mult2_eq)
  then have "va div 4096 = l1_index va * 256 + l2_index va"
    using div_mult_mod_eq [of "va div 4096" 256] by (simp add: l2_index_def)
  then have "l1_index va * 2 ^ 20 + l2_index va * 2 ^ 12 = va" using v by simp
  from arg_cong [where f = "of_nat :: nat \<Rightarrow> u32", OF this]
  have "of_nat (l1_index va) * 2 ^ 20 + of_nat (l2_index va) * 2 ^ 12 = (of_nat va :: u32)" by simp
  then have "push_bit 20 (of_nat (l1_index va)) + push_bit 12 (of_nat (l2_index va)) = (of_nat va :: u32)"
    by (simp add: push_bit_eq_mult)
  then show ?thesis using page_desc(2) [of va 0] assms by (simp add: identity_entry_def vpage_def)
qed

lemma identity_entry:
  assumes "vpage va"
  shows "\<not> l2_entry_is_user (identity_entry va)" "frame_of (identity_entry va) = va"
  using attrs_desc(2,3) [OF kernel_attrs(1)] kernel_attrs(2) frame_of_nat assms
  by (simp_all add: identity_entry_eq vpage_def)

section \<open>Operations on well-formed tables\<close>

definition tables_ok :: "mmu_state \<Rightarrow> bool" where
  "tables_ok m \<longleftrightarrow> mmu_inv m \<and> identity_sections m"

text \<open>What every operation on the table of one process leaves alone.\<close>

definition same_spaces :: "mmu_state \<Rightarrow> mmu_state \<Rightarrow> bool" where
  "same_spaces m m' \<longleftrightarrow> tables_ok m' \<and> live_l1 m' = live_l1 m \<and> l1_base m' = l1_base m"

lemma same_spaces_refl: "tables_ok m \<Longrightarrow> same_spaces m m"
  by (simp add: same_spaces_def)

lemma same_spaces_trans: "same_spaces m m' \<Longrightarrow> same_spaces m' m'' \<Longrightarrow> same_spaces m m''"
  by (simp add: same_spaces_def)

lemma mm_step_spaces:
  assumes "tables_ok m" "live_l1 m t" "t \<noteq> l1_base m" "user_window (mm_va x)"
  shows "same_spaces m (mm_step t x m)"
proof -
  have inv: "mmu_inv m" "identity_sections m" using assms(1) by (simp_all add: tables_ok_def)
  have id: "identity_sections (mm_step t x m)"
    using map_page_identity [OF inv assms(2,3)] shatter_identity [OF inv assms(2,3)] unmap_identity [OF inv assms(2,3)]
      prot_identity [OF inv assms(2,3)] inv(2) assms(4)
    by (cases x) (auto simp: ensure_page_mappable_def prod_eq_iff)
  note c = mm_step_confined [OF inv(1) assms(2-4)]
  show ?thesis
    using id c(2) confined_live [OF c(1,3)] by (simp add: same_spaces_def tables_ok_def)
qed

lemma read_outside_l1:
  assumes inv: "mmu_inv m" and t: "live_l1 m t" and a: "is_l1 m a" and va: "va < USIZE_MOD"
    and keep: "\<And>x. (\<And>i. i < 4096 \<Longrightarrow> x \<noteq> a + 4 * i) \<Longrightarrow> tbl m' x = tbl m x" and ne: "t \<noteq> a"
  shows "read_l2_entry t va m' = read_l2_entry t va m"
proof -
  note i = l1_index_less [OF va]
  have w: "tbl m' (t + 4 * l1_index va) = tbl m (t + 4 * l1_index va)"
    using l1_words_unique [OF mmu_invD(1) [OF inv] live_is_l1 [OF t] a i] ne by (intro keep) auto
  have "tbl m' (target m t (l1_index va) + 4 * l2_index va) = tbl m (target m t (l1_index va) + 4 * l2_index va)"
    if p: "pt_entry m t (l1_index va)"
    using entry_word_not_l1 [OF inv t i p a _ l2_index_less] by (intro keep) metis
  then show ?thesis using w by (simp add: read_l2_entry_def Let_def pt_entry_def target_def)
qed

lemma new_space:
  assumes ok: "tables_ok m" and al: "alloc_addr_space m = (Some a, m1)"
  defines "m' \<equiv> clone_addr_space (table_base m1) a m1"
  shows "tables_ok m'" "\<And>t. live_l1 m' t \<longleftrightarrow> t = a \<or> live_l1 m t" "\<not> live_l1 m a" "l1_base m' = l1_base m" "a \<noteq> l1_base m"
    "\<And>t va. live_l1 m' t \<Longrightarrow> vpage va \<Longrightarrow> pte m' t va = (if t = a then pte m (l1_base m) va else pte m t va)"
proof -
  have inv: "mmu_inv m" "identity_sections m" using ok by (simp_all add: tables_ok_def)
  obtain u where u: "u < USER_TABLE_COUNT" "a = user_table_addr m u" "same_layout m m1"
    "m1 = m\<lparr>addr_space_alloc := addr_space_alloc m OR push_bit u 1, tbl := fill_words (user_table_addr m u) 4096 (\<lambda>_. 0) (tbl m)\<rparr>"
    using alloc_addr_space_SomeE [OF al] by metis
  note n = alloc_addr_space_inv [OF inv(1) al] and lay = same_layout_simps [OF u(3)]
  note c = clone_kernel_inv [OF n(1-3)]
  have f: "same_layout m1 m'" "addr_space_alloc m' = addr_space_alloc m1"
    by (simp_all add: m'_def clone_addr_space_def same_layout_def)
  show live: "live_l1 m' t \<longleftrightarrow> t = a \<or> live_l1 m t" for t using live_l1_cong [OF f] n(5) by simp
  show "\<not> live_l1 m a" by (rule n(4))
  show base: "l1_base m' = l1_base m" "a \<noteq> l1_base m" using same_layout_simps(5) [OF f(1)] lay(5) n(3) by simp_all
  have isl1: "is_l1 m a" using u(1,2) by (auto simp: is_l1_def)
  have kl: "live_l1 m (l1_base m)" by (simp add: live_l1_def)
  have w: "tbl m' = fill_words a 4096 (\<lambda>i. tbl m1 (l1_base m1 + 4 * i)) (tbl m1)"
    using clone_words [OF mmu_invD(1) [OF n(1)] _ live_is_l1 [OF n(2)]] n(3) by (simp add: m'_def table_base_def is_l1_def)
  have keep: "tbl m' x = tbl m x" if "\<And>i. i < 4096 \<Longrightarrow> x \<noteq> a + 4 * i" for x
    unfolding w u(4) using that u(2) by (simp add: fill_words_out)
  have l1: "tbl m' (t + 4 * i) = tbl m ((if t = a then l1_base m else t) + 4 * i)" if "live_l1 m' t" "i < 4096" for t i
    using that live n(7) [OF kl] n(7) [of t] c(2) c(3) [of t] lay(5) n(5) unfolding m'_def by auto
  show "tables_ok m'"
    unfolding tables_ok_def
  proof
    show "mmu_inv m'" unfolding m'_def by (rule c(1))
    show "identity_sections m'"
      unfolding identity_sections_def
    proof (intro allI impI, elim conjE)
      fix t i assume h: "live_l1 m' t" "i < 4096" "tbl m' (t + 4 * i) AND 0b11 = SECTION"
      have "live_l1 m (if t = a then l1_base m else t)" using h(1) live kl by auto
      then show "tbl m' (t + 4 * i) AND 0xFFF00000 = push_bit 20 (of_nat i)"
        using inv(2) h(2,3) unfolding l1 [OF h(1,2)] identity_sections_def by blast
    qed
  qed
  fix t va assume t: "live_l1 m' t" "vpage va"
  note i = l1_index_less [OF vpageD [OF t(2)]]
  show "pte m' t va = (if t = a then pte m (l1_base m) va else pte m t va)"
  proof (cases "t = a")
    case True
    have "tbl m' (target m (l1_base m) (l1_index va) + 4 * l2_index va) = tbl m (target m (l1_base m) (l1_index va) + 4 * l2_index va)"
      if p: "pt_entry m (l1_base m) (l1_index va)"
      using entry_word_not_l1 [OF inv(1) kl i p isl1 _ l2_index_less] by (intro keep) metis
    then show ?thesis
      using True l1 [OF t(1) i] by (simp add: pte_def read_l2_entry_def Let_def pt_entry_def target_def)
  next
    case False
    then have "live_l1 m t" using t(1) live by blast
    from read_outside_l1 [OF inv(1) this isl1 vpageD [OF t(2)] keep False] show ?thesis using False by (simp add: pte_def)
  qed
qed

lemma free_space:
  assumes ok: "tables_ok m" and t: "live_l1 m a" "a \<noteq> l1_base m"
  defines "m' \<equiv> snd (free_addr_space a m)"
  shows "tables_ok m'" "\<And>t. live_l1 m' t \<longleftrightarrow> live_l1 m t \<and> t \<noteq> a" "l1_base m' = l1_base m" "\<And>t va. pte m' t va = pte m t va"
proof -
  have inv: "mmu_inv m" "identity_sections m" using ok by (simp_all add: tables_ok_def)
  note f = free_addr_space_inv [OF inv(1) t]
  show "tables_ok m'" using f(2-4) inv(2) by (auto simp: tables_ok_def m'_def identity_sections_def)
  show "live_l1 m' t \<longleftrightarrow> live_l1 m t \<and> t \<noteq> a" for t using f(3) by (simp add: m'_def)
  show "l1_base m' = l1_base m" using same_layout_simps(5) [OF f(5)] by (simp add: m'_def)
  show "pte m' t va = pte m t va" for t va using f(4) by (simp add: pte_def read_l2_entry_def Let_def m'_def)
qed

section \<open>The tables after boot\<close>

lemma section_base: "(push_bit 20 w OR section_attrs ty) AND 0xFFF00000 = push_bit 20 (w :: u32)"
proof -
  have M: "(0xFFF00000 :: u32) = NOT (mask 20)" by (simp add: mask_eq_exp_minus_1)
  have "section_attrs ty AND NOT (mask 20) = 0" by (cases ty) (simp_all add: section_attrs_def const_defs mask_eq_exp_minus_1)
  moreover have "push_bit 20 w AND NOT (mask 20) = push_bit 20 w" by (rule bit_word_eqI) (auto simp: page_mask_bits bit_push_bit_iff)
  ultimately show ?thesis unfolding M by (simp add: bit.conj_disj_distrib2)
qed

lemma kernel_word_not_user:
  assumes "va mod 4096 = 0"
  shows "\<not> l2_entry_is_user (of_nat va OR SMALL_PAGE OR SHAREABLE OR NORMAL_WB_WA OR wx_page_attrs p ts et er)"
proof -
  have "NG AND (of_nat va :: u32) = 0"
  proof (rule bit_word_eqI)
    fix n assume "n < LENGTH(32)"
    obtain q where q: "va = push_bit 12 q" using assms by (auto simp: push_bit_eq_mult mult.commute)
    have "n = 11" if "bit NG n" using that by (simp only: NG_def bit_push_bit_iff bit_1_iff) linarith
    then show "bit (NG AND of_nat va :: u32) n \<longleftrightarrow> bit (0 :: u32) n"
      unfolding q by (auto simp: bit_and_iff bit_of_nat_iff bit_push_bit_iff)
  qed
  then have "NG AND (of_nat va OR SMALL_PAGE OR SHAREABLE OR NORMAL_WB_WA OR wx_page_attrs p ts et er) = 0"
    by (simp add: bit.conj_disj_distrib) (simp add: wx_page_attrs_def const_defs)
  then show ?thesis by (simp add: l2_entry_is_user_def and.commute)
qed

lemma boot_tables:
  fixes ts et er :: usize
  assumes "layout_ok m" "l2_alloc m = 0" "addr_space_alloc m = 0"
  defines "m' \<equiv> init_and_enable ts et er m"
  shows "tables_ok m'" "\<And>t. live_l1 m' t \<longleftrightarrow> t = l1_base m'" "\<And>va. vpage va \<Longrightarrow> uframe m' (l1_base m') va = None"
    "\<And>va. va < RAM_START \<Longrightarrow> pte m' (l1_base m') va = None"
proof -
  note f = init_and_enable_l1 [OF assms(1), where ts = ts and et = et and er = er, folded m'_def]
  have base: "l1_base m' = l1_base m" using f(1) by (simp add: same_layout_def)
  show live: "live_l1 m' t \<longleftrightarrow> t = l1_base m'" for t using f(3) assms(3) by (simp add: live_l1_def)
  have "identity_sections m'"
    unfolding identity_sections_def
  proof (intro allI impI, elim conjE)
    fix t i assume h: "live_l1 m' t" "i < (4096 :: nat)" "tbl m' (t + 4 * i) AND 0b11 = SECTION"
    have t: "t = l1_base m" using h(1) live base by simp
    have "\<not> pt_entry m' (l1_base m) i" "tbl m' (l1_base m + 4 * i) \<noteq> 0"
      using h(3) section_not_pt t by (auto simp: pt_entry_def)
    then show "tbl m' (t + 4 * i) AND 0xFFF00000 = push_bit 20 (of_nat i)" using f(7) [OF h(2)] section_base t by auto
  qed
  then show "tables_ok m'" using init_and_enable_inv [OF assms(1-3)] by (simp add: tables_ok_def m'_def)
  have kernel: "\<exists>k<KERNEL_SECTIONS. l1_index va = KERNEL_MB + k \<and> target m' (l1_base m) (l1_index va) = kernel_l2_base m + k * 1024"
    if "pt_entry m' (l1_base m) (l1_index va)" "va < USIZE_MOD" for va using f(5) [OF l1_index_less [OF that(2)] that(1)] .
  show "uframe m' (l1_base m') va = None" if v: "vpage va" for va
  proof (cases "pt_entry m' (l1_base m) (l1_index va)")
    case True
    then obtain k where k: "k < KERNEL_SECTIONS" "target m' (l1_base m) (l1_index va) = kernel_l2_base m + k * 1024"
      using kernel vpageD [OF v] by blast
    obtain p where "tbl m' (kernel_l2_base m + k * 1024 + 4 * l2_index va) =
        of_nat (RAM_START + (k * 256 + l2_index va) * 4096) OR SMALL_PAGE OR SHAREABLE OR NORMAL_WB_WA OR wx_page_attrs p ts et er"
      using f(8) [OF k(1) l2_index_less] by blast
    moreover have "(RAM_START + (k * 256 + l2_index va) * 4096) mod 4096 = 0" by (simp add: const_defs)
    ultimately show ?thesis
      using True k(2) kernel_word_not_user base by (simp add: uframe_def pte_def read_l2_entry_def Let_def pt_entry_def target_def del: of_nat_add of_nat_mult)
  next
    case False
    then show ?thesis using base by (simp add: uframe_def pte_def read_l2_entry_def Let_def pt_entry_def)
  qed
  show "pte m' (l1_base m') va = None" if "va < RAM_START" for va
  proof -
    have "va < USIZE_MOD" "l1_index va < KERNEL_MB" using that by (simp_all add: const_defs l1_index_def)
    then have "\<not> pt_entry m' (l1_base m) (l1_index va)" using kernel by fastforce
    then show ?thesis using base by (simp add: pte_def read_l2_entry_def Let_def pt_entry_def)
  qed
qed

section \<open>Walking the user pages of an address space\<close>

text \<open>The user pages of a table in the order of the walk, and the walk over such a list.\<close>

definition l2_user_pages :: "mmu_state \<Rightarrow> usize \<Rightarrow> nat \<Rightarrow> nat list \<Rightarrow> (usize \<times> usize \<times> u32) list" where
  "l2_user_pages m l2 i js = concat (map (\<lambda>j. let e = tbl m (l2 + 4 * j) in
     if l2_entry_is_user e then [(i * 2 ^ 20 + j * 2 ^ 12, frame_of e, e AND 0xFFF)] else []) js)"

definition user_pages :: "mmu_state \<Rightarrow> usize \<Rightarrow> (usize \<times> usize \<times> u32) list" where
  "user_pages m t = concat (map (\<lambda>i. if pt_entry m t i then l2_user_pages m (target m t i) i [0..<256] else []) [0..<4096])"

fun until :: "(usize \<Rightarrow> usize \<Rightarrow> u32 \<Rightarrow> 's \<Rightarrow> bool \<times> 's) \<Rightarrow> (usize \<times> usize \<times> u32) list \<Rightarrow> 's \<Rightarrow> bool \<times> 's" where
  "until f [] s = (True, s)"
| "until f ((va, phys, attrs) # xs) s =
    (case f va phys attrs s of (False, s') \<Rightarrow> (False, s') | (True, s') \<Rightarrow> until f xs s')"

lemma until_append:
  "until f (xs @ ys) s = (case until f xs s of (False, s') \<Rightarrow> (False, s') | (True, s') \<Rightarrow> until f ys s')"
  by (induction f xs s rule: until.induct) (auto split: prod.splits bool.splits)

text \<open>The walk reads the tables while it runs; it visits the pages of the tables it started on when
  each visit leaves the words of this table alone.\<close>

definition agree :: "usize \<Rightarrow> mmu_state \<Rightarrow> mmu_state \<Rightarrow> bool" where
  "agree t m m' \<longleftrightarrow> (\<forall>i<4096. tbl m' (t + 4 * i) = tbl m (t + 4 * i) \<and>
     (pt_entry m t i \<longrightarrow> (\<forall>j<256. tbl m' (target m t i + 4 * j) = tbl m (target m t i + 4 * j))))"

lemma agree_refl: "agree t m m"
  by (simp add: agree_def)

lemma agree_trans: "agree t m m' \<Longrightarrow> agree t m' m'' \<Longrightarrow> agree t m m''"
  by (simp add: agree_def pt_entry_def target_def)

lemma until_invariant:
  assumes "I s" "\<And>va ph at s s' r. (va, ph, at) \<in> set xs \<Longrightarrow> I s \<Longrightarrow> f va ph at s = (r, s') \<Longrightarrow> I s'"
    and "until f xs s = (r, s')"
  shows "I s'"
  using assms
proof (induction xs arbitrary: s)
  case (Cons x xs)
  obtain va ph at where x: "x = (va, ph, at)" by (cases x)
  obtain ok s1 where f: "f va ph at s = (ok, s1)" by fastforce
  have I1: "I s1" using Cons.prems(2) [OF _ Cons.prems(1) f] x by simp
  have step: "I s'" if "(va, ph, at) \<in> set xs" "I s" "f va ph at s = (r, s')" for va ph at s s' r
    using Cons.prems(2) [OF _ that(2,3)] that(1) by simp
  show ?case
  proof (cases ok)
    case True
    then have "until f xs s1 = (r, s')" using Cons.prems(3) x f by simp
    from Cons.IH [OF I1 step this] show ?thesis .
  next
    case False
    then show ?thesis using Cons.prems(3) x f I1 by simp
  qed
qed simp

lemma each_l2_until:
  assumes "I s" "\<And>s. I s \<Longrightarrow> agree t m (get s)" "i < 4096" "pt_entry m t i" "set js \<subseteq> {..<256}"
    and "\<And>va ph at s s' r. (va, ph, at) \<in> set (l2_user_pages m (target m t i) i js) \<Longrightarrow> I s \<Longrightarrow> f va ph at s = (r, s') \<Longrightarrow> I s'"
  shows "each_l2_entry get f (target m t i) i js s = until f (l2_user_pages m (target m t i) i js) s"
  using assms
proof (induction js arbitrary: s)
  case Nil
  then show ?case by (simp add: l2_user_pages_def)
next
  case (Cons j js)
  let ?e = "tbl m (target m t i + 4 * j)"
  have w: "tbl (get s) (target m t i + 4 * j) = ?e"
    using Cons.prems(2) [OF Cons.prems(1)] Cons.prems(3-5) by (simp add: agree_def)
  have split: "l2_user_pages m (target m t i) i (j # js) =
      (if l2_entry_is_user ?e then [(i * 2 ^ 20 + j * 2 ^ 12, frame_of ?e, ?e AND 0xFFF)] else []) @ l2_user_pages m (target m t i) i js"
    by (simp add: l2_user_pages_def Let_def)
  have step: "I s'" if "(va, ph, at) \<in> set (l2_user_pages m (target m t i) i js)" "I s" "f va ph at s = (r, s')" for va ph at s s' r
    using Cons.prems(6) [OF _ that(2,3)] that(1) split by simp
  have js: "set js \<subseteq> {..<256}" using Cons.prems(5) by simp
  note ih = Cons.IH [OF _ Cons.prems(2-4) js step]
  show ?case
  proof (cases "l2_entry_is_user ?e")
    case True
    obtain r s' where f: "f (i * 2 ^ 20 + j * 2 ^ 12) (frame_of ?e) (?e AND 0xFFF) s = (r, s')" by fastforce
    have "I s'" using Cons.prems(6) [OF _ Cons.prems(1) f] split True by simp
    then show ?thesis
      using ih [of s'] w True f by (cases r) (simp_all add: split Let_def frame_of_def [symmetric])
  next
    case False
    then show ?thesis using ih [OF Cons.prems(1)] w by (simp add: split Let_def)
  qed
qed

lemma each_l1_until:
  assumes "I s" "\<And>s. I s \<Longrightarrow> agree t m (get s)" "set is \<subseteq> {..<4096}"
    and "\<And>va ph at s s' r. (va, ph, at) \<in> set (concat (map (\<lambda>i. if pt_entry m t i then l2_user_pages m (target m t i) i [0..<256] else []) is)) \<Longrightarrow>
      I s \<Longrightarrow> f va ph at s = (r, s') \<Longrightarrow> I s'"
  shows "each_l1_entry get f t is s =
    until f (concat (map (\<lambda>i. if pt_entry m t i then l2_user_pages m (target m t i) i [0..<256] else []) is)) s"
  using assms
proof (induction "is" arbitrary: s)
  case (Cons i "is")
  have i: "i < 4096" using Cons.prems(3) by simp
  have w: "tbl (get s) (t + 4 * i) = tbl m (t + 4 * i)"
    using Cons.prems(2) [OF Cons.prems(1)] i by (simp add: agree_def)
  let ?rest = "concat (map (\<lambda>i. if pt_entry m t i then l2_user_pages m (target m t i) i [0..<256] else []) is)"
  have rest: "I s'" if "(va, ph, at) \<in> set ?rest" "I s" "f va ph at s = (r, s')" for va ph at s s' r
    using Cons.prems(4) [OF _ that(2,3)] that(1) by (simp del: upt.simps)
  have js: "set is \<subseteq> {..<4096}" using Cons.prems(3) by simp
  note ih = Cons.IH [OF _ Cons.prems(2) js rest]
  show ?case
  proof (cases "pt_entry m t i")
    case True
    let ?here = "l2_user_pages m (target m t i) i [0..<256]"
    have step: "I s'" if "(va, ph, at) \<in> set ?here" "I s" "f va ph at s = (r, s')" for va ph at s s' r
      using Cons.prems(4) [OF _ that(2,3)] that(1) True by (simp del: upt.simps)
    have l2: "each_l2_entry get f (target m t i) i [0..<256] s = until f ?here s"
      by (rule each_l2_until [where I = I, OF Cons.prems(1,2) i True _ step]) (auto simp del: upt.simps)
    obtain r s' where u: "until f ?here s = (r, s')" by fastforce
    have "I s'" by (rule until_invariant [where I = I, OF Cons.prems(1) step u])
    then show ?thesis
      using True w l2 u ih [of s'] by (cases r) (simp_all add: pt_entry_def target_def until_append Let_def del: upt.simps)
  next
    case False
    then show ?thesis using w ih [OF Cons.prems(1)] by (simp add: pt_entry_def Let_def del: upt.simps)
  qed
qed simp

lemma for_each_until:
  assumes "I s" "\<And>s. I s \<Longrightarrow> agree t m (get s)"
    and "\<And>va ph at s s' r. (va, ph, at) \<in> set (user_pages m t) \<Longrightarrow> I s \<Longrightarrow> f va ph at s = (r, s') \<Longrightarrow> I s'"
  shows "for_each_user_page get f t s = until f (user_pages m t) s"
  unfolding for_each_user_page_def user_pages_def
  by (rule each_l1_until [where I = I, OF assms(1,2) _ assms(3) [unfolded user_pages_def]]) (auto simp del: upt.simps)

lemma page_of_index:
  assumes "i < 4096" "j < 256"
  shows "vpage (i * 2 ^ 20 + j * 2 ^ 12)" "l1_index (i * 2 ^ 20 + j * 2 ^ 12) = i" "l2_index (i * 2 ^ 20 + j * 2 ^ 12) = j"
proof -
  have e: "i * 2 ^ 20 + j * 2 ^ 12 = (i * 256 + j) * 4096" by simp
  show "vpage (i * 2 ^ 20 + j * 2 ^ 12)" unfolding e vpage_def using assms by (simp add: USIZE_MOD_def)
  have d: "(i * 256 + j) * 4096 div 4096 = i * 256 + j" by simp
  have "(i * 256 + j) * 4096 div (4096 * 256) = (i * 256 + j) div 256" unfolding div_mult2_eq d ..
  then show "l1_index (i * 2 ^ 20 + j * 2 ^ 12) = i" unfolding e l1_index_def using assms(2) by simp
  show "l2_index (i * 2 ^ 20 + j * 2 ^ 12) = j" unfolding e l2_index_def using assms(2) by simp
qed

lemma user_entry_valid: "l2_entry_is_user e \<Longrightarrow> e AND 0b11 \<noteq> 0"
proof
  assume u: "l2_entry_is_user e" and z: "e AND 0b11 = 0"
  have "e AND SMALL_PAGE = (e AND 0b11) AND SMALL_PAGE" by (simp add: and.assoc const_defs)
  then show False using u z by (simp add: l2_entry_is_user_def)
qed

lemma l2_user_pages_iff:
  "(va, f, at) \<in> set (l2_user_pages m l2 i js) \<longleftrightarrow> (\<exists>j\<in>set js. l2_entry_is_user (tbl m (l2 + 4 * j)) \<and>
    va = i * 2 ^ 20 + j * 2 ^ 12 \<and> f = frame_of (tbl m (l2 + 4 * j)) \<and> at = tbl m (l2 + 4 * j) AND 0xFFF)"
  by (induction js) (auto simp: l2_user_pages_def Let_def)

lemma user_pages_iff:
  "(va, f, at) \<in> set (user_pages m t) \<longleftrightarrow>
    vpage va \<and> (\<exists>e. pte m t va = Some e \<and> l2_entry_is_user e \<and> f = frame_of e \<and> at = e AND 0xFFF)"
proof -
  have "(va, f, at) \<in> set (user_pages m t) \<longleftrightarrow>
      (\<exists>i<4096. pt_entry m t i \<and> (va, f, at) \<in> set (l2_user_pages m (target m t i) i [0..<256]))"
    unfolding user_pages_def by (auto simp del: upt.simps split: if_splits)
  also have "\<dots> \<longleftrightarrow> (\<exists>i<4096. pt_entry m t i \<and> (\<exists>j<256. l2_entry_is_user (tbl m (target m t i + 4 * j)) \<and>
      va = i * 2 ^ 20 + j * 2 ^ 12 \<and> f = frame_of (tbl m (target m t i + 4 * j)) \<and> at = tbl m (target m t i + 4 * j) AND 0xFFF))"
    unfolding l2_user_pages_iff set_upt by (simp add: Bex_def)
  also have "\<dots> \<longleftrightarrow> vpage va \<and> (\<exists>e. pte m t va = Some e \<and> l2_entry_is_user e \<and> f = frame_of e \<and> at = e AND 0xFFF)"
    (is "?L \<longleftrightarrow> ?R")
  proof
    assume ?L
    then obtain i j where ij: "i < 4096" "pt_entry m t i" "j < 256" "l2_entry_is_user (tbl m (target m t i + 4 * j))"
      "va = i * 2 ^ 20 + j * 2 ^ 12" "f = frame_of (tbl m (target m t i + 4 * j))" "at = tbl m (target m t i + 4 * j) AND 0xFFF" by blast
    note p = page_of_index [OF ij(1,3), folded ij(5)]
    have "pte m t va = Some (tbl m (target m t i + 4 * j))"
      using ij(2) user_entry_valid [OF ij(4)] p(2,3) by (simp add: pte_def read_l2_entry_def Let_def pt_entry_def target_def)
    then show ?R using p(1) ij by blast
  next
    assume ?R
    then obtain e where e: "vpage va" "pte m t va = Some e" "l2_entry_is_user e" "f = frame_of e" "at = e AND 0xFFF" by blast
    have lt: "l1_index va < 4096" using l1_index_less [OF vpageD [OF e(1)]] .
    have "va = l1_index va * 2 ^ 20 + l2_index va * 2 ^ 12"
      using vpage_index [OF e(1) page_of_index(1) [OF lt l2_index_less [of va]]] page_of_index(2,3) [OF lt l2_index_less [of va]] by simp
    moreover have "pt_entry m t (l1_index va)" "e = tbl m (target m t (l1_index va) + 4 * l2_index va)"
      using e(2) by (auto simp: pte_def read_l2_entry_def Let_def pt_entry_def target_def split: if_splits)
    ultimately show ?L using lt e(3-5) l2_index_less [of va] by metis
  qed
  finally show ?thesis .
qed

text \<open>A walk that ran to its end established \<open>Q\<close> for every page it visited, when a visit keeps \<open>Q\<close>.\<close>

lemma until_all:
  assumes "I s" "\<And>va ph at s s' r. (va, ph, at) \<in> set xs \<Longrightarrow> I s \<Longrightarrow> f va ph at s = (r, s') \<Longrightarrow> I s' \<and> (\<forall>v. Q v s \<longrightarrow> Q v s') \<and> (r \<longrightarrow> Q va s')"
    and "until f xs s = (True, s')"
  shows "(\<forall>v. Q v s \<longrightarrow> Q v s') \<and> (\<forall>(va, ph, at) \<in> set xs. Q va s')"
  using assms
proof (induction xs arbitrary: s)
  case (Cons x xs)
  obtain va ph at where x: "x = (va, ph, at)" by (cases x)
  obtain ok s1 where f: "f va ph at s = (ok, s1)" by fastforce
  have ok: ok and run: "until f xs s1 = (True, s')" using Cons.prems(3) x f by (cases ok; simp)+
  have s1: "I s1" "\<forall>v. Q v s \<longrightarrow> Q v s1" "Q va s1" using Cons.prems(2) [OF _ Cons.prems(1) f] x ok by simp_all
  have step: "I s' \<and> (\<forall>v. Q v s \<longrightarrow> Q v s') \<and> (r \<longrightarrow> Q va s')" if "(va, ph, at) \<in> set xs" "I s" "f va ph at s = (r, s')" for va ph at s s' r
    using Cons.prems(2) [OF _ that(2,3)] that(1) by simp
  from Cons.IH [OF s1(1) step run] show ?case using s1 x by auto
qed simp

end
