(* ===== verification/Ownership.thy ===== *)
theory Ownership
  imports Lifecycle Frames
begin

text \<open>
  Who owns a physical frame. The page tables and the page allocator are kept consistent by the
  system calls and by process creation and exit: a frame of the allocator that some address space
  maps for user access is allocated, and no other page of any address space maps it. The first part
  states the invariant over the user mappings of all live tables, the second carries it through the
  loops of the memory system calls, fork, spawn and exit.
\<close>

section \<open>The user mappings of all address spaces\<close>

definition umaps :: "mmu_state \<Rightarrow> (usize \<times> usize \<times> usize) set" where
  "umaps m = {(t, va, f). live_l1 m t \<and> vpage va \<and> uframe m t va = Some f}"

text \<open>Below DRAM the kernel-only entries map device addresses.\<close>

definition low_plain :: "mmu_state \<Rightarrow> bool" where
  "low_plain m \<longleftrightarrow> (\<forall>t va e. live_l1 m t \<and> vpage va \<and> va < RAM_START \<and> pte m t va = Some e \<and> \<not> l2_entry_is_user e
     \<longrightarrow> frame_of e < RAM_START)"

lemma umaps_iff: "(t, va, f) \<in> umaps m \<longleftrightarrow> live_l1 m t \<and> vpage va \<and> uframe m t va = Some f"
  by (simp add: umaps_def)

lemma umaps_cong:
  assumes "same_spaces m m'" "\<And>t va. live_l1 m t \<Longrightarrow> vpage va \<Longrightarrow> uframe m' t va = uframe m t va"
  shows "umaps m' = umaps m"
  using assms by (auto simp: umaps_def same_spaces_def)

text \<open>The effect of each table operation on the user mappings.\<close>

lemma shatter_umaps:
  assumes ok: "tables_ok m" and t: "live_l1 m t" "t \<noteq> l1_base m" and va: "vpage va" "user_window va"
    and sh: "shatter_section t va m = (r, m') \<or> ensure_page_mappable t va m = (r, m')"
  shows "same_spaces m m'" "umaps m' = umaps m" "low_plain m \<Longrightarrow> low_plain m'"
proof -
  have inv: "mmu_inv m" "identity_sections m" using ok by (simp_all add: tables_ok_def)
  show sp: "same_spaces m m'"
    using mm_step_spaces [OF ok t, of "MShatter va"] mm_step_spaces [OF ok t, of "MEnsure va"] va(2) sh by auto
  have p: "pte m' t' va' = pte m t' va' \<or> pte m t' va' = None \<and> pte m' t' va' = Some (identity_entry va')"
    if "live_l1 m t'" "vpage va'" for t' va'
    using sh pte_shatter [OF inv t va _ that, of r m'] pte_ensure [OF inv t va _ that, of r m'] by auto
  show "umaps m' = umaps m"
  proof (rule umaps_cong [OF sp])
    fix t' va' assume h: "live_l1 m t'" "vpage va'"
    then show "uframe m' t' va' = uframe m t' va'" using p [OF h] identity_entry(1) [OF h(2)] by (auto simp: uframe_def)
  qed
  show "low_plain m'" if "low_plain m"
    unfolding low_plain_def
  proof (intro allI impI, elim conjE)
    fix t' va' e assume h: "live_l1 m' t'" "vpage va'" "va' < RAM_START" "pte m' t' va' = Some e" "\<not> l2_entry_is_user e"
    have "live_l1 m t'" using h(1) sp by (simp add: same_spaces_def)
    from p [OF this h(2)] show "frame_of e < RAM_START"
    proof
      assume "pte m' t' va' = pte m t' va'"
      then show ?thesis using \<open>low_plain m\<close> h \<open>live_l1 m t'\<close> by (auto simp: low_plain_def)
    next
      assume "pte m t' va' = None \<and> pte m' t' va' = Some (identity_entry va')"
      then show ?thesis using h(3,4) identity_entry(2) [OF h(2)] by simp
    qed
  qed
qed

lemma map_umaps:
  assumes ok: "tables_ok m" and t: "live_l1 m t" "t \<noteq> l1_base m" and va: "vpage va" "user_window va"
    and mp: "map_page t va f at m = (r, m')" and at: "page_attrs at" "l2_entry_is_user at"
    and f: "f mod 4096 = 0" "f < USIZE_MOD"
  shows "same_spaces m m'" "low_plain m \<Longrightarrow> low_plain m'"
    "umaps m' = (if r then {x \<in> umaps m. \<forall>f'. x \<noteq> (t, va, f')} \<union> {(t, va, f)} else umaps m)"
proof -
  have inv: "mmu_inv m" "identity_sections m" using ok by (simp_all add: tables_ok_def)
  show sp: "same_spaces m m'" using mm_step_spaces [OF ok t, of "MMap va f at"] va(2) mp by simp
  let ?d = "(of_nat f AND 0xFFFFF000) OR at :: u32"
  have d: "?d AND 0b11 \<noteq> 0" "l2_entry_is_user ?d" "frame_of ?d = f"
    using attrs_desc [OF at(1), of "of_nat f"] at(2) frame_of_nat [OF f] by auto
  have fail: "m' = m" if "\<not> r" using mp that by (cases rule: map_page_cases) auto
  have p: "pte m' t' va' = (if r \<and> t' = t \<and> va' = va then Some ?d else pte m t' va')" if "live_l1 m t'" "vpage va'" for t' va'
    using pte_map [OF inv(1) t va _ d(1) that, of m'] mp fail by (cases r) auto
  show "low_plain m'" if "low_plain m"
    using that sp p d(2) unfolding low_plain_def same_spaces_def by (metis option.inject)
  have u: "uframe m' t' va' = (if r \<and> t' = t \<and> va' = va then Some f else uframe m t' va')" if "live_l1 m t'" "vpage va'" for t' va'
    using p [OF that] d by (simp add: uframe_def)
  show "umaps m' = (if r then {x \<in> umaps m. \<forall>f'. x \<noteq> (t, va, f')} \<union> {(t, va, f)} else umaps m)"
    using sp t(1) va(1) u by (auto simp: umaps_def same_spaces_def split: if_splits)
qed

lemma unmap_umaps:
  assumes ok: "tables_ok m" and t: "live_l1 m t" "t \<noteq> l1_base m" and va: "vpage va" "user_window va"
  shows "same_spaces m (unmap_page t va m)" "low_plain m \<Longrightarrow> low_plain (unmap_page t va m)"
    "umaps (unmap_page t va m) = {x \<in> umaps m. \<forall>f'. x \<noteq> (t, va, f')}"
proof -
  have inv: "mmu_inv m" "identity_sections m" using ok by (simp_all add: tables_ok_def)
  let ?m = "unmap_page t va m"
  show sp: "same_spaces m ?m" using mm_step_spaces [OF ok t, of "MUnmap va"] va(2) by simp
  have p: "pte ?m t' va' = (if t' = t \<and> va' = va then None else pte m t' va')" if "live_l1 m t'" "vpage va'" for t' va'
    by (rule pte_unmap [OF inv(1) t(1) va that])
  show "low_plain ?m" if "low_plain m"
    using that sp p unfolding low_plain_def same_spaces_def by (metis option.distinct(1))
  have "uframe ?m t' va' = (if t' = t \<and> va' = va then None else uframe m t' va')" if "live_l1 m t'" "vpage va'" for t' va'
    using p [OF that] by (simp add: uframe_def)
  then show "umaps ?m = {x \<in> umaps m. \<forall>f'. x \<noteq> (t, va, f')}"
    using sp by (auto simp: umaps_def same_spaces_def split: if_splits)
qed

lemma prot_umaps:
  assumes ok: "tables_ok m" and t: "live_l1 m t" "t \<noteq> l1_base m" and va: "vpage va" "user_window va"
    and up: "update_page_prot t va at m = (r, m')" and at: "page_attrs at"
  shows "same_spaces m m'" "l2_entry_is_user at \<or> RAM_START \<le> va \<Longrightarrow> low_plain m \<Longrightarrow> low_plain m'"
    "umaps m' = {x \<in> umaps m. \<forall>f'. x \<noteq> (t, va, f')} \<union>
      {(t, va, f') | f'. l2_entry_is_user at \<and> (\<exists>e. pte m t va = Some e \<and> f' = frame_of e)}"
    "r \<longleftrightarrow> pte m t va \<noteq> None"
proof -
  have inv: "mmu_inv m" "identity_sections m" using ok by (simp_all add: tables_ok_def)
  show sp: "same_spaces m m'" using mm_step_spaces [OF ok t, of "MProt va at"] va(2) up by simp
  note d = attrs_desc [OF at]
  show "r \<longleftrightarrow> pte m t va \<noteq> None" by (rule pte_prot(1) [OF inv(1) t(1) va t(1) va(1) up d(1)])
  have p: "pte m' t' va' = (if t' = t \<and> va' = va then map_option (\<lambda>e. (e AND 0xFFFFF000) OR at) (pte m t va) else pte m t' va')"
    if "live_l1 m t'" "vpage va'" for t' va' by (rule pte_prot(2) [OF inv(1) t(1) va that up d(1)])
  show "low_plain m'" if a: "l2_entry_is_user at \<or> RAM_START \<le> va" and lp: "low_plain m"
    unfolding low_plain_def
  proof (intro allI impI, elim conjE)
    fix t' va' e assume h: "live_l1 m' t'" "vpage va'" "va' < RAM_START" "pte m' t' va' = Some e" "\<not> l2_entry_is_user e"
    have "live_l1 m t'" using h(1) sp by (simp add: same_spaces_def)
    moreover have "\<not> (t' = t \<and> va' = va)" using p [OF calculation h(2)] h a d(2) by (cases "pte m t va") auto
    ultimately show "frame_of e < RAM_START" using p [of t' va'] h lp by (auto simp: low_plain_def)
  qed
  have u: "uframe m' t' va' = (if t' = t \<and> va' = va then if l2_entry_is_user at then map_option frame_of (pte m t va) else None else uframe m t' va')"
    if "live_l1 m t'" "vpage va'" for t' va' using p [OF that] d(2,3) by (cases "pte m t va") (simp_all add: uframe_def)
  show "umaps m' = {x \<in> umaps m. \<forall>f'. x \<noteq> (t, va, f')} \<union>
      {(t, va, f') | f'. l2_entry_is_user at \<and> (\<exists>e. pte m t va = Some e \<and> f' = frame_of e)}"
    using sp t(1) va(1) u by (auto simp: umaps_def same_spaces_def split: if_splits)
qed

lemma switch_spaces [simp]:
  "same_spaces m (switch_addr_space t m) \<longleftrightarrow> tables_ok m" "umaps (switch_addr_space t m) = umaps m"
  "tables_ok (switch_addr_space t m) = tables_ok m" "low_plain (switch_addr_space t m) = low_plain m"
  "live_l1 (switch_addr_space t m) = live_l1 m" "l1_base (switch_addr_space t m) = l1_base m"
  "pte (switch_addr_space t m) = pte m" "table_base (switch_addr_space t m) = table_base m"
proof -
  let ?m = "switch_addr_space t m"
  have inv: "mmu_inv ?m = mmu_inv m"
    using mmu_inv_cong [of m ?m] mmu_inv_cong [of ?m m] by (auto simp: switch_addr_space_def same_layout_def)
  show live: "live_l1 ?m = live_l1 m"
    by (simp add: fun_eq_iff live_l1_def switch_addr_space_def user_table_addr_def)
  show ok: "tables_ok ?m = tables_ok m"
    unfolding tables_ok_def inv identity_sections_def live by (simp add: switch_addr_space_def)
  show pte: "pte ?m = pte m" by (simp add: fun_eq_iff pte_def read_l2_entry_def Let_def switch_addr_space_def)
  show "umaps ?m = umaps m" "low_plain ?m = low_plain m"
    by (simp_all add: umaps_def low_plain_def uframe_def live pte)
  show "l1_base ?m = l1_base m" "table_base ?m = table_base m" by (simp_all add: switch_addr_space_def table_base_def)
  then show "same_spaces m ?m \<longleftrightarrow> tables_ok m" using live ok by (simp add: same_spaces_def)
qed

section \<open>Ownership\<close>

text \<open>\<open>owned X m ps\<close>: the frames mapped at the pages in \<open>X\<close> may have been given back already, as during
  the teardown of an address space.\<close>

definition owned :: "(usize \<times> usize) set \<Rightarrow> mmu_state \<Rightarrow> page_state \<Rightarrow> bool" where
  "owned X m ps \<longleftrightarrow> tables_ok m \<and> low_plain m \<and> page_inv ps \<and> first_page ps = RAM_START \<and>
     (\<forall>t va f. (t, va, f) \<in> umaps m \<longrightarrow> t \<noteq> l1_base m \<and> user_window va) \<and>
     (\<forall>t va f. (t, va, f) \<in> umaps m \<and> (t, va) \<notin> X \<longrightarrow> f \<notin> free_frames ps) \<and>
     (\<forall>t va t' va' f. (t, va, f) \<in> umaps m \<and> (t', va', f) \<in> umaps m \<and> f \<in> managed_frames ps \<longrightarrow> t = t' \<and> va = va') \<and>
     (\<forall>f. f \<in> free_frames ps \<longrightarrow> user_window f) \<and>
     (\<forall>t va f. (t, va, f) \<in> umaps m \<and> f \<in> managed_frames ps \<longrightarrow> user_window f)"

lemma ownedD:
  assumes "owned X m ps"
  shows "tables_ok m" "low_plain m" "page_inv ps" "first_page ps = RAM_START"
    "\<And>t va f. (t, va, f) \<in> umaps m \<Longrightarrow> t \<noteq> l1_base m \<and> user_window va"
    "\<And>t va f. (t, va, f) \<in> umaps m \<Longrightarrow> (t, va) \<notin> X \<Longrightarrow> f \<notin> free_frames ps"
    "\<And>t va t' va' f. (t, va, f) \<in> umaps m \<Longrightarrow> (t', va', f) \<in> umaps m \<Longrightarrow> f \<in> managed_frames ps \<Longrightarrow> t = t' \<and> va = va'"
    "\<And>f. f \<in> free_frames ps \<Longrightarrow> user_window f"
    "\<And>t va f. (t, va, f) \<in> umaps m \<Longrightarrow> f \<in> managed_frames ps \<Longrightarrow> user_window f"
  using assms unfolding owned_def by blast+

text \<open>Frames of the allocator are page aligned and lie at or above the start of DRAM.\<close>

lemma managed_frame:
  assumes "owned X m ps" "f \<in> managed_frames ps"
  shows "f mod 4096 = 0" "f < USIZE_MOD" "RAM_START \<le> f"
  using ownedD(3,4) [OF assms(1)] assms(2)
  by (auto simp: managed_frames_def frame_addr_def page_inv_def const_defs)

text \<open>A step of the allocator: the same frames are managed.\<close>

definition same_frames :: "page_state \<Rightarrow> page_state \<Rightarrow> bool" where
  "same_frames ps ps' \<longleftrightarrow> page_inv ps' \<and> first_page ps' = first_page ps \<and> managed_frames ps' = managed_frames ps"

lemma frames_phys [simp]:
  "free_frames (ps\<lparr>phys_mem := ram\<rparr>) = free_frames ps" "managed_frames (ps\<lparr>phys_mem := ram\<rparr>) = managed_frames ps"
  "same_frames ps0 (ps\<lparr>phys_mem := ram\<rparr>) = same_frames ps0 ps"
proof -
  have "page_inv (ps\<lparr>phys_mem := ram\<rparr>) = page_inv ps" by (simp add: page_inv_def)
  moreover show "free_frames (ps\<lparr>phys_mem := ram\<rparr>) = free_frames ps" "managed_frames (ps\<lparr>phys_mem := ram\<rparr>) = managed_frames ps"
    by (simp_all add: free_frames_def frame_addr_def managed_frames_def)
  ultimately show "same_frames ps0 (ps\<lparr>phys_mem := ram\<rparr>) = same_frames ps0 ps" by (simp add: same_frames_def)
qed

lemma owned_pages:
  assumes "owned X m ps" "same_frames ps ps'"
    and "\<And>t va f. (t, va, f) \<in> umaps m \<Longrightarrow> (t, va) \<notin> X' \<Longrightarrow> f \<notin> free_frames ps'" "\<And>f. f \<in> free_frames ps' \<Longrightarrow> user_window f"
  shows "owned X' m ps'"
  unfolding owned_def
proof (intro conjI allI impI; (elim conjE)?)
  have m: "managed_frames ps' = managed_frames ps" using assms(2) by (simp add: same_frames_def)
  show "tables_ok m" "low_plain m" by (rule ownedD [OF assms(1)])+
  show "page_inv ps'" "first_page ps' = RAM_START" using assms(2) ownedD(4) [OF assms(1)] by (simp_all add: same_frames_def)
  show "t \<noteq> l1_base m" "user_window va" if "(t, va, f) \<in> umaps m" for t va f using ownedD(5) [OF assms(1) that] by simp_all
  show "f \<notin> free_frames ps'" if "(t, va, f) \<in> umaps m" "(t, va) \<notin> X'" for t va f by (rule assms(3) [OF that])
  show "t = t'" "va = va'" if "(t, va, f) \<in> umaps m" "(t', va', f) \<in> umaps m" "f \<in> managed_frames ps'" for t va t' va' f
    using ownedD(7) [OF assms(1) that(1,2)] that(3) m by simp_all
  show "user_window f" if "f \<in> free_frames ps'" for f by (rule assms(4) [OF that])
  show "user_window f" if "(t, va, f) \<in> umaps m" "f \<in> managed_frames ps'" for t va f
    using ownedD(9) [OF assms(1) that(1)] that(2) m by simp
qed

lemma alloc_frames:
  assumes "page_inv ps" "alloc_page ps = (r, ps')"
  shows "same_frames ps ps'" "free_frames ps' = free_frames ps - set_option r" "set_option r \<subseteq> free_frames ps"
proof -
  have fp: "first_page ps' = first_page ps"
    using assms(2) by (auto simp: alloc_page_def Let_def split: if_splits option.splits)
  have *: "same_frames ps ps' \<and> free_frames ps' = free_frames ps - set_option r \<and> set_option r \<subseteq> free_frames ps"
  proof (cases r)
    case None
    have "free_frames ps = {}" using pa.alloc_some [OF assms(1)] assms(2) None by fastforce
    then show ?thesis using pa.alloc_none [OF assms(1)] assms None by (simp add: same_frames_def)
  next
    case (Some a)
    then show ?thesis using pa.alloc_fresh [OF assms(1), of a ps'] assms(2) fp by (simp add: same_frames_def)
  qed
  then show "same_frames ps ps'" "free_frames ps' = free_frames ps - set_option r" "set_option r \<subseteq> free_frames ps" by auto
qed

lemma free_frames_step:
  assumes "page_inv ps"
  shows "same_frames ps (snd (try_free_page f ps))"
    "free_frames (snd (try_free_page f ps)) = (if f \<in> managed_frames ps then insert f (free_frames ps) else free_frames ps)"
proof -
  have fp: "first_page (snd (try_free_page f ps)) = first_page ps" by (simp add: try_free_page_def Let_def)
  have i: "page_inv (snd (try_free_page f ps))" by (rule page_inv_free [OF assms])
  show "same_frames ps (snd (try_free_page f ps))"
    using fp i pa.release_ok [OF assms, of f] pa.release_bad [OF assms, of f] assms
    by (cases "f \<in> managed_frames ps \<and> f \<notin> free_frames ps") (auto simp: same_frames_def)
  show "free_frames (snd (try_free_page f ps)) = (if f \<in> managed_frames ps then insert f (free_frames ps) else free_frames ps)"
    using pa.release_ok [OF assms, of f] pa.release_bad [OF assms, of f]
    by (cases "f \<in> managed_frames ps \<and> f \<notin> free_frames ps") auto
qed

definition only_at :: "usize \<Rightarrow> usize \<Rightarrow> usize \<Rightarrow> mmu_state \<Rightarrow> bool" where
  "only_at t va f m \<longleftrightarrow> (\<forall>t' va'. (t', va', f) \<in> umaps m \<longrightarrow> t' = t \<and> va' = va)"

lemma owned_tables:
  assumes "owned X m ps" "same_spaces m m'" "low_plain m'"
    and "\<And>t va f. (t, va, f) \<in> umaps m' \<Longrightarrow> (t, va, f) \<in> umaps m \<or>
      t \<noteq> l1_base m \<and> user_window va \<and> f \<notin> free_frames ps \<and> (f \<in> managed_frames ps \<longrightarrow> user_window f \<and> only_at t va f m \<and>
        (\<forall>t' va'. (t', va', f) \<in> umaps m' \<longrightarrow> (t', va', f) \<in> umaps m \<or> t' = t \<and> va' = va))"
  shows "owned X m' ps"
  unfolding owned_def
proof (intro conjI allI impI; (elim conjE)?)
  show "tables_ok m'" "low_plain m'" "page_inv ps" "first_page ps = RAM_START"
    using assms(2,3) ownedD(3,4) [OF assms(1)] by (simp_all add: same_spaces_def)
  show "t \<noteq> l1_base m'" "user_window va" if "(t, va, f) \<in> umaps m'" for t va f
    using assms(4) [OF that] ownedD(5) [OF assms(1), of t va f] assms(2) by (auto simp: same_spaces_def)
  show "f \<notin> free_frames ps" if "(t, va, f) \<in> umaps m'" "(t, va) \<notin> X" for t va f
    using assms(4) [OF that(1)] ownedD(6) [OF assms(1) _ that(2)] by blast
  show "t = t'" "va = va'" if "(t, va, f) \<in> umaps m'" "(t', va', f) \<in> umaps m'" "f \<in> managed_frames ps" for t va t' va' f
    using assms(4) [OF that(1)] assms(4) [OF that(2)] ownedD(7) [OF assms(1), of t va f t' va'] that unfolding only_at_def by blast+
  show "user_window f" if "f \<in> free_frames ps" for f by (rule ownedD(8) [OF assms(1) that])
  show "user_window f" if "(t, va, f) \<in> umaps m'" "f \<in> managed_frames ps" for t va f
    using assms(4) [OF that(1)] ownedD(9) [OF assms(1)] that(2) by blast
qed

text \<open>Entering a frame that is allocated and mapped nowhere else.\<close>

lemma owned_place:
  assumes own: "owned X m ps" and t: "live_l1 m t" "t \<noteq> l1_base m" and va: "vpage va" "user_window va"
    and pl: "place_page t va f at m = (r, m') \<or> grant_page t va f at m = (r, m')"
    and at: "page_attrs at" "l2_entry_is_user at"
    and f: "f \<in> managed_frames ps" "f \<notin> free_frames ps" "user_window f" "only_at t va f m"
  shows "owned X m' ps" "same_spaces m m'"
    "umaps m' = (if r then {x \<in> umaps m. \<forall>f'. x \<noteq> (t, va, f')} \<union> {(t, va, f)} else umaps m)"
proof -
  obtain r1 m1 where sh: "shatter_section t va m = (r1, m1) \<or> ensure_page_mappable t va m = (r1, m1)"
    and mp: "r1 \<Longrightarrow> map_page t va f at m1 = (r, m')" "\<not> r1 \<Longrightarrow> r = False \<and> m' = m1"
    using pl by (auto simp: place_page_def grant_page_def split: prod.splits bool.splits)
  note s = shatter_umaps [OF ownedD(1) [OF own] t va sh]
  have ok: "tables_ok m1" and t1: "live_l1 m1 t" "t \<noteq> l1_base m1" using s(1) t by (simp_all add: same_spaces_def)
  note fr = managed_frame(1,2) [OF own f(1)]
  have *: "same_spaces m m' \<and> low_plain m' \<and>
      umaps m' = (if r then {x \<in> umaps m. \<forall>f'. x \<noteq> (t, va, f')} \<union> {(t, va, f)} else umaps m)"
  proof (cases r1)
    case True
    note mu = map_umaps [OF ok t1 va mp(1) [OF True] at fr]
    show ?thesis using mu s ownedD(2) [OF own] same_spaces_trans by auto
  next
    case False
    then show ?thesis using mp(2) s ownedD(2) [OF own] by auto
  qed
  then show "same_spaces m m'" and u: "umaps m' = (if r then {x \<in> umaps m. \<forall>f'. x \<noteq> (t, va, f')} \<union> {(t, va, f)} else umaps m)"
    by blast+
  show "owned X m' ps"
    by (rule owned_tables [OF own]) (use * u t(2) va(2) f in \<open>auto split: if_splits\<close>)
qed

text \<open>Taking a page out of a table.\<close>

lemma owned_unmap:
  assumes own: "owned X m ps" and t: "live_l1 m t" "t \<noteq> l1_base m" and va: "vpage va" "user_window va"
  shows "owned X (unmap_page t va m) ps" "same_spaces m (unmap_page t va m)"
    "umaps (unmap_page t va m) = {x \<in> umaps m. \<forall>f'. x \<noteq> (t, va, f')}"
proof -
  note u = unmap_umaps [OF ownedD(1) [OF own] t va]
  show "same_spaces m (unmap_page t va m)" "umaps (unmap_page t va m) = {x \<in> umaps m. \<forall>f'. x \<noteq> (t, va, f')}" by (rule u)+
  show "owned X (unmap_page t va m) ps"
    by (rule owned_tables [OF own u(1) u(2) [OF ownedD(2) [OF own]]]) (simp add: u(3))
qed

text \<open>Giving back a frame that is mapped at most at the pages in \<open>X'\<close>.\<close>

lemma owned_free:
  assumes own: "owned X m ps" and X: "X \<subseteq> X'" and f: "\<And>t va. (t, va, f) \<in> umaps m \<Longrightarrow> f \<in> managed_frames ps \<Longrightarrow> (t, va) \<in> X'" and w: "f \<in> managed_frames ps \<Longrightarrow> user_window f"
  shows "owned X' m (snd (try_free_page f ps))" "same_frames ps (snd (try_free_page f ps))"
proof -
  note s = free_frames_step [OF ownedD(3) [OF own], of f]
  show "same_frames ps (snd (try_free_page f ps))" by (rule s(1))
  show "owned X' m (snd (try_free_page f ps))"
  proof (rule owned_pages [OF own s(1)])
    show "f' \<notin> free_frames (snd (try_free_page f ps))" if "(t, va, f') \<in> umaps m" "(t, va) \<notin> X'" for t va f'
      using ownedD(6) [OF own] X f that by (auto simp: s(2))
    show "user_window f'" if "f' \<in> free_frames (snd (try_free_page f ps))" for f'
      using ownedD(8) [OF own] w that by (auto simp: s(2) split: if_splits)
  qed
qed

section \<open>Loops over the pages of one address space\<close>

abbreviation kown :: "(usize \<times> usize) set \<Rightarrow> kernel \<Rightarrow> bool" where
  "kown X k \<equiv> owned X (mmu k) (pages k)"

definition user_table :: "kernel \<Rightarrow> usize \<Rightarrow> bool" where
  "user_table k t \<longleftrightarrow> live_l1 (mmu k) t \<and> t \<noteq> l1_base (mmu k)"

text \<open>The state changes in the tables and the allocator only, ownership holds again, and the user
  mappings are those of before outside the pages \<open>S\<close> of table \<open>t\<close>.\<close>

definition touches :: "usize \<Rightarrow> usize set \<Rightarrow> kernel \<Rightarrow> kernel \<Rightarrow> bool" where
  "touches t S k k' \<longleftrightarrow> k' = k\<lparr>mmu := mmu k', pages := pages k'\<rparr> \<and> kown {} k' \<and>
     same_spaces (mmu k) (mmu k') \<and> managed_frames (pages k') = managed_frames (pages k) \<and>
     (\<forall>t' va f. \<not> (t' = t \<and> va \<in> S) \<longrightarrow> ((t', va, f) \<in> umaps (mmu k') \<longleftrightarrow> (t', va, f) \<in> umaps (mmu k)))"

definition mapped :: "usize \<Rightarrow> usize \<Rightarrow> kernel \<Rightarrow> bool" where
  "mapped t va k \<longleftrightarrow> (\<exists>f. (t, va, f) \<in> umaps (mmu k) \<and> f \<in> managed_frames (pages k))"

lemma touchesD:
  assumes "touches t S k k'"
  shows "k' = k\<lparr>mmu := mmu k', pages := pages k'\<rparr>" "kown {} k'" "same_spaces (mmu k) (mmu k')"
    "\<And>t' va f. \<not> (t' = t \<and> va \<in> S) \<Longrightarrow> (t', va, f) \<in> umaps (mmu k') \<longleftrightarrow> (t', va, f) \<in> umaps (mmu k)"
    "user_table k' t' = user_table k t'" "\<And>va. va \<notin> S \<Longrightarrow> mapped t va k' = mapped t va k" "table_base (mmu k') = table_base (mmu k)"
    "managed_frames (pages k') = managed_frames (pages k)"
proof -
  show "k' = k\<lparr>mmu := mmu k', pages := pages k'\<rparr>" using assms unfolding touches_def by blast
  show "kown {} k'" and sp: "same_spaces (mmu k) (mmu k')" "managed_frames (pages k') = managed_frames (pages k)"
    and u: "\<And>t' va f. \<not> (t' = t \<and> va \<in> S) \<Longrightarrow> (t', va, f) \<in> umaps (mmu k') \<longleftrightarrow> (t', va, f) \<in> umaps (mmu k)"
    using assms unfolding touches_def by blast+
  show "user_table k' t' = user_table k t'" using sp by (simp add: user_table_def same_spaces_def)
  show "mapped t va k' = mapped t va k" if "va \<notin> S" for va using u that sp(2) by (simp add: mapped_def)
  show "table_base (mmu k') = table_base (mmu k)" using sp by (simp add: same_spaces_def table_base_def)
qed

lemma touches_refl: "kown {} k \<Longrightarrow> touches t S k k"
  using ownedD(1) same_spaces_refl by (simp add: touches_def)

lemma touches_trans:
  assumes a: "touches t S k k'" and b: "touches t S' k' k''" and R: "S \<union> S' \<subseteq> R"
  shows "touches t R k k''"
  unfolding touches_def
proof (intro conjI allI impI)
  obtain x y x' y' where e: "k' = k\<lparr>mmu := x, pages := y\<rparr>" "k'' = k'\<lparr>mmu := x', pages := y'\<rparr>"
    using touchesD(1) [OF a] touchesD(1) [OF b] by blast
  show "k'' = k\<lparr>mmu := mmu k'', pages := pages k''\<rparr>" unfolding e(2) unfolding e(1) by simp
  show "kown {} k''" by (rule touchesD(2) [OF b])
  show "same_spaces (mmu k) (mmu k'')" by (rule same_spaces_trans [OF touchesD(3) [OF a] touchesD(3) [OF b]])
  show "managed_frames (pages k'') = managed_frames (pages k)" using touchesD(8) [OF a] touchesD(8) [OF b] by simp
  fix t' va f assume n: "\<not> (t' = t \<and> va \<in> R)"
  then have n: "\<not> (t' = t \<and> va \<in> S)" "\<not> (t' = t \<and> va \<in> S')" using R by auto
  show "(t', va, f) \<in> umaps (mmu k'') \<longleftrightarrow> (t', va, f) \<in> umaps (mmu k)"
    unfolding touchesD(4) [OF b n(2)] by (rule touchesD(4) [OF a n(1)])
qed

lemma touches_mono: "touches t S k k' \<Longrightarrow> S \<subseteq> R \<Longrightarrow> touches t R k k'"
  unfolding touches_def by blast

lemma touches_switch: "kown {} k \<Longrightarrow> touches t S k (k\<lparr>mmu := switch_addr_space a (mmu k)\<rparr>)"
  using ownedD(1) [of "{}" "mmu k" "pages k"] by (auto simp: touches_def owned_def)

lemma touches_under_kernel_table:
  assumes "kown {} k" "\<And>k. kown {} k \<Longrightarrow> Q k \<Longrightarrow> touches t S k (g k)" "Q (k\<lparr>mmu := switch_addr_space (table_base (mmu k)) (mmu k)\<rparr>)"
  shows "touches t S k (under_kernel_table pt g k)"
proof -
  let ?k0 = "k\<lparr>mmu := switch_addr_space (table_base (mmu k)) (mmu k)\<rparr>"
  have a: "touches t S k ?k0" by (rule touches_switch [OF assms(1)])
  have b: "touches t S ?k0 (g ?k0)" by (rule assms(2) [OF touchesD(2) [OF a] assms(3)])
  have c: "touches t S (g ?k0) ((g ?k0)\<lparr>mmu := switch_addr_space pt (mmu (g ?k0))\<rparr>)" by (rule touches_switch [OF touchesD(2) [OF b]])
  show ?thesis
    unfolding under_kernel_table_def Let_def
    by (rule touches_trans [OF touches_trans [OF a b order_refl] c]) simp
qed

text \<open>Pages whose kernel-only entries, if any, hold no frame of the allocator.\<close>

definition low_page :: "usize \<Rightarrow> bool" where
  "low_page va \<longleftrightarrow> vpage va \<and> va < RAM_START"

lemma low_page_window: "low_page va \<Longrightarrow> vpage va \<and> user_window va"
  by (auto simp: low_page_def vpage_def user_window_iff)

definition droppable :: "usize \<Rightarrow> usize \<Rightarrow> kernel \<Rightarrow> bool" where
  "droppable t va k \<longleftrightarrow> vpage va \<and> user_window va \<and>
     (\<forall>e. pte (mmu k) t va = Some e \<longrightarrow> l2_entry_is_user e \<or> frame_of e < RAM_START)"

lemma low_droppable: "kown X k \<Longrightarrow> live_l1 (mmu k) t \<Longrightarrow> low_page va \<Longrightarrow> droppable t va k"
  using ownedD(2) [of X "mmu k" "pages k"] low_page_window [of va]
  by (auto simp: droppable_def low_page_def low_plain_def)

lemma unmap_and_free_touches:
  assumes own: "kown {} k" and t: "user_table k t" and d: "droppable t va k"
  shows "touches t {va} k (unmap_and_free t va k)" "\<not> mapped t va (unmap_and_free t va k)"
proof -
  have tt: "live_l1 (mmu k) t" "t \<noteq> l1_base (mmu k)" using t by (simp_all add: user_table_def)
  have va: "vpage va" "user_window va" using d by (simp_all add: droppable_def)
  note u = owned_unmap [OF own tt va]
  let ?k1 = "k\<lparr>mmu := unmap_page t va (mmu k)\<rparr>"
  have t1: "touches t {va} k ?k1"
    unfolding touches_def using u by auto
  have nm: "\<not> mapped t va ?k1" using u(3) by (auto simp: mapped_def)
  have "touches t {va} k (unmap_and_free t va k) \<and> \<not> mapped t va (unmap_and_free t va k)"
  proof (cases "pte (mmu k) t va")
    case None
    then show ?thesis using t1 nm by (simp add: unmap_and_free_def read_l2_phys_pte Let_def)
  next
    case (Some e)
    let ?f = "frame_of e"
    have here: "(t, va, ?f) \<in> umaps (mmu k)" if m: "?f \<in> managed_frames (pages k)"
    proof -
      have "l2_entry_is_user e" using d Some managed_frame(3) [OF own m] by (force simp: droppable_def)
      then show ?thesis using Some tt va by (simp add: umaps_iff uframe_def)
    qed
    then have none: "(t', va', ?f) \<notin> umaps (mmu ?k1)" if m: "?f \<in> managed_frames (pages k)" for t' va'
      using m u(3) ownedD(7) [OF own _ _ m] by auto
    have w: "user_window ?f" if "?f \<in> managed_frames (pages k)" using ownedD(9) [OF own here [OF that] that] .
    note fr = owned_free [OF u(1), of "{}" "frame_of e"]
    have "touches t {va} k (?k1\<lparr>pages := snd (try_free_page ?f (pages k))\<rparr>)"
      unfolding touches_def using u fr none w by (auto simp: same_frames_def)
    moreover have "managed_frames (snd (try_free_page ?f (pages k))) = managed_frames (pages k)"
      using free_frames_step(1) [OF ownedD(3) [OF own]] by (simp add: same_frames_def)
    ultimately show ?thesis using Some nm by (simp add: unmap_and_free_def read_l2_phys_pte Let_def free_page_def mapped_def)
  qed
  then show "touches t {va} k (unmap_and_free t va k)" "\<not> mapped t va (unmap_and_free t va k)" by blast+
qed

lemma fold_unmap_touches:
  assumes "kown {} k" "user_table k t" "\<forall>i\<in>set is. low_page (page_at base i)"
  shows "touches t (page_at base ` set is) k (fold (\<lambda>i. unmap_and_free t (page_at base i)) is k)"
  using assms
proof (induction "is" arbitrary: k)
  case Nil
  then show ?case by (simp add: touches_refl)
next
  case (Cons i "is")
  have d: "droppable t (page_at base i) k"
    using Cons.prems low_droppable by (simp add: user_table_def)
  note a = unmap_and_free_touches(1) [OF Cons.prems(1,2) d]
  have "touches t (page_at base ` set is) (unmap_and_free t (page_at base i) k)
      (fold (\<lambda>i. unmap_and_free t (page_at base i)) is (unmap_and_free t (page_at base i) k))"
    using Cons.prems touchesD(2,5) [OF a] by (intro Cons.IH) auto
  from touches_trans [OF a this order_refl] show ?case by simp
qed

lemma user_table_switch [simp]: "user_table (k\<lparr>mmu := switch_addr_space a (mmu k)\<rparr>) = user_table k"
  by (simp add: fun_eq_iff user_table_def)

lemma release_pages_touches:
  assumes "kown {} k" "user_table k t" "\<forall>i<n. low_page (page_at base i)"
  shows "touches t (page_at base ` {..<n}) k (release_pages t base n k)"
  unfolding release_pages_def
  by (rule touches_under_kernel_table [OF assms(1), where Q = "\<lambda>k. user_table k t"])
    (use assms fold_unmap_touches [of _ t "[0..<n]" base] in \<open>auto simp: atLeast0LessThan\<close>)

text \<open>Allocate a frame and enter it.\<close>

lemma alloc_touches:
  assumes own: "kown {} k" and al: "alloc_page (pages k) = (r, ps)"
  shows "touches t S k (k\<lparr>pages := ps\<rparr>)" "r = Some f \<Longrightarrow> f \<in> managed_frames ps \<and> f \<notin> free_frames ps \<and> user_window f"
    "r = Some f \<Longrightarrow> (t', va, f) \<notin> umaps (mmu k)"
proof -
  note a = alloc_frames [OF ownedD(3) [OF own] al]
  have "kown {} (k\<lparr>pages := ps\<rparr>)"
    using owned_pages [OF own a(1), of "{}"] ownedD(6,8) [OF own] a(2) by auto
  then show "touches t S k (k\<lparr>pages := ps\<rparr>)"
    using a(1) ownedD(1) [OF own] by (auto simp: touches_def same_frames_def same_spaces_refl)
  show "f \<in> managed_frames ps \<and> f \<notin> free_frames ps \<and> user_window f" if "r = Some f"
    using that a free_frames_managed [of "pages k"] ownedD(8) [OF own] by (auto simp: same_frames_def)
  show "(t', va, f) \<notin> umaps (mmu k)" if "r = Some f" using that a(3) ownedD(6) [OF own, of t' va f] by auto
qed

lemma place_touches:
  assumes own: "kown {} k" and t: "user_table k t" and va: "vpage va" "user_window va"
    and f: "f \<in> managed_frames (pages k)" "f \<notin> free_frames (pages k)" "user_window f" "only_at t va f (mmu k)"
    and at: "page_attrs at" "l2_entry_is_user at"
    and pl: "place_page t va f at (mmu k) = (r, m) \<or> grant_page t va f at (mmu k) = (r, m)"
  shows "touches t {va} k (k\<lparr>mmu := m\<rparr>)" "r \<Longrightarrow> (t, va, f) \<in> umaps m" "\<not> r \<Longrightarrow> umaps m = umaps (mmu k)"
proof -
  have tt: "live_l1 (mmu k) t" "t \<noteq> l1_base (mmu k)" using t by (simp_all add: user_table_def)
  note op = owned_place [OF own tt va pl at f]
  show "touches t {va} k (k\<lparr>mmu := m\<rparr>)" using op by (auto simp: touches_def split: if_splits)
  show "r \<Longrightarrow> (t, va, f) \<in> umaps m" "\<not> r \<Longrightarrow> umaps m = umaps (mmu k)" using op(3) by simp_all
qed

lemma alloc_place_touches:
  assumes own: "kown {} k" and t: "user_table k t" and va: "vpage va" "user_window va"
    and al: "alloc_page (pages k) = (Some f, ps)" and at: "page_attrs at" "l2_entry_is_user at"
    and pl: "place_page t va f at (mmu k) = (r, m) \<or> grant_page t va f at (mmu k) = (r, m)"
  shows "touches t {va} k (k\<lparr>pages := ps, mmu := m\<rparr>)" "r \<Longrightarrow> mapped t va (k\<lparr>pages := ps, mmu := m\<rparr>)"
    "\<not> r \<Longrightarrow> (t', va', f) \<notin> umaps m" "\<not> r \<Longrightarrow> umaps m = umaps (mmu k)" "user_window f"
proof -
  let ?k = "k\<lparr>pages := ps\<rparr>"
  note a = alloc_touches [OF own al]
  have only: "only_at t va f (mmu ?k)" using a(3) by (simp add: only_at_def)
  have t1: "user_table ?k t" using t by (simp add: user_table_def)
  have f1: "f \<in> managed_frames (pages ?k)" "f \<notin> free_frames (pages ?k)" and w: "user_window f" using a(2) by simp_all
  have pl1: "place_page t va f at (mmu ?k) = (r, m) \<or> grant_page t va f at (mmu ?k) = (r, m)" using pl by simp
  note q = place_touches [OF touchesD(2) [OF a(1)] t1 va f1 w only at pl1]
  have p: "touches t {va} ?k (k\<lparr>pages := ps, mmu := m\<rparr>)" "r \<Longrightarrow> (t, va, f) \<in> umaps m" "\<not> r \<Longrightarrow> umaps m = umaps (mmu k)"
    using q by simp_all
  show "touches t {va} k (k\<lparr>pages := ps, mmu := m\<rparr>)" by (rule touches_trans [OF a(1) p(1), of "{}"]) simp
  show "r \<Longrightarrow> mapped t va (k\<lparr>pages := ps, mmu := m\<rparr>)" using p(2) f1(1) by (auto simp: mapped_def)
  show "user_window f" by (rule w)
  show "\<not> r \<Longrightarrow> umaps m = umaps (mmu k)" by (rule p(3))
  then show "\<not> r \<Longrightarrow> (t', va', f) \<notin> umaps m" using a(3) by simp
qed

lemma free_touches:
  assumes own: "kown {} k" and f: "\<And>t va. (t, va, f) \<notin> umaps (mmu k)" "user_window f"
  shows "touches t S k (k\<lparr>pages := free_page f (pages k)\<rparr>)"
  using owned_free [OF own, of "{}" f] f ownedD(1) [OF own]
  by (auto simp: touches_def free_page_def same_frames_def same_spaces_refl)

definition region :: "usize \<Rightarrow> nat \<Rightarrow> usize set" where
  "region base n = page_at base ` {..<n}"

text \<open>A page-aligned range below DRAM.\<close>

definition low_range :: "usize \<Rightarrow> nat \<Rightarrow> bool" where
  "low_range base n \<longleftrightarrow> base mod 4096 = 0 \<and> base + n * 4096 \<le> RAM_START"

lemma low_range_page:
  assumes "low_range base n" "i < n"
  shows "page_at base i = base + i * 4096" "low_page (page_at base i)"
proof -
  have lt: "base + i * 4096 < RAM_START" using assms by (simp add: low_range_def)
  then show e: "page_at base i = base + i * 4096" by (intro page_at_exact) (simp add: const_defs)
  show "low_page (page_at base i)"
    using lt assms(1) unfolding e low_page_def vpage_def low_range_def by (simp add: const_defs)
qed

lemma low_range_inj: "low_range base n \<Longrightarrow> i < n \<Longrightarrow> j < n \<Longrightarrow> page_at base i = page_at base j \<longleftrightarrow> i = j"
  using low_range_page(1) by simp

lemma region_eq: "low_range base n \<Longrightarrow> va \<in> region base n \<longleftrightarrow> va mod 4096 = 0 \<and> base \<le> va \<and> va < base + n * 4096"
proof
  assume r: "low_range base n"
  show "va mod 4096 = 0 \<and> base \<le> va \<and> va < base + n * 4096" if "va \<in> region base n"
    using that low_range_page(1) [OF r] r by (auto simp: region_def low_range_def)
  assume va: "va mod 4096 = 0 \<and> base \<le> va \<and> va < base + n * 4096"
  let ?i = "(va - base) div 4096"
  have "(va - base) mod 4096 = 0" using va r by (simp add: low_range_def mod_diff_eq mod_0_imp_dvd dvd_diff_nat dvd_imp_mod_0)
  then have e: "va = base + ?i * 4096" using va by (metis le_add_diff_inverse mod_0_imp_dvd dvd_div_mult_self)
  have i: "?i < n" using va by (intro less_mult_imp_div_less) linarith
  show "va \<in> region base n"
    unfolding region_def using low_range_page(1) [OF r i] e i by (intro image_eqI [where x = ?i]) simp_all
qed

lemma release_touches:
  assumes "kown {} k" "user_table k t" "low_range base n"
  shows "touches t (region base n) k (release_pages t base n k)"
  unfolding region_def by (rule release_pages_touches [OF assms(1,2)]) (use low_range_page(2) [OF assms(3)] in simp)

text \<open>Giving back a frame that could not be entered, together with the first \<open>i\<close> pages of the region.\<close>

lemma undo_touches:
  assumes own: "kown {} k" and t: "user_table k t" and r: "low_range base n" "i \<le> n" and f: "\<And>t va. (t, va, f) \<notin> umaps (mmu k)" "user_window f"
  shows "touches t (region base n) k (under_kernel_table pt
    (\<lambda>k. fold (\<lambda>j. unmap_and_free t (page_at base j)) [0..<i] (k\<lparr>pages := free_page f (pages k)\<rparr>)) k)"
proof (rule touches_under_kernel_table [OF own, where Q = "\<lambda>k. user_table k t \<and> (\<forall>t va. (t, va, f) \<notin> umaps (mmu k))"])
  fix k assume k: "kown {} k" "user_table k t \<and> (\<forall>t va. (t, va, f) \<notin> umaps (mmu k))"
  let ?k = "k\<lparr>pages := free_page f (pages k)\<rparr>"
  have a: "touches t {} k ?k" using free_touches [OF k(1)] k(2) f(2) by blast
  have b: "touches t (page_at base ` set [0..<i]) ?k (fold (\<lambda>j. unmap_and_free t (page_at base j)) [0..<i] ?k)"
    by (rule fold_unmap_touches [OF touchesD(2) [OF a]])
      (use touchesD(5) [OF a] k(2) low_range_page(2) [OF r(1)] r(2) in auto)
  show "touches t (region base n) k (fold (\<lambda>j. unmap_and_free t (page_at base j)) [0..<i] ?k)"
    by (rule touches_trans [OF a b]) (use r(2) in \<open>auto simp: region_def\<close>)
qed (use t f in simp)

lemma mmap_pages_touches:
  assumes "kown {} k" "user_table k t" "low_range c n" "set is \<subseteq> {..<n}" "distinct is" "page_attrs at" "l2_entry_is_user at"
    and "mmap_pages t c at is k = (r, k')"
  shows "touches t (region c n) k k' \<and>
    (r \<longrightarrow> touches t (page_at c ` set is) k k' \<and> (\<forall>j\<in>set is. mapped t (page_at c j) k'))"
  using assms
proof (induction "is" arbitrary: k)
  case Nil
  then show ?case by (simp add: touches_refl)
next
  case (Cons i "is")
  have i: "i < n" and lp: "low_page (page_at c i)" using Cons.prems(4) low_range_page(2) [OF Cons.prems(3)] by simp_all
  have va: "vpage (page_at c i)" "user_window (page_at c i)" using low_page_window [OF lp] by simp_all
  obtain a ps where al: "alloc_page (pages k) = (a, ps)" by fastforce
  show ?case
  proof (cases a)
    case None
    note t1 = alloc_touches(1) [OF Cons.prems(1) al, of t "{}"]
    have r': "low_range c i" using Cons.prems(3) i by (simp add: low_range_def)
    have "touches t (region c i) (k\<lparr>pages := ps\<rparr>) (release_pages t c i (k\<lparr>pages := ps\<rparr>))"
      using touchesD(2,5) [OF t1] Cons.prems(2) by (intro release_touches [OF _ _ r']) auto
    then have "touches t (region c n) k (release_pages t c i (k\<lparr>pages := ps\<rparr>))"
      by (rule touches_trans [OF t1]) (use i in \<open>auto simp: region_def\<close>)
    then show ?thesis using Cons.prems(8) None al by simp
  next
    case (Some f)
    obtain ok m where pl: "place_page t (page_at c i) f at (mmu k) = (ok, m)" by fastforce
    note p = alloc_place_touches [OF Cons.prems(1,2) va al [unfolded Some] Cons.prems(6,7), of ok m]
    let ?k = "k\<lparr>pages := ps, mmu := m\<rparr>"
    have t1: "touches t {page_at c i} k ?k" using p(1) pl by simp
    show ?thesis
    proof (cases ok)
      case True
      have run: "mmap_pages t c at is ?k = (r, k')" using Cons.prems(8) al Some pl True by simp
      have ih: "touches t (region c n) ?k k' \<and>
          (r \<longrightarrow> touches t (page_at c ` set is) ?k k' \<and> (\<forall>j\<in>set is. mapped t (page_at c j) k'))"
        using Cons.prems touchesD(2,5) [OF t1] run by (intro Cons.IH) auto
      have "touches t (region c n) k k'"
        by (rule touches_trans [OF t1]) (use ih i in \<open>auto simp: region_def\<close>)
      moreover have "touches t (page_at c ` set (i # is)) k k' \<and> mapped t (page_at c i) k'" if r
      proof
        have t2: "touches t (page_at c ` set is) ?k k'" using ih that by blast
        show "touches t (page_at c ` set (i # is)) k k'" by (rule touches_trans [OF t1 t2]) simp
        have "page_at c i \<notin> page_at c ` set is"
          using Cons.prems(4,5) low_range_inj [OF Cons.prems(3) i] by auto
        then show "mapped t (page_at c i) k'" using p(2) pl True touchesD(6) [OF t2] by simp
      qed
      ultimately show ?thesis using ih by auto
    next
      case False
      have "touches t (region c n) ?k k'"
        using undo_touches [OF touchesD(2) [OF t1] _ Cons.prems(3), where t = t and i = i and f = f and pt = t] Cons.prems(2,8) touchesD(5) [OF t1] p(3,5) pl False al Some i by auto
      then have "touches t (region c n) k k'" by (rule touches_trans [OF t1]) (use i in \<open>auto simp: region_def\<close>)
      then show ?thesis using Cons.prems(8) False al Some pl by simp
    qed
  qed
qed

section \<open>The pool bounds the size of an address space\<close>

text \<open>Outside the kernel window every second-level table comes from the pool of 64.\<close>

lemma pt_entries_bounded:
  assumes inv: "mmu_inv m" and t: "live_l1 m t" and I: "\<And>i. i \<in> I \<Longrightarrow> i < 4096 \<and> pt_entry m t i \<and> i \<notin> {KERNEL_MB..<KERNEL_MB + KERNEL_SECTIONS}"
  shows "card I \<le> L2_POOL_SIZE"
proof -
  have ex: "\<exists>s<L2_POOL_SIZE. target m t i = l2_table_addr m s" if "i \<in> I" for i
    using mmu_invD(2) [OF inv t, of i] I [OF that] by (auto simp: entry_ok_def)
  define g where "g i = (SOME s. s < L2_POOL_SIZE \<and> target m t i = l2_table_addr m s)" for i
  have g: "g i < L2_POOL_SIZE \<and> target m t i = l2_table_addr m (g i)" if "i \<in> I" for i
    unfolding g_def by (rule someI_ex) (use ex [OF that] in blast)
  have "inj_on g I"
  proof (rule inj_onI)
    fix i j assume ij: "i \<in> I" "j \<in> I" "g i = g j"
    then show "i = j" using mmu_invD(3) [OF inv t _ _ t, of i j "g i"] I g by auto
  qed
  then have "card I \<le> card {..<L2_POOL_SIZE}" by (rule card_inj_on_le) (use g in auto)
  then show ?thesis by simp
qed

lemma mapped_run_bounded:
  assumes own: "kown X k" and run: "\<And>j. j < n \<Longrightarrow> mapped t (base + j * 4096) k"
  shows "n \<le> L2_POOL_SIZE * 256"
proof (rule ccontr)
  assume "\<not> n \<le> L2_POOL_SIZE * 256"
  then have n: "L2_POOL_SIZE * 256 < n" by simp
  let ?f = "\<lambda>i. l1_index (base + (i * 256) * 4096)"
  have m: "mapped t (base + (i * 256) * 4096) k" if "i \<le> L2_POOL_SIZE" for i
    using that n by (intro run) (simp add: mmu_sizes)
  have fi: "?f i = l1_index base + i" for i by (simp add: l1_index_def)
  have t: "live_l1 (mmu k) t" using m [of 0] by (auto simp: mapped_def umaps_iff)
  have "card (?f ` {..L2_POOL_SIZE}) \<le> L2_POOL_SIZE"
  proof (rule pt_entries_bounded [OF _ t])
    show "mmu_inv (mmu k)" using ownedD(1) [OF own] by (simp add: tables_ok_def)
    fix x assume "x \<in> ?f ` {..L2_POOL_SIZE}"
    then obtain i where i: "i \<le> L2_POOL_SIZE" "x = ?f i" by auto
    obtain f where u: "(t, base + (i * 256) * 4096, f) \<in> umaps (mmu k)" using m [OF i(1)] by (auto simp: mapped_def)
    have "user_window (base + (i * 256) * 4096)" using ownedD(5) [OF own u] by simp
    moreover have "pte (mmu k) t (base + (i * 256) * 4096) \<noteq> None"
      using u by (auto simp: umaps_iff uframe_def split: option.splits)
    ultimately show "x < 4096 \<and> pt_entry (mmu k) t x \<and> x \<notin> {KERNEL_MB..<KERNEL_MB + KERNEL_SECTIONS}"
      unfolding i(2) by (auto simp: user_window_def l1_index_less pte_def read_l2_entry_def pt_entry_def Let_def split: if_splits)
  qed
  moreover have "card (?f ` {..L2_POOL_SIZE}) = card {..L2_POOL_SIZE}"
    unfolding fi by (rule card_image) simp
  ultimately show False by simp
qed

lemma brk_grow_touches:
  assumes "kown {} k" "user_table k t" "cur mod 4096 = 0" "cur \<le> MMAP_BASE" "page_attrs at" "l2_entry_is_user at"
    and "\<forall>j<i. mapped t (cur + j * 4096) k" "i \<le> n" "brk_grow t cur at [i..<n] k = (r, k')"
  shows "\<exists>S. touches t S k k' \<and> (\<forall>va\<in>S. low_page va \<and> cur \<le> va) \<and> (r \<longrightarrow> (\<forall>j<n. mapped t (cur + j * 4096) k'))"
  using assms
proof (induction "n - i" arbitrary: i k)
  case 0
  then show ?case using touches_refl by (intro exI [of _ "{}"]) simp
next
  case (Suc d)
  have i: "i < n" using Suc.hyps(2) by simp
  have len: "i \<le> L2_POOL_SIZE * 256" by (rule mapped_run_bounded [OF Suc.prems(1)]) (use Suc.prems(7) in blast)
  have lr: "low_range cur (Suc i)" using len Suc.prems(3,4) by (simp add: low_range_def const_defs)
  have pa: "page_at cur i = cur + i * 4096" "low_page (page_at cur i)" using low_range_page [OF lr, of i] by simp_all
  have va: "vpage (page_at cur i)" "user_window (page_at cur i)" using low_page_window [OF pa(2)] by simp_all
  have reg: "\<forall>va\<in>region cur (Suc i). low_page va \<and> cur \<le> va"
    using low_range_page [OF lr] by (auto simp: region_def)
  have up: "[i..<n] = i # [Suc i..<n]" using i by (simp add: upt_rec)
  obtain a ps where al: "alloc_page (pages k) = (a, ps)" by fastforce
  show ?case
  proof (cases a)
    case None
    note t1 = alloc_touches(1) [OF Suc.prems(1) al, of t "{}"]
    have "touches t (region cur i) (k\<lparr>pages := ps\<rparr>) (release_pages t cur i (k\<lparr>pages := ps\<rparr>))"
      using touchesD(2,5) [OF t1] Suc.prems(2) lr by (intro release_touches) (auto simp: low_range_def)
    then have "touches t (region cur (Suc i)) k (release_pages t cur i (k\<lparr>pages := ps\<rparr>))"
      by (rule touches_trans [OF t1]) (auto simp: region_def)
    then show ?thesis using Suc.prems(9) None al up reg by (intro exI [of _ "region cur (Suc i)"]) simp
  next
    case (Some f)
    obtain ok m where pl: "place_page t (page_at cur i) f at (mmu k) = (ok, m)" by fastforce
    note p = alloc_place_touches [OF Suc.prems(1,2) va al [unfolded Some] Suc.prems(5,6), of ok m]
    let ?k = "k\<lparr>pages := ps, mmu := m\<rparr>"
    have t1: "touches t {page_at cur i} k ?k" using p(1) pl by simp
    show ?thesis
    proof (cases ok)
      case True
      have d: "d = n - Suc i" using Suc.hyps(2) by linarith
      have run: "brk_grow t cur at [Suc i..<n] ?k = (r, k')" using Suc.prems(9) al Some pl True up by simp
      have "mapped t (cur + j * 4096) ?k" if "j < Suc i" for j
      proof (cases "j = i")
        case True
        then show ?thesis using p(2) pl \<open>ok\<close> pa by simp
      next
        case False
        then show ?thesis using that Suc.prems(7) touchesD(6) [OF t1] pa(1) by simp
      qed
      then obtain S where S: "touches t S ?k k'" "\<forall>va\<in>S. low_page va \<and> cur \<le> va" "r \<longrightarrow> (\<forall>j<n. mapped t (cur + j * 4096) k')"
        using Suc.hyps(1) [of "Suc i" ?k, OF d touchesD(2) [OF t1] _ Suc.prems(3-6) _ _ run] Suc.prems(2) touchesD(5) [OF t1] i by auto
      have "touches t (insert (page_at cur i) S) k k'" by (rule touches_trans [OF t1 S(1)]) simp
      then show ?thesis using S pa by (intro exI [of _ "insert (page_at cur i) S"]) simp
    next
      case False
      have "touches t (region cur (Suc i)) ?k k'"
        using undo_touches [OF touchesD(2) [OF t1] _ lr, where t = t and i = 0 and f = f and pt = t] Suc.prems(2,9) touchesD(5) [OF t1] p(3,5) pl False al Some up by auto
      then have "touches t (region cur (Suc i)) k k'" by (rule touches_trans [OF t1]) (auto simp: region_def)
      moreover have "\<not> r" using Suc.prems(9) False al Some pl up by simp
      ultimately show ?thesis using reg by (intro exI [of _ "region cur (Suc i)"]) simp
    qed
  qed
qed

section \<open>Changing protections\<close>

lemma low_prot_touches:
  assumes own: "kown {} k" and t: "user_table k t" and lp: "low_page va" and at: "page_attrs at" "l2_entry_is_user at"
    and up: "update_page_prot t va at (mmu k) = (r, m)"
  shows "touches t {va} k (k\<lparr>mmu := m\<rparr>)" "mapped t va' k \<Longrightarrow> mapped t va' (k\<lparr>mmu := m\<rparr>)"
proof -
  have tt: "live_l1 (mmu k) t" "t \<noteq> l1_base (mmu k)" using t by (simp_all add: user_table_def)
  have va: "vpage va" "user_window va" using low_page_window [OF lp] by simp_all
  note u = prot_umaps [OF ownedD(1) [OF own] tt va up at(1)]
  have old: "(t, va, frame_of e) \<in> umaps (mmu k) \<or> frame_of e \<notin> managed_frames (pages k)" if "pte (mmu k) t va = Some e" for e
  proof (cases "l2_entry_is_user e")
    case True
    then show ?thesis using that tt(1) va(1) by (simp add: umaps_iff uframe_def)
  next
    case False
    then have "frame_of e < RAM_START" using low_droppable [OF own tt(1) lp] that by (auto simp: droppable_def)
    then show ?thesis using managed_frame(3) [OF own] by force
  qed
  have nf: "f \<notin> managed_frames (pages k) \<Longrightarrow> f \<notin> free_frames (pages k)" for f using free_frames_managed by blast
  have "owned {} m (pages k)"
  proof (rule owned_tables [OF own u(1)])
    show "low_plain m" using u(2) at(2) ownedD(2) [OF own] by blast
  qed (use u(3) old nf tt(2) va(2) in auto)
  then show "touches t {va} k (k\<lparr>mmu := m\<rparr>)" using u(1,3) by (auto simp: touches_def)
  show "mapped t va' (k\<lparr>mmu := m\<rparr>)" if m: "mapped t va' k"
  proof (cases "va' = va")
    case True
    then obtain e where "pte (mmu k) t va = Some e" "frame_of e \<in> managed_frames (pages k)"
      using m by (auto simp: mapped_def umaps_iff uframe_def split: option.splits if_splits)
    then show ?thesis using True at(2) u(3) by (auto simp: mapped_def)
  next
    case False
    then show ?thesis using m u(3) by (auto simp: mapped_def)
  qed
qed

lemma protect_pages_touches:
  assumes "kown {} k" "user_table k t" "\<forall>i\<in>set is. low_page (page_at base i)" "page_attrs at" "l2_entry_is_user at"
    and "protect_pages t base at is (mmu k) = (r, m)"
  shows "touches t (page_at base ` set is) k (k\<lparr>mmu := m\<rparr>) \<and> (\<forall>va. mapped t va k \<longrightarrow> mapped t va (k\<lparr>mmu := m\<rparr>))"
  using assms
proof (induction "is" arbitrary: k)
  case Nil
  then have e: "k\<lparr>mmu := m\<rparr> = k" by auto
  show ?case unfolding e using Nil.prems(1) touches_refl by simp
next
  case (Cons i "is")
  obtain ok m1 where up: "update_page_prot t (page_at base i) at (mmu k) = (ok, m1)" by fastforce
  let ?k = "k\<lparr>mmu := m1\<rparr>"
  have lp: "low_page (page_at base i)" using Cons.prems(3) by simp
  note s = low_prot_touches [OF Cons.prems(1,2) lp Cons.prems(4,5) up]
  show ?case
  proof (cases ok)
    case True
    have "touches t (page_at base ` set is) ?k (?k\<lparr>mmu := m\<rparr>) \<and> (\<forall>va. mapped t va ?k \<longrightarrow> mapped t va (?k\<lparr>mmu := m\<rparr>))"
      using Cons.prems touchesD(2,5) [OF s(1)] up True by (intro Cons.IH) auto
    moreover from this have "touches t (page_at base ` set (i # is)) k (?k\<lparr>mmu := m\<rparr>)"
      by (intro touches_trans [OF s(1), of "page_at base ` set is"]) auto
    ultimately show ?thesis using s(2) by simp
  next
    case False
    then show ?thesis using Cons.prems(6) up s touches_mono [OF s(1)] by auto
  qed
qed

section \<open>Teardown\<close>

lemma umaps_user_pages: "(t, va, f) \<in> umaps m \<longleftrightarrow> live_l1 m t \<and> (\<exists>at. (va, f, at) \<in> set (user_pages m t))"
  by (auto simp: umaps_iff user_pages_iff uframe_def split: option.splits if_splits)

lemma same_frames_refl: "page_inv ps \<Longrightarrow> same_frames ps ps"
  by (simp add: same_frames_def)

lemma same_frames_trans: "same_frames ps ps' \<Longrightarrow> same_frames ps' ps'' \<Longrightarrow> same_frames ps ps''"
  by (simp add: same_frames_def)

definition free_frame :: "usize \<Rightarrow> usize \<Rightarrow> u32 \<Rightarrow> kernel \<Rightarrow> bool \<times> kernel" where
  "free_frame va phys attrs k = (True, k\<lparr>pages := snd (try_free_page phys (pages k))\<rparr>)"

lemma until_free_frames:
  assumes "owned ({t} \<times> UNIV) m ps" "\<And>va f at. (va, f, at) \<in> set xs \<Longrightarrow> (t, va, f) \<in> umaps m" "mmu k = m" "pages k = ps"
  shows "\<exists>ps'. until free_frame xs k = (True, k\<lparr>pages := ps'\<rparr>) \<and> owned ({t} \<times> UNIV) m ps' \<and> same_frames ps ps' \<and>
    free_frames ps' = free_frames ps \<union> (fst ` snd ` set xs \<inter> managed_frames ps)"
  using assms
proof (induction xs arbitrary: k ps)
  case Nil
  then show ?case using same_frames_refl [OF ownedD(3)] by (intro exI [of _ ps]) auto
next
  case (Cons x xs)
  obtain va f at where x: "x = (va, f, at)" by (cases x)
  let ?ps = "snd (try_free_page f ps)"
  have u: "(t, va, f) \<in> umaps m" using Cons.prems(2) [of va f at] x by simp
  have own: "owned ({t} \<times> UNIV) m ?ps" "same_frames ps ?ps"
    by (rule owned_free [OF Cons.prems(1) order_refl]; use ownedD(7,9) [OF Cons.prems(1) u] in auto)+
  note fr = free_frames_step(2) [OF ownedD(3) [OF Cons.prems(1)], of f]
  obtain ps' where ps': "until free_frame xs (k\<lparr>pages := ?ps\<rparr>) = (True, (k\<lparr>pages := ?ps\<rparr>)\<lparr>pages := ps'\<rparr>)"
    "owned ({t} \<times> UNIV) m ps'" "same_frames ?ps ps'" "free_frames ps' = free_frames ?ps \<union> (fst ` snd ` set xs \<inter> managed_frames ?ps)"
    using Cons.IH [OF own(1), of "k\<lparr>pages := ?ps\<rparr>"] Cons.prems(2,3) by auto
  have "managed_frames ?ps = managed_frames ps" using own(2) by (simp add: same_frames_def)
  then have "free_frames ps' = free_frames ps \<union> (fst ` snd ` set (x # xs) \<inter> managed_frames ps)"
    using ps'(4) fr x by auto
  moreover have "free_frame va f at k = (True, k\<lparr>pages := ?ps\<rparr>)" using Cons.prems(4) by (simp add: free_frame_def)
  ultimately show ?case
    using ps' same_frames_trans [OF own(2) ps'(3)] x by (intro exI [of _ ps']) simp
qed

lemma free_user_pages_owned:
  assumes own: "kown X k" "X \<subseteq> {t} \<times> UNIV" and t: "live_l1 (mmu k) t"
  obtains ps where "free_user_pages t k = k\<lparr>pages := ps\<rparr>" "owned ({t} \<times> UNIV) (mmu k) ps" "same_frames (pages k) ps"
    "free_frames ps = free_frames (pages k) \<union> {f. (\<exists>va. (t, va, f) \<in> umaps (mmu k)) \<and> f \<in> managed_frames (pages k)}"
proof -
  have own1: "kown ({t} \<times> UNIV) k"
    by (rule owned_pages [OF own(1) same_frames_refl [OF ownedD(3) [OF own(1)]]]) (use ownedD(6,8) [OF own(1)] own(2) in blast)+
  have "free_user_pages t k = snd (until free_frame (user_pages (mmu k) t) k)"
    unfolding free_user_pages_def free_frame_def
    by (subst for_each_until [where I = "\<lambda>k'. mmu k' = mmu k"]) (auto simp: agree_refl)
  moreover obtain ps where "until free_frame (user_pages (mmu k) t) k = (True, k\<lparr>pages := ps\<rparr>)" "owned ({t} \<times> UNIV) (mmu k) ps"
    "same_frames (pages k) ps" "free_frames ps = free_frames (pages k) \<union> (fst ` snd ` set (user_pages (mmu k) t) \<inter> managed_frames (pages k))"
    using until_free_frames [OF own1 _ refl refl, of "user_pages (mmu k) t"] t umaps_user_pages by metis
  moreover have "fst ` snd ` set (user_pages (mmu k) t) = {f. \<exists>va. (t, va, f) \<in> umaps (mmu k)}"
    using t by (force simp: umaps_user_pages)
  ultimately show thesis using that [of ps] by auto
qed

lemma owned_free_space:
  assumes own: "owned X m ps" "X \<subseteq> {t} \<times> UNIV" and t: "live_l1 m t" "t \<noteq> l1_base m"
  shows "owned {} (snd (free_addr_space t m)) ps" "umaps (snd (free_addr_space t m)) = {x \<in> umaps m. fst x \<noteq> t}"
    "l1_base (snd (free_addr_space t m)) = l1_base m" "\<And>t'. live_l1 (snd (free_addr_space t m)) t' \<longleftrightarrow> live_l1 m t' \<and> t' \<noteq> t"
proof -
  let ?m = "snd (free_addr_space t m)"
  note f = free_space [OF ownedD(1) [OF own(1)] t]
  show u: "umaps ?m = {x \<in> umaps m. fst x \<noteq> t}" using f(2,4) by (auto simp: umaps_def uframe_def)
  show base: "l1_base ?m = l1_base m" "\<And>t'. live_l1 ?m t' \<longleftrightarrow> live_l1 m t' \<and> t' \<noteq> t" by (rule f)+
  have "low_plain ?m" using ownedD(2) [OF own(1)] f(2,4) by (auto simp: low_plain_def)
  then show "owned {} ?m ps"
    using f(1) ownedD(3-5,7-9) [OF own(1)] ownedD(6) [OF own(1)] own(2) unfolding owned_def u base(1) by auto blast+
qed

lemma owned_new_space:
  assumes own: "owned X m ps" and al: "alloc_addr_space m = (Some a, m1)"
  defines "m' \<equiv> clone_addr_space (table_base m1) a m1"
  shows "owned X m' ps" "umaps m' = umaps m" "l1_base m' = l1_base m" "\<And>t. live_l1 m' t \<longleftrightarrow> t = a \<or> live_l1 m t"
    "\<not> live_l1 m a" "a \<noteq> l1_base m"
proof -
  note n = new_space [OF ownedD(1) [OF own] al, folded m'_def]
  have kl: "live_l1 m (l1_base m)" by (simp add: live_l1_def)
  have nou: "uframe m (l1_base m) va = None" if "vpage va" for va
    using ownedD(5) [OF own, of "l1_base m" va] kl that by (cases "uframe m (l1_base m) va") (auto simp: umaps_iff)
  have uf: "uframe m' t va = (if t = a then None else uframe m t va)" if "live_l1 m' t" "vpage va" for t va
    using n(6) [OF that] nou [OF that(2)] by (simp add: uframe_def)
  show u: "umaps m' = umaps m" using n(2,3) uf by (auto simp: umaps_def split: if_splits)
  show base: "l1_base m' = l1_base m" "\<And>t. live_l1 m' t \<longleftrightarrow> t = a \<or> live_l1 m t" "\<not> live_l1 m a" "a \<noteq> l1_base m" by (rule n)+
  have "low_plain m'"
    using ownedD(2) [OF own] n(2,6) kl unfolding low_plain_def by (metis (full_types))
  then show "owned X m' ps" using n(1) ownedD(3-9) [OF own] unfolding owned_def u base(1) by auto
qed

section \<open>Runs of frames\<close>

definition run_frames :: "usize \<Rightarrow> nat \<Rightarrow> usize set" where
  "run_frames a n = (\<lambda>i. a + i * 4096) ` {..<n}"

lemma run_frames_addr: "run_frames (frame_addr ps st) n = frame_addr ps ` {st..<st + n}"
proof
  show "run_frames (frame_addr ps st) n \<subseteq> frame_addr ps ` {st..<st + n}"
  proof
    fix f assume "f \<in> run_frames (frame_addr ps st) n"
    then obtain i where "i < n" "f = frame_addr ps st + i * 4096" by (auto simp: run_frames_def)
    then show "f \<in> frame_addr ps ` {st..<st + n}"
      by (intro image_eqI [where x = "st + i"]) (simp_all add: frame_addr_def PAGE_SIZE_val add_mult_distrib)
  qed
  show "frame_addr ps ` {st..<st + n} \<subseteq> run_frames (frame_addr ps st) n"
  proof
    fix f assume "f \<in> frame_addr ps ` {st..<st + n}"
    then obtain p where "st \<le> p" "p < st + n" "f = frame_addr ps p" by auto
    then show "f \<in> run_frames (frame_addr ps st) n"
      unfolding run_frames_def
      by (intro image_eqI [where x = "p - st"]) (auto simp: frame_addr_def PAGE_SIZE_val simp flip: add_mult_distrib)
  qed
qed

lemma inj_frame_addr: "inj (frame_addr ps)"
  by (rule injI) (simp add: frame_addr_def PAGE_SIZE_val)

lemma same_frames_iff: "page_inv ps \<Longrightarrow> page_inv ps' \<Longrightarrow> first_page ps' = first_page ps \<Longrightarrow> same_frames ps ps'"
  unfolding same_frames_def managed_frames_def frame_addr_def page_inv_def by simp

lemma free_frames_at: "first_page ps' = first_page ps \<Longrightarrow> free_frames ps' = frame_addr ps ` free_set (page_bitmap ps')"
  by (simp add: free_frames_def frame_addr_def)

lemma alloc_run_frames:
  assumes inv: "page_inv ps" and al: "alloc_contiguous n ps = (r, ps')"
  shows "same_frames ps ps'" "r = None \<Longrightarrow> ps' = ps"
    "r = Some a \<Longrightarrow> 0 < n \<and> run_frames a n \<subseteq> free_frames ps \<and> free_frames ps' = free_frames ps - run_frames a n"
proof -
  have "same_frames ps ps' \<and> (r = None \<longrightarrow> ps' = ps) \<and>
    (r = Some a \<longrightarrow> 0 < n \<and> run_frames a n \<subseteq> free_frames ps \<and> free_frames ps' = free_frames ps - run_frames a n)"
    using inv al
  proof (cases rule: alloc_contiguous_cases)
    case none
    then show ?thesis using same_frames_refl [OF inv] by simp
  next
    case (some st)
    have "free_frames ps' = frame_addr ps ` (free_set (page_bitmap ps) - {st..<st + n})"
      using free_frames_at [OF some(8)] some(5) by simp
    also have "\<dots> = free_frames ps - run_frames (frame_addr ps st) n"
      by (simp add: run_frames_addr image_set_diff [OF inj_frame_addr] free_frames_def)
    finally have e: "free_frames ps' = free_frames ps - run_frames (frame_addr ps st) n" .
    have "run_frames (frame_addr ps st) n \<subseteq> free_frames ps"
      using some(3) by (auto simp: run_frames_addr free_frames_def)
    then show ?thesis using e some same_frames_iff [OF inv some(6,8)] by auto
  qed
  then show "same_frames ps ps'" "r = None \<Longrightarrow> ps' = ps"
    "r = Some a \<Longrightarrow> 0 < n \<and> run_frames a n \<subseteq> free_frames ps \<and> free_frames ps' = free_frames ps - run_frames a n" by blast+
qed

lemma free_run_frames:
  assumes inv: "page_inv ps" and used: "run_frames a n \<subseteq> managed_frames ps" "run_frames a n \<inter> free_frames ps = {}"
  shows "same_frames ps (snd (free_contiguous a n ps))"
    "free_frames (snd (free_contiguous a n ps)) = free_frames ps \<union> run_frames a n"
proof -
  have "same_frames ps (snd (free_contiguous a n ps)) \<and>
    free_frames (snd (free_contiguous a n ps)) = free_frames ps \<union> run_frames a n"
  proof (cases "n = 0")
    case True
    then show ?thesis using same_frames_refl [OF inv] by (simp add: free_contiguous_def run_frames_def)
  next
    case False
    have "a \<in> run_frames a n" using False by (auto simp: run_frames_def intro: image_eqI [where x = 0])
    then obtain st where st: "a = frame_addr ps st" using used(1) by (auto simp: managed_frames_def)
    have sub: "{st..<st + n} \<subseteq> {p. p < 32 * length (page_bitmap ps)}"
      using used(1) inj_image_subset_iff [OF inj_frame_addr] by (simp add: st run_frames_addr managed_frames_def)
    then have lim: "st + n \<le> 32 * length (page_bitmap ps)" using False by (force simp: subset_iff dest: spec [where x = "st + n - 1"])
    have dis: "{st..<st + n} \<inter> free_set (page_bitmap ps) = {}"
    proof (rule ccontr)
      assume "{st..<st + n} \<inter> free_set (page_bitmap ps) \<noteq> {}"
      then obtain p where "p \<in> {st..<st + n}" "p \<in> free_set (page_bitmap ps)" by blast
      then have "frame_addr ps p \<in> run_frames a n \<inter> free_frames ps" by (auto simp: st run_frames_addr free_frames_def)
      then show False using used(2) by blast
    qed
    let ?ps = "snd (free_contiguous a n ps)"
    have pos: "0 < n" using False by simp
    note ok = free_contiguous_ok [OF inv pos lim dis, folded st]
    have fs: "free_set (page_bitmap ?ps) = free_set (page_bitmap ps) \<union> {st..<st + n}" "first_page ?ps = first_page ps"
      using ok fold_bitmap_clear [of "[st..<st + n]" "page_bitmap ps"] lim by auto
    have "a div PAGE_SIZE + n < USIZE_MOD"
    proof -
      have "first_page ps div 4096 \<le> first_page ps" by (rule div_le_dividend)
      then show ?thesis using lim inv by (auto simp: st frame_addr_def page_inv_def const_defs)
    qed
    from page_inv_free_contiguous [OF inv this]
    show ?thesis
      using same_frames_iff [OF inv _ fs(2)] free_frames_at [OF fs(2)] fs(1)
      by (auto simp: st run_frames_addr free_frames_def image_Un)
  qed
  then show "same_frames ps (snd (free_contiguous a n ps))"
    "free_frames (snd (free_contiguous a n ps)) = free_frames ps \<union> run_frames a n" by blast+
qed

text \<open>Giving back a run whose frames are mapped at most at the pages in \<open>X'\<close>.\<close>

lemma owned_free_run:
  assumes own: "owned X m ps" and X: "X \<subseteq> X'" and used: "run_frames a n \<subseteq> managed_frames ps" "run_frames a n \<inter> free_frames ps = {}"
    and f: "\<And>t va f. (t, va, f) \<in> umaps m \<Longrightarrow> f \<in> run_frames a n \<Longrightarrow> (t, va) \<in> X'" "\<And>f. f \<in> run_frames a n \<Longrightarrow> user_window f"
  shows "owned X' m (snd (free_contiguous a n ps))"
proof -
  note s = free_run_frames [OF ownedD(3) [OF own] used]
  show ?thesis
    by (rule owned_pages [OF own s(1)]) (use ownedD(6,8) [OF own] X f in \<open>unfold s(2), blast+\<close>)
qed

end
