(* ===== verification/Isolation.thy ===== *)
theory Isolation
  imports Ownership Delivery
begin

text \<open>
  Memory isolation of processes: the ownership invariant of \<open>Ownership\<close> together with what the
  control blocks record about memory is kept by the memory system calls, fork, exit, spawn and every
  operation that only schedules. In every state they reach, no frame of the allocator is mapped for
  user access by two pages, and no mapped frame is free.
\<close>

section \<open>The memory of a process\<close>

definition own_table :: "kernel \<Rightarrow> process \<Rightarrow> bool" where
  "own_table k p \<longleftrightarrow> page_table_phys p \<noteq> 0 \<and> page_table_phys p \<noteq> table_base (mmu k)"

text \<open>The recorded mappings lie in their window, the grown heap and the stack are mapped, and a process
  without a table of its own holds no stack.\<close>

definition space_ok :: "kernel \<Rightarrow> process \<Rightarrow> bool" where
  "space_ok k p \<longleftrightarrow>
    (own_table k p \<longrightarrow> user_table k (page_table_phys p) \<and>
      (\<forall>mp. Some mp \<in> set (mappings p) \<longrightarrow> vm_start mp mod 4096 = 0 \<and> MMAP_BASE \<le> vm_start mp \<and> mapping_end mp \<le> MMAP_LIMIT) \<and>
      heap_break p mod 4096 = 0 \<and> stack_base p < USIZE_MOD \<and>
      (\<forall>va. va mod 4096 = 0 \<and> DEFAULT_HEAP_BREAK \<le> va \<and> va < heap_break p \<longrightarrow> mapped (page_table_phys p) va k) \<and>
      (\<forall>i < stack_pages p. RAM_START \<le> page_at (stack_base p) i \<and> mapped (page_table_phys p) (page_at (stack_base p) i) k)) \<and>
    (\<not> own_table k p \<longrightarrow> stack_pages p = 0)"

definition kinv :: "kernel \<Rightarrow> bool" where
  "kinv k \<longleftrightarrow> kown {} k \<and> proc_wf k \<and>
     (\<forall>i<MAX_PROCS. \<forall>p. procs k ! i = Some p \<longrightarrow> space_ok k p) \<and>
     (\<forall>i<MAX_PROCS. \<forall>j<MAX_PROCS. \<forall>p q. procs k ! i = Some p \<and> procs k ! j = Some q \<and> own_table k p \<and>
        page_table_phys p = page_table_phys q \<longrightarrow> i = j)"

lemma kinvD:
  assumes "kinv k"
  shows "kown {} k" "length (procs k) = MAX_PROCS" "current k < MAX_PROCS"
    "\<And>i p. i < MAX_PROCS \<Longrightarrow> procs k ! i = Some p \<Longrightarrow> space_ok k p"
    "\<And>i j p q. i < MAX_PROCS \<Longrightarrow> j < MAX_PROCS \<Longrightarrow> procs k ! i = Some p \<Longrightarrow> procs k ! j = Some q \<Longrightarrow> own_table k p \<Longrightarrow>
      page_table_phys p = page_table_phys q \<Longrightarrow> i = j" "proc_wf k"
  using assms unfolding kinv_def proc_wf_def by blast+

lemma heap_bounded:
  assumes own: "kown X k" and h: "\<And>va. va mod 4096 = 0 \<Longrightarrow> DEFAULT_HEAP_BREAK \<le> va \<Longrightarrow> va < b \<Longrightarrow> mapped t va k" and a: "b mod 4096 = 0"
  shows "b \<le> DEFAULT_HEAP_BREAK + L2_POOL_SIZE * 256 * 4096"
proof -
  have "(b - DEFAULT_HEAP_BREAK) div 4096 \<le> L2_POOL_SIZE * 256"
  proof (rule mapped_run_bounded [OF own])
    fix j assume j: "j < (b - DEFAULT_HEAP_BREAK) div 4096"
    then have "Suc j * 4096 \<le> b - DEFAULT_HEAP_BREAK" using less_eq_div_iff_mult_less_eq [of 4096 "Suc j"] by simp
    then have "j * 4096 < b - DEFAULT_HEAP_BREAK" by simp
    then show "mapped t (DEFAULT_HEAP_BREAK + j * 4096) k" by (intro h) (simp_all add: const_defs)
  qed
  moreover have "(b - DEFAULT_HEAP_BREAK) mod 4096 = 0" using a by (simp add: const_defs mod_diff_eq mod_0_imp_dvd dvd_diff_nat dvd_imp_mod_0)
  ultimately have "b - DEFAULT_HEAP_BREAK \<le> L2_POOL_SIZE * 256 * 4096"
    by (metis mod_0_imp_dvd dvd_div_mult_self mult_le_mono1)
  then show ?thesis by linarith
qed

lemma space_ok_cong:
  assumes "mmu k' = mmu k" "managed_frames (pages k') = managed_frames (pages k)"
  shows "space_ok k' p = space_ok k p" "own_table k' p = own_table k p"
  using assms by (simp_all add: space_ok_def own_table_def user_table_def mapped_def)

lemma touch_own: "touches t S k k' \<Longrightarrow> own_table k' p = own_table k p"
  using touchesD(7) by (simp add: own_table_def)

lemma touch_other_space:
  assumes "touches t S k k'" "page_table_phys p \<noteq> t"
  shows "space_ok k' p \<longleftrightarrow> space_ok k p"
proof -
  have "mapped (page_table_phys p) va k' \<longleftrightarrow> mapped (page_table_phys p) va k" for va
    using touchesD(4,8) [OF assms(1)] assms(2) by (simp add: mapped_def)
  then show ?thesis using touchesD(5) [OF assms(1)] touch_own [OF assms(1)] by (simp add: space_ok_def)
qed

lemma touch_own_space:
  assumes tch: "touches (page_table_phys p) S k k'" and ok: "space_ok k p"
    and S: "\<And>va. va \<in> S \<Longrightarrow> low_page va" "\<And>va. va \<in> S \<Longrightarrow> DEFAULT_HEAP_BREAK \<le> va \<Longrightarrow> va < heap_break p \<Longrightarrow> mapped (page_table_phys p) va k'"
  shows "space_ok k' p"
proof -
  let ?t = "page_table_phys p"
  have h: "mapped ?t va k'" if "mapped ?t va k" "DEFAULT_HEAP_BREAK \<le> va" "va < heap_break p" for va
    using touchesD(6) [OF tch, of va] S(2) [of va] that by blast
  have st: "mapped ?t va k'" if "mapped ?t va k" "RAM_START \<le> va" for va
    using touchesD(6) [OF tch, of va] S(1) [of va] that by (force simp: low_page_def)
  show ?thesis
    using ok touchesD(5) [OF tch] touch_own [OF tch] h st unfolding space_ok_def by auto
qed

text \<open>A system call that works on the pages of the caller and then updates its control block.\<close>

lemma kinv_current:
  assumes inv: "kinv k" and cur: "cur_proc k = Some p" "own_table k p" and tch: "touches (page_table_phys p) S k k1"
    and p': "page_table_phys p' = page_table_phys p" "p_pid p' = p_pid p" "space_ok k1 p'"
  shows "kinv (k1\<lparr>procs := (procs k)[current k := Some p']\<rparr>)"
proof -
  let ?k = "k1\<lparr>procs := (procs k)[current k := Some p']\<rparr>"
  note d = kinvD [OF inv]
  obtain x y where k1: "k1 = k\<lparr>mmu := x, pages := y\<rparr>" using touchesD(1) [OF tch] by blast
  have cong: "space_ok ?k q = space_ok k1 q" "own_table ?k q = own_table k q" for q
    using space_ok_cong [of ?k k1 q] touch_own [OF tch] by simp_all
  have sp: "space_ok ?k q" if "i < MAX_PROCS" "procs ?k ! i = Some q" for i q
  proof (cases "i = current k")
    case True
    then show ?thesis using that d(2) p'(3) cong by simp
  next
    case False
    then have q: "procs k ! i = Some q" using that(2) by simp
    then have "page_table_phys q \<noteq> page_table_phys p" using d(5) [OF d(3) that(1) cur(1) q cur(2)] False by auto
    then show ?thesis using touch_other_space [OF tch] d(4) [OF that(1) q] cong by simp
  qed
  have pt: "\<exists>q0. procs k ! i = Some q0 \<and> page_table_phys q0 = page_table_phys q \<and> own_table k q0 = own_table ?k q"
    if "i < MAX_PROCS" "procs ?k ! i = Some q" for i q
    using that d(2,3) cur(1) p'(1) cong(2) by (cases "i = current k") (auto simp: own_table_def)
  have di: "i = j" if h: "i < MAX_PROCS" "j < MAX_PROCS" "procs ?k ! i = Some q" "procs ?k ! j = Some q'" "own_table ?k q"
      "page_table_phys q = page_table_phys q'" for i j q q'
    using pt [OF h(1,3)] pt [OF h(2,4)] d(5) [OF h(1,2)] h(5,6) by metis
  have "kown {} ?k" using touchesD(2) [OF tch] by simp
  moreover have "proc_wf ?k" using d(6) k1 cur(1) p'(2) by (auto simp: proc_wf_def nth_list_update)
  ultimately show ?thesis unfolding kinv_def using sp di by blast
qed

lemma kinv_touch:
  assumes inv: "kinv k" and cur: "cur_proc k = Some p" "own_table k p" and tch: "touches (page_table_phys p) S k k1"
    and S: "\<And>va. va \<in> S \<Longrightarrow> low_page va" "\<And>va. va \<in> S \<Longrightarrow> DEFAULT_HEAP_BREAK \<le> va \<Longrightarrow> va < heap_break p \<Longrightarrow> mapped (page_table_phys p) va k1"
  shows "kinv k1"
proof -
  have "space_ok k1 p" by (rule touch_own_space [OF tch kinvD(4) [OF inv kinvD(3) [OF inv] cur(1)] S])
  from kinv_current [OF inv cur tch refl refl this] have "kinv (k1\<lparr>procs := (procs k)[current k := Some p]\<rparr>)" .
  moreover have "(procs k)[current k := Some p] = procs k1"
    using touchesD(1) [OF tch] cur(1) by (metis list_update_id kernel.select_convs(1) kernel.surjective kernel.update_convs(6,7))
  ultimately show ?thesis by simp
qed

section \<open>Memory system calls\<close>

definition slots_aligned :: "vm_mapping option list \<Rightarrow> bool" where
  "slots_aligned slots \<longleftrightarrow> (\<forall>mp. Some mp \<in> set slots \<longrightarrow> vm_start mp mod 4096 = 0)"

lemma page_at_aligned: "base mod 4096 = 0 \<Longrightarrow> page_at base n mod 4096 = 0"
proof -
  assume b: "base mod 4096 = 0"
  have "page_at base n = (base + n * 4096) mod 2 ^ 32"
    by (simp add: page_at_def uadd_def umul_def PAGE_SIZE_val USIZE_MOD_def mod_simps)
  then have "page_at base n mod 4096 = (base + n * 4096) mod 4096" by (simp add: mod_mod_cancel)
  then show ?thesis using b by simp
qed

lemma overlap_end_aligned: "slots_aligned slots \<Longrightarrow> overlap_end c e slots = Some past \<Longrightarrow> past mod 4096 = 0"
proof (induction slots)
  case (Cons slot slots)
  have "slots_aligned slots" using Cons.prems(1) by (simp add: slots_aligned_def)
  then show ?case
    using Cons page_at_aligned by (auto simp: slots_aligned_def Let_def split: option.splits if_splits)
qed simp

lemma mmap_search_aligned:
  "slots_aligned slots \<Longrightarrow> c mod 4096 = 0 \<Longrightarrow> mmap_search slots n c = Some r \<Longrightarrow> r mod 4096 = 0"
proof (induction slots n c rule: mmap_search.induct)
  case (1 slots n c)
  let ?e = "page_at c n"
  show ?case
  proof (cases "MMAP_LIMIT < ?e")
    case True
    then show ?thesis using 1(4) by (simp add: mmap_search.simps [of slots n c])
  next
    case False
    show ?thesis
    proof (cases "overlap_end c ?e slots")
      case None
      then show ?thesis using 1(3,4) False by (simp add: mmap_search.simps [of slots n c])
    next
      case (Some past)
      then have "mmap_search slots n past = Some r" using 1(4) False by (simp add: mmap_search.simps [of slots n c])
      then show ?thesis using 1(1) [OF refl False Some 1(2)] overlap_end_aligned [OF 1(2) Some] by blast
    qed
  qed
qed

lemma mmap_search_range:
  assumes "slots_ok slots" "slots_aligned slots" "n < 0xE0000" "mmap_search slots n MMAP_BASE = Some c"
  shows "c mod 4096 = 0" "MMAP_BASE \<le> c" "c + n * 4096 \<le> MMAP_LIMIT"
proof -
  show "c mod 4096 = 0" by (rule mmap_search_aligned [OF assms(2) _ assms(4)]) (simp add: process_sizes)
  have "n * PAGE_SIZE \<le> MMAP_LIMIT"
  proof (rule ccontr)
    assume n: "\<not> n * PAGE_SIZE \<le> MMAP_LIMIT"
    have "page_at MMAP_BASE n = MMAP_BASE + n * 4096" using assms(3) by (intro page_at_exact) (simp add: const_defs)
    then have "mmap_search slots n MMAP_BASE = None" using n by (simp add: mmap_search.simps [of slots n MMAP_BASE] PAGE_SIZE_val)
    then show False using assms(4) by simp
  qed
  from mmap_search_first [OF assms(1) this, of MMAP_BASE] show "MMAP_BASE \<le> c" "c + n * 4096 \<le> MMAP_LIMIT"
    using assms(4) by (simp_all add: fits_def PAGE_SIZE_val MMAP_LIMIT_def process_sizes)
qed

lemma window_low: "c mod 4096 = 0 \<Longrightarrow> c + n * 4096 \<le> MMAP_LIMIT \<Longrightarrow> low_range c n"
  by (simp add: low_range_def MMAP_LIMIT_def const_defs)

lemma region_window:
  assumes "c mod 4096 = 0" "MMAP_BASE \<le> c" "c + n * 4096 \<le> MMAP_LIMIT" "va \<in> region c n"
  shows "low_page va" "MMAP_BASE \<le> va"
proof -
  note lr = window_low [OF assms(1,3)]
  show "MMAP_BASE \<le> va" using region_eq [OF lr] assms(2,4) by simp
  show "low_page va" using low_range_page(2) [OF lr] assms(4) by (auto simp: region_def)
qed

text \<open>The state of a process that issues a memory system call.\<close>

lemma caller:
  assumes inv: "kinv k" and cur: "cur_proc k = Some p" "own_table k p"
  shows "kown {} k" "user_table k (page_table_phys p)" "current_page_table k = page_table_phys p" "page_table_phys p \<noteq> 0"
    "slots_ok (mappings p)" "slots_aligned (mappings p)" "space_ok k p" "heap_break p mod 4096 = 0" "heap_break p \<le> MMAP_BASE"
    "\<And>mp. Some mp \<in> set (mappings p) \<Longrightarrow> vm_start mp mod 4096 = 0 \<and> MMAP_BASE \<le> vm_start mp \<and> mapping_end mp \<le> MMAP_LIMIT"
proof -
  note d = kinvD [OF inv]
  show ok: "space_ok k p" by (rule d(4) [OF d(3) cur(1)])
  show "kown {} k" by (rule d(1))
  show "user_table k (page_table_phys p)" "heap_break p mod 4096 = 0"
    and m: "\<And>mp. Some mp \<in> set (mappings p) \<Longrightarrow> vm_start mp mod 4096 = 0 \<and> MMAP_BASE \<le> vm_start mp \<and> mapping_end mp \<le> MMAP_LIMIT"
    using ok cur(2) by (auto simp: space_ok_def)
  then show "slots_ok (mappings p)" "slots_aligned (mappings p)" by (auto simp: slots_ok_def slots_aligned_def)
  show "current_page_table k = page_table_phys p" "page_table_phys p \<noteq> 0"
    using cur by (simp_all add: current_page_table_def own_table_def)
  have "heap_break p \<le> DEFAULT_HEAP_BREAK + L2_POOL_SIZE * 256 * 4096"
    by (rule heap_bounded [OF d(1), of _ "page_table_phys p"]) (use ok cur(2) in \<open>auto simp: space_ok_def\<close>)
  then show "heap_break p \<le> MMAP_BASE" by (simp add: const_defs)
qed

lemma upd_current:
  assumes "cur_proc k = Some p" "procs k1 = procs k"
  shows "upd_proc (current k) f k1 = k1\<lparr>procs := (procs k)[current k := Some (f p)]\<rparr>"
  using assms by (simp add: upd_proc_def)

lemma touch_frame:
  assumes "touches t S k k1"
  shows "procs k1 = procs k" "current k1 = current k"
proof -
  obtain x y where "k1 = k\<lparr>mmu := x, pages := y\<rparr>" using touchesD(1) [OF assms] by blast
  then show "procs k1 = procs k" "current k1 = current k" by simp_all
qed

lemma space_ok_mappings:
  assumes "space_ok k p"
    and "\<And>mp. Some mp \<in> set ms \<Longrightarrow> Some mp \<in> set (mappings p) \<or> (vm_start mp mod 4096 = 0 \<and> MMAP_BASE \<le> vm_start mp \<and> mapping_end mp \<le> MMAP_LIMIT)"
  shows "space_ok k (p\<lparr>mappings := ms\<rparr>)"
  using assms unfolding space_ok_def own_table_def by simp blast

lemma window_touch:
  assumes inv: "kinv k" and cur: "cur_proc k = Some p" "own_table k p"
    and c: "c mod 4096 = 0" "MMAP_BASE \<le> c" "c + n * 4096 \<le> MMAP_LIMIT"
    and tch: "touches (page_table_phys p) (region c n) k k1"
  shows "kinv k1" "space_ok k1 p"
proof -
  note w = region_window [OF c] and cl = caller [OF inv cur]
  show "kinv k1" by (rule kinv_touch [OF inv cur tch]) (use w cl(9) in force)+
  show "space_ok k1 p" by (rule touch_own_space [OF tch cl(7)]) (use w cl(9) in force)+
qed

lemma munmap_kinv:
  assumes inv: "kinv k" and cur: "cur_proc k = Some p" "own_table k p"
  shows "kinv (snd (sys_munmap a b k))"
proof -
  note c = caller [OF inv cur]
  show ?thesis
  proof (cases "find_index (starts_at (unat a)) (mappings p)")
    case None
    then show ?thesis using cur(1) c(3,4) inv by (simp add: sys_munmap_def remove_mapping_def del: find_index_None_iff)
  next
    case (Some slot)
    note sl = find_index_Some_less [OF Some] find_index_Some_P [OF Some]
    then obtain mp where mp: "mappings p ! slot = Some mp" by (auto simp: starts_at_def split: option.splits)
    let ?p = "p\<lparr>mappings := (mappings p)[slot := None]\<rparr>"
    let ?k = "k\<lparr>procs := (procs k)[current k := Some ?p]\<rparr>"
    have rm: "remove_mapping (unat a) k = (Some mp, ?k)"
      using Some cur(1) mp upd_current [OF cur(1) refl] by (simp add: remove_mapping_def)
    have m: "vm_start mp mod 4096 = 0" "MMAP_BASE \<le> vm_start mp" "vm_start mp + vm_pages mp * 4096 \<le> MMAP_LIMIT"
      using c(10) [of mp] nth_mem [OF sl(1)] mp by (simp_all add: mapping_end_def PAGE_SIZE_val)
    have "space_ok k ?p"
      by (rule space_ok_mappings [OF c(7)]) (use set_update_subset_insert [of "mappings p" slot None] in auto)
    then have inv1: "kinv ?k" using kinv_current [OF inv cur touches_refl [OF c(1)], of ?p] by simp
    have cur1: "cur_proc ?k = Some ?p" "own_table ?k ?p"
      using kinvD(2,3) [OF inv] cur(2) by (simp_all add: own_table_def)
    note c1 = caller [OF inv1 cur1]
    have "touches (page_table_phys ?p) (region (vm_start mp) (vm_pages mp)) ?k (release_pages (page_table_phys ?p) (vm_start mp) (vm_pages mp) ?k)"
      by (rule release_touches [OF c1(1,2) window_low [OF m(1,3)]])
    from window_touch(1) [OF inv1 cur1 m this] show ?thesis using rm c(3,4) by (simp add: sys_munmap_def)
  qed
qed

lemma mprotect_kinv:
  assumes inv: "kinv k" and cur: "cur_proc k = Some p" "own_table k p"
  shows "kinv (snd (sys_mprotect a b pr k))"
proof -
  note c = caller [OF inv cur]
  consider "snd (sys_mprotect a b pr k) = k"
    | slot mp r m where "find_index (starts_at (unat a)) (mappings p) = Some slot" "mappings p ! slot = Some mp"
      "protect_pages (page_table_phys p) (vm_start mp) (prot_to_l2_flags pr) [0..<vm_pages mp] (mmu k) = (r, m)"
      "sys_mprotect a b pr k = (if r then (0, snd (update_mapping_prot (unat a) pr (k\<lparr>mmu := m\<rparr>))) else (err EFAULT, k\<lparr>mmu := m\<rparr>))"
  proof (cases "exec_only pr \<or> find_index (starts_at (unat a)) (mappings p) = None")
    case True
    then have "snd (sys_mprotect a b pr k) = k"
      using c(3,4) cur(1) by (auto simp: sys_mprotect_def find_mapping_def simp del: find_index_None_iff)
    then show thesis using that(1) by blast
  next
    case False
    then obtain slot where slot: "find_index (starts_at (unat a)) (mappings p) = Some slot"
      by (auto simp del: find_index_None_iff)
    then obtain mp where mp: "mappings p ! slot = Some mp"
      using find_index_Some_P [of "starts_at (unat a)" "mappings p"] by (fastforce simp: starts_at_def split: option.splits)
    obtain r m where pp: "protect_pages (page_table_phys p) (vm_start mp) (prot_to_l2_flags pr) [0..<vm_pages mp] (mmu k) = (r, m)"
      by fastforce
    show thesis
      by (rule that(2) [OF slot mp pp]) (use False c(3,4) cur(1) slot mp pp in \<open>auto simp: sys_mprotect_def find_mapping_def split: bool.splits\<close>)
  qed
  then show ?thesis
  proof cases
    case 1
    then show ?thesis using inv by simp
  next
    case (2 slot mp r m)
    note sl = find_index_Some_less [OF 2(1)]
    have mem: "Some mp \<in> set (mappings p)" using nth_mem [OF sl] 2(2) by simp
    have w: "vm_start mp mod 4096 = 0" "MMAP_BASE \<le> vm_start mp" "vm_start mp + vm_pages mp * 4096 \<le> MMAP_LIMIT"
      using c(10) [OF mem] by (simp_all add: mapping_end_def PAGE_SIZE_val)
    have "touches (page_table_phys p) (region (vm_start mp) (vm_pages mp)) k (k\<lparr>mmu := m\<rparr>)"
      using protect_pages_touches [OF c(1,2) _ prot_attrs 2(3)] low_range_page(2) [OF window_low [OF w(1,3)]]
      by (simp add: region_def atLeast0LessThan)
    note k1 = window_touch [OF inv cur w this]
    let ?k = "k\<lparr>mmu := m\<rparr>" and ?p = "p\<lparr>mappings := (mappings p)[slot := Some (mp\<lparr>vm_prot := pr\<rparr>)]\<rparr>"
    have cur1: "cur_proc ?k = Some p" "own_table ?k p"
      using cur touch_own [OF \<open>touches (page_table_phys p) (region (vm_start mp) (vm_pages mp)) k ?k\<close>] by simp_all
    have "space_ok ?k ?p"
    proof (rule space_ok_mappings [OF k1(2)])
      fix x assume "Some x \<in> set ((mappings p)[slot := Some (mp\<lparr>vm_prot := pr\<rparr>)])"
      then have "Some x \<in> set (mappings p) \<or> x = mp\<lparr>vm_prot := pr\<rparr>"
        using set_update_subset_insert [of "mappings p" slot "Some (mp\<lparr>vm_prot := pr\<rparr>)"] by auto
      then show "Some x \<in> set (mappings p) \<or> (vm_start x mod 4096 = 0 \<and> MMAP_BASE \<le> vm_start x \<and> mapping_end x \<le> MMAP_LIMIT)"
        using c(10) [OF mem] by (auto simp: mapping_end_def)
    qed
    from kinv_current [OF k1(1) cur1 touches_refl [OF kinvD(1) [OF k1(1)]] _ _ this]
    have "kinv (?k\<lparr>procs := (procs k)[current k := Some ?p]\<rparr>)" by simp
    moreover have "snd (update_mapping_prot (unat a) pr ?k) = ?k\<lparr>procs := (procs k)[current k := Some ?p]\<rparr>"
      using cur(1) 2(1,2) by (simp add: update_mapping_prot_def upd_proc_def)
    ultimately show ?thesis using 2(4) k1(1) by simp
  qed
qed

lemma mmap_kinv:
  assumes inv: "kinv k" and cur: "cur_proc k = Some p" "own_table k p" and len: "div_ceil (unat b) PAGE_SIZE < 0xE0000"
  shows "kinv (snd (sys_mmap a b pr d k))"
proof -
  note c = caller [OF inv cur]
  let ?n = "div_ceil (unat b) PAGE_SIZE" and ?t = "page_table_phys p"
  consider "snd (sys_mmap a b pr d k) = k"
    | addr ok k1 where "mmap_search (mappings p) ?n MMAP_BASE = Some addr" "mmap_pages ?t addr (prot_to_l2_flags pr) [0..<?n] k = (ok, k1)"
      "snd (sys_mmap a b pr d k) = (if ok then case add_mapping \<lparr>vm_start = addr, vm_pages = ?n, vm_prot = pr\<rparr> k1 of
          (Some _, k) \<Rightarrow> k | (None, k) \<Rightarrow> release_pages ?t addr ?n k else k1)"
  proof (cases "unat b = 0 \<or> (d AND 0xFFFF) AND MAP_ANONYMOUS = 0 \<or> drop_bit 16 d \<noteq> 0xFFFF \<or> exec_only pr \<or>
      mmap_search (mappings p) ?n MMAP_BASE = None")
    case True
    then have "snd (sys_mmap a b pr d k) = k"
      using c(3,4) cur(1) by (auto simp: sys_mmap_def current_mappings_def Let_def)
    then show thesis using that(1) by blast
  next
    case False
    then obtain addr where addr: "mmap_search (mappings p) ?n MMAP_BASE = Some addr" by auto
    obtain ok k1 where mp: "mmap_pages ?t addr (prot_to_l2_flags pr) [0..<?n] k = (ok, k1)" by fastforce
    show thesis
      by (rule that(2) [OF addr mp])
        (use False c(3,4) cur(1) addr mp in \<open>auto simp: sys_mmap_def current_mappings_def Let_def split: option.splits prod.splits\<close>)
  qed
  then show ?thesis
  proof cases
    case 1
    then show ?thesis using inv by simp
  next
    case (2 addr ok k1)
    note w = mmap_search_range [OF c(5,6) len 2(1)]
    have tch: "touches ?t (region addr ?n) k k1"
      using mmap_pages_touches [OF c(1,2) window_low [OF w(1,3)] _ _ prot_attrs 2(2)] by (auto simp: atLeast0LessThan)
    note k1 = window_touch [OF inv cur w tch]
    have cur1: "cur_proc k1 = Some p" "own_table k1 p" using cur touch_frame [OF tch] touch_own [OF tch] by simp_all
    note c1 = caller [OF k1(1) cur1]
    show ?thesis
    proof (cases "find_index Option.is_none (mappings p)")
      case None
      then have "snd (sys_mmap a b pr d k) = (if ok then release_pages ?t addr ?n k1 else k1)"
        using 2(3) cur1(1) by (simp add: add_mapping_def del: find_index_None_iff)
      then show ?thesis
        using window_touch(1) [OF k1(1) cur1 w release_touches [OF c1(1,2) window_low [OF w(1,3)]]] k1(1) by simp
    next
      case (Some slot)
      let ?mp = "\<lparr>vm_start = addr, vm_pages = ?n, vm_prot = pr\<rparr>"
      let ?p = "p\<lparr>mappings := (mappings p)[slot := Some ?mp]\<rparr>"
      have "space_ok k1 ?p"
      proof (rule space_ok_mappings [OF k1(2)])
        fix x assume "Some x \<in> set ((mappings p)[slot := Some ?mp])"
        then have "Some x \<in> set (mappings p) \<or> x = ?mp"
          using set_update_subset_insert [of "mappings p" slot "Some ?mp"] by auto
        then show "Some x \<in> set (mappings p) \<or> (vm_start x mod 4096 = 0 \<and> MMAP_BASE \<le> vm_start x \<and> mapping_end x \<le> MMAP_LIMIT)"
          using w by (auto simp: mapping_end_def PAGE_SIZE_val)
      qed
      from kinv_current [OF k1(1) cur1 touches_refl [OF kinvD(1) [OF k1(1)]] _ _ this]
      have "kinv (k1\<lparr>procs := (procs k1)[current k1 := Some ?p]\<rparr>)" by simp
      moreover have "snd (add_mapping ?mp k1) = k1\<lparr>procs := (procs k1)[current k1 := Some ?p]\<rparr>" "fst (add_mapping ?mp k1) = Some slot"
        using cur1(1) Some by (simp_all add: add_mapping_def upd_proc_def)
      ultimately show ?thesis using 2(3) k1(1) by (simp split: prod.splits)
    qed
  qed
qed

lemma round_up_aligned: "round_up_page a mod 4096 = 0"
  by (simp add: round_up_page_def align_down_def PAGE_SIZE_val)

lemma page_steps:
  assumes "a mod 4096 = 0" "b mod 4096 = 0" "b \<le> (a :: nat)"
  shows "b + (a - b) div 4096 * 4096 = a"
proof -
  have "4096 dvd a - b" using assms(1,2) by (simp add: mod_0_imp_dvd dvd_diff_nat)
  then show ?thesis using assms(3) by simp
qed

lemma page_between:
  assumes "a mod 4096 = 0" "va mod 4096 = 0" "a \<le> va" "va < a + n * (4096 :: nat)"
  obtains j where "j < n" "va = a + j * 4096"
proof
  have "4096 dvd va - a" using assms(1,2) by (simp add: mod_0_imp_dvd dvd_diff_nat)
  then show "va = a + (va - a) div 4096 * 4096" using assms(3) by simp
  show "(va - a) div 4096 < n" using assms(3,4) by (intro less_mult_imp_div_less) linarith
qed

lemma space_ok_heap:
  assumes ok: "space_ok k p" and own: "own_table k p" and b: "b mod 4096 = 0"
    and h: "\<And>va. va mod 4096 = 0 \<Longrightarrow> DEFAULT_HEAP_BREAK \<le> va \<Longrightarrow> va < b \<Longrightarrow> mapped (page_table_phys p) va k"
  shows "space_ok k (p\<lparr>heap_break := b\<rparr>)"
  using assms unfolding space_ok_def own_table_def by simp

text \<open>What a change of the heap pages leaves of the invariant, when the pages below the new break are mapped.\<close>

lemma space_ok_rebreak:
  assumes inv: "kinv k" and cur: "cur_proc k = Some p" "own_table k p"
    and tch: "touches (page_table_phys p) S k k1" and S: "\<And>va. va \<in> S \<Longrightarrow> low_page va"
    and b: "b mod 4096 = 0" and h: "\<And>va. va mod 4096 = 0 \<Longrightarrow> DEFAULT_HEAP_BREAK \<le> va \<Longrightarrow> va < b \<Longrightarrow> mapped (page_table_phys p) va k1"
  shows "space_ok k1 (p\<lparr>heap_break := b\<rparr>)"
proof -
  have "space_ok k (p\<lparr>heap_break := 0\<rparr>)" by (rule space_ok_heap [OF caller(7) [OF inv cur] cur(2)]) simp_all
  then have "space_ok k1 (p\<lparr>heap_break := 0\<rparr>)" using touch_own_space [of "p\<lparr>heap_break := 0\<rparr>" S k k1] tch S by simp
  from space_ok_heap [OF this, of b] show ?thesis using b h cur(2) touchesD(7) [OF tch] by (simp add: own_table_def)
qed

lemma brk_kinv:
  assumes inv: "kinv k" and cur: "cur_proc k = Some p" "own_table k p"
  shows "kinv (snd (sys_brk raw k))"
proof -
  note c = caller [OF inv cur]
  let ?t = "page_table_phys p" and ?old = "heap_break p" and ?new = "round_up_page (unat raw)"
  note al = round_up_aligned [of "unat raw"]
  have hb: "current_heap_break k = ?old" using cur(1) by (simp add: current_heap_break_def)
  have heap: "mapped ?t va k" if "va mod 4096 = 0" "DEFAULT_HEAP_BREAK \<le> va" "va < ?old" for va
    using c(7) cur(2) that by (simp add: space_ok_def)
  have rebreak: "kinv (set_heap_break ?new k1)"
    if tch: "touches ?t S k k1" and S: "\<And>va. va \<in> S \<Longrightarrow> low_page va"
      and h: "\<And>va. va mod 4096 = 0 \<Longrightarrow> DEFAULT_HEAP_BREAK \<le> va \<Longrightarrow> va < ?new \<Longrightarrow> mapped ?t va k1" for S k1
  proof -
    have "space_ok k1 (p\<lparr>heap_break := ?new\<rparr>)" by (rule space_ok_rebreak [OF inv cur tch S al h])
    from kinv_current [OF inv cur tch _ _ this] show ?thesis
      using upd_current [OF cur(1) touch_frame(1) [OF tch]] touch_frame(2) [OF tch] by (simp add: set_heap_break_def)
  qed
  consider "raw = 0 \<or> ?new = ?old" | "raw \<noteq> 0" "?old < ?new" | "raw \<noteq> 0" "?new < ?old" by linarith
  then show ?thesis
  proof cases
    case 1
    then show ?thesis using inv hb c(3,4) by (auto simp: sys_brk_def Let_def)
  next
    case 2
    let ?n = "(?new - ?old) div PAGE_SIZE"
    obtain ok k1 where g: "brk_grow ?t ?old (prot_to_l2_flags (PROT_READ OR PROT_WRITE)) [0..<?n] k = (ok, k1)" by fastforce
    have res: "snd (sys_brk raw k) = (if ok then set_heap_break ?new k1 else k1)"
      using 2 hb c(3,4) g by (simp add: sys_brk_def Let_def)
    obtain S where S: "touches ?t S k k1" "\<forall>va\<in>S. low_page va \<and> ?old \<le> va" "ok \<longrightarrow> (\<forall>j<?n. mapped ?t (?old + j * 4096) k1)"
      using brk_grow_touches [OF c(1,2,8,9) prot_attrs _ _ g] by auto
    have "kinv k1" by (rule kinv_touch [OF inv cur S(1)]) (use S(2) in force)+
    moreover have "kinv (set_heap_break ?new k1)" if ok
    proof (rule rebreak [OF S(1)])
      fix va assume va: "va mod 4096 = 0" "DEFAULT_HEAP_BREAK \<le> va" "va < ?new"
      show "mapped ?t va k1"
      proof (cases "va < ?old")
        case True
        then have "va \<notin> S" using S(2) by auto
        then show ?thesis using heap [OF va(1,2) True] touchesD(6) [OF S(1)] by simp
      next
        case False
        have "?old + ?n * 4096 = ?new" using page_steps [OF al c(8)] 2(2) by (simp add: PAGE_SIZE_val)
        then obtain j where "j < ?n" "va = ?old + j * 4096" using page_between [OF c(8) va(1), of ?n] False va(3) by auto
        then show ?thesis using S(3) that by simp
      qed
    qed (use S(2) in blast)
    ultimately show ?thesis unfolding res by simp
  next
    case 3
    let ?n = "(?old - ?new) div PAGE_SIZE"
    have len: "?new + ?n * 4096 = ?old" using page_steps [OF c(8) al] 3(2) by (simp add: PAGE_SIZE_val)
    have lr: "low_range ?new ?n" unfolding low_range_def len using al c(9) by (simp add: const_defs)
    note tch = release_touches [OF c(1,2) lr]
    have "kinv (set_heap_break ?new (release_pages ?t ?new ?n k))"
    proof (rule rebreak [OF tch])
      show "low_page va" if "va \<in> region ?new ?n" for va using that low_range_page(2) [OF lr] by (auto simp: region_def)
      fix va assume va: "va mod 4096 = 0" "DEFAULT_HEAP_BREAK \<le> va" "va < ?new"
      then have "va \<notin> region ?new ?n" using region_eq [OF lr] by simp
      then show "mapped ?t va (release_pages ?t ?new ?n k)" using heap [OF va(1,2)] va(3) 3(2) touchesD(6) [OF tch] by simp
    qed
    then show ?thesis using 3 hb c(3,4) by (simp add: sys_brk_def Let_def)
  qed
qed

section \<open>Steps that replace, add or remove a process\<close>

text \<open>The part of a control block the invariant speaks of.\<close>

definition memview :: "process \<Rightarrow> pid \<times> usize \<times> usize \<times> nat \<times> usize \<times> vm_mapping option list" where
  "memview p = (p_pid p, page_table_phys p, stack_base p, stack_pages p, heap_break p, mappings p)"

definition keeps :: "kernel \<Rightarrow> kernel \<Rightarrow> usize \<Rightarrow> bool" where
  "keeps k k' t \<longleftrightarrow> (user_table k t \<longrightarrow> user_table k' t) \<and> (\<forall>va. mapped t va k \<longrightarrow> mapped t va k')"

lemma space_ok_keeps:
  assumes "space_ok k p" "memview p' = memview p" "table_base (mmu k') = table_base (mmu k)"
    and "own_table k p \<Longrightarrow> keeps k k' (page_table_phys p)"
  shows "space_ok k' p'"
  using assms unfolding space_ok_def own_table_def memview_def keeps_def by auto

lemma kinv_step:
  assumes inv: "kinv k" and own: "kown {} k'" and len: "length (procs k') = MAX_PROCS" "current k' < MAX_PROCS"
    and base: "table_base (mmu k') = table_base (mmu k)"
    and procs: "\<And>i p'. i < MAX_PROCS \<Longrightarrow> procs k' ! i = Some p' \<Longrightarrow>
      (\<exists>p. procs k ! i = Some p \<and> memview p' = memview p \<and> (own_table k p \<longrightarrow> keeps k k' (page_table_phys p))) \<or>
      space_ok k' p' \<and> p_pid p' = i \<and> (own_table k p' \<longrightarrow> i = s \<and> \<not> live_l1 (mmu k) (page_table_phys p'))"
  shows "kinv k'"
proof -
  note d = kinvD [OF inv]
  have eq: "own_table k' p = own_table k p" for p using base by (simp add: own_table_def)
  have sp: "space_ok k' p'" if "i < MAX_PROCS" "procs k' ! i = Some p'" for i p'
    using procs [OF that] space_ok_keeps [OF d(4) [OF that(1)] _ base] by blast
  have old: "\<exists>q. procs k ! i = Some q \<and> page_table_phys q = page_table_phys p' \<and> live_l1 (mmu k) (page_table_phys p')"
    if h: "i < MAX_PROCS" "procs k' ! i = Some p'" "own_table k p'" "\<not> (i = s \<and> \<not> live_l1 (mmu k) (page_table_phys p'))" for i p'
  proof -
    obtain q where q: "procs k ! i = Some q" "memview p' = memview q" using procs [OF h(1,2)] h(3,4) by blast
    have "own_table k q" using h(3) q(2) by (simp add: own_table_def memview_def)
    then have "live_l1 (mmu k) (page_table_phys q)" using d(4) [OF h(1) q(1)] by (simp add: space_ok_def user_table_def)
    then show ?thesis using q by (simp add: memview_def)
  qed
  have "i = j" if h: "i < MAX_PROCS" "j < MAX_PROCS" "procs k' ! i = Some p" "procs k' ! j = Some q" "own_table k' p"
    "page_table_phys p = page_table_phys q" for i j p q
  proof (cases "live_l1 (mmu k) (page_table_phys p)")
    case True
    have o: "own_table k p" "own_table k q" using h(5,6) eq by (simp_all add: own_table_def)
    obtain p0 q0 where "procs k ! i = Some p0" "page_table_phys p0 = page_table_phys p" "procs k ! j = Some q0" "page_table_phys q0 = page_table_phys q"
      using old [OF h(1,3) o(1)] old [OF h(2,4) o(2)] True h(6) by auto
    then show ?thesis using d(5) [OF h(1,2), of p0 q0] o(1) h(6) by (simp add: own_table_def)
  next
    case False
    then show ?thesis using old [OF h(1,3)] old [OF h(2,4)] h(5,6) eq by (auto simp: own_table_def)
  qed
  moreover have "proc_wf k'"
    unfolding proc_wf_def
  proof (intro conjI allI impI len)
    fix i p' assume i: "i < MAX_PROCS" "procs k' ! i = Some p'"
    then show "p_pid p' = i" using procs [OF i] d(6) unfolding proc_wf_def memview_def by auto
  qed
  ultimately show ?thesis unfolding kinv_def using own sp by blast
qed

text \<open>Steps that leave tables and allocator alone.\<close>

definition same_memory :: "kernel \<Rightarrow> kernel \<Rightarrow> bool" where
  "same_memory k k' \<longleftrightarrow> (\<exists>t ram. mmu k' = (mmu k)\<lparr>ttbr0 := t\<rparr> \<and> pages k' = (pages k)\<lparr>phys_mem := ram\<rparr>) \<and>
     length (procs k') = length (procs k) \<and> current k' < MAX_PROCS \<and>
     (\<forall>i<MAX_PROCS. \<forall>p'. procs k' ! i = Some p' \<longrightarrow> (\<exists>p. procs k ! i = Some p \<and> memview p' = memview p))"

lemma owned_phys [simp]: "owned X m (ps\<lparr>phys_mem := ram\<rparr>) = owned X m ps"
  by (simp add: owned_def page_inv_def free_frames_def managed_frames_def)

lemma owned_ttbr [simp]: "owned X (m\<lparr>ttbr0 := t\<rparr>) ps = owned X m ps"
  using switch_spaces [where m = m and t = t] by (simp add: owned_def switch_addr_space_def)

lemma same_memory_kinv:
  assumes inv: "kinv k" and same: "same_memory k k'"
  shows "kinv k'"
proof -
  obtain t ram where k': "mmu k' = (mmu k)\<lparr>ttbr0 := t\<rparr>" "pages k' = (pages k)\<lparr>phys_mem := ram\<rparr>"
    using same by (auto simp: same_memory_def)
  have "keeps k k' t'" for t'
    using switch_spaces [where m = "mmu k" and t = t] by (simp add: keeps_def user_table_def mapped_def k' switch_addr_space_def)
  then show ?thesis
    using same kinvD [OF inv] k' by (intro kinv_step [OF inv]) (auto simp: same_memory_def table_base_def)
qed

section \<open>Exit\<close>

lemma close_fds_frame:
  "mmu (close_fds i k) = mmu k" "pages (close_fds i k) = pages k" "current (close_fds i k) = current k"
  "length (procs (close_fds i k)) = length (procs k)"
  "procs (close_fds i k) ! j = Some p' \<Longrightarrow> i < length (procs k) \<Longrightarrow> \<exists>p. procs k ! j = Some p \<and> memview p' = memview p"
  by (cases "j = i"; auto simp: close_fds_def upd_proc_def memview_def split: option.splits prod.splits)+

lemma space_ok_no_table: "page_table_phys p = 0 \<Longrightarrow> stack_pages p = 0 \<Longrightarrow> space_ok k p"
  by (simp add: space_ok_def own_table_def)

lemma exit_process_kinv:
  assumes inv: "kinv k" and cur: "cur_proc k = Some p"
  shows "kinv (exit_process status p k)"
proof -
  note d = kinvD [OF inv]
  let ?i = "current k" and ?t = "page_table_phys p"
  define q1 where "q1 = close_fds ?i (upd_proc ?i (\<lambda>x. x\<lparr>exit_status := status, p_state := Dead\<rparr>) k)"
  have k1: "mmu q1 = mmu k" "pages q1 = pages k" "current q1 = current k" "length (procs q1) = MAX_PROCS"
    using d(2) by (simp_all add: q1_def close_fds_frame upd_proc_def)
  have view: "\<exists>q. procs k ! j = Some q \<and> memview q' = memview q" if "procs q1 ! j = Some q'" for j q'
    using close_fds_frame(5) [OF that [unfolded q1_def]] d(2,3) by (cases "j = ?i") (auto simp: upd_proc_def memview_def)
  have inv1: "kinv q1"
    by (rule same_memory_kinv [OF inv], unfold same_memory_def, intro conjI exI [of _ "ttbr0 (mmu k)"] exI [of _ "phys_mem (pages k)"])
      (use k1 d view in auto)
  let ?clear = "\<lambda>x. x\<lparr>page_table_phys := 0, stack_pages := 0\<rparr>"
  have clear: "kinv (upd_proc ?i ?clear k2)"
    if own2: "kown {} k2" and k2: "procs k2 = procs q1" "current k2 = current k" "l1_base (mmu k2) = l1_base (mmu k)"
      and others: "\<And>t'. t' \<noteq> ?t \<Longrightarrow> keeps q1 k2 t'" and self: "\<not> own_table k p \<Longrightarrow> keeps q1 k2 ?t" for k2
  proof (rule kinv_step [OF inv1])
    show "kown {} (upd_proc ?i ?clear k2)" "length (procs (upd_proc ?i ?clear k2)) = MAX_PROCS" "current (upd_proc ?i ?clear k2) < MAX_PROCS"
      "table_base (mmu (upd_proc ?i ?clear k2)) = table_base (mmu q1)"
      using own2 k2 d(3) k1 by (simp_all add: upd_proc_def table_base_def)
    fix j q' assume j: "j < MAX_PROCS" "procs (upd_proc ?i ?clear k2) ! j = Some q'"
    show "(\<exists>q. procs q1 ! j = Some q \<and> memview q' = memview q \<and> (own_table q1 q \<longrightarrow> keeps q1 (upd_proc ?i ?clear k2) (page_table_phys q))) \<or>
        space_ok (upd_proc ?i ?clear k2) q' \<and> p_pid q' = j \<and> (own_table q1 q' \<longrightarrow> j = ?i \<and> \<not> live_l1 (mmu q1) (page_table_phys q'))"
    proof (cases "j = ?i")
      case True
      then show ?thesis
        using j(2) k2(1) k1(4) d(3) kinvD(6) [OF inv1] by (auto simp: upd_proc_def own_table_def proc_wf_def intro: space_ok_no_table)
    next
      case False
      then have q': "procs q1 ! j = Some q'" using j(2) k2(1) by (simp add: upd_proc_def)
      obtain q where q: "procs k ! j = Some q" "memview q' = memview q" using view [OF q'] by blast
      have "keeps q1 k2 (page_table_phys q')" if o: "own_table q1 q'"
      proof (cases "own_table k p")
        case True
        have "page_table_phys q' \<noteq> ?t"
          using d(5) [OF d(3) j(1) cur q(1) True] False q(2) by (auto simp: memview_def)
        then show ?thesis by (rule others)
      next
        case False
        then show ?thesis using others self by (cases "page_table_phys q' = ?t") auto
      qed
      then show ?thesis using q' by (auto simp: keeps_def user_table_def mapped_def upd_proc_def)
    qed
  qed
  show ?thesis
  proof (cases "own_table k p")
    case True
    have ut: "user_table k ?t" and sb: "stack_base p < USIZE_MOD"
      and st: "\<And>i. i < stack_pages p \<Longrightarrow> mapped ?t (page_at (stack_base p) i) k"
      using d(4) [OF d(3) cur] True by (auto simp: space_ok_def)
    have tt: "live_l1 (mmu q1) ?t" "?t \<noteq> l1_base (mmu q1)" using ut k1 by (simp_all add: user_table_def)
    have own1: "kown {} q1" using kinvD(1) [OF inv1] .
    obtain ps where ps: "free_user_pages ?t q1 = q1\<lparr>pages := ps\<rparr>" "owned ({?t} \<times> UNIV) (mmu q1) ps" "same_frames (pages q1) ps"
      by (rule free_user_pages_owned [OF own1 _ tt(1)]) auto
    note f = owned_free_space [OF ps(2) order_refl tt]
    let ?k2 = "q1\<lparr>pages := ps, mmu := snd (free_addr_space ?t (mmu q1))\<rparr>"
    have "kinv (upd_proc ?i ?clear ?k2)"
    proof (rule clear)
      show "keeps q1 ?k2 t'" if "t' \<noteq> ?t" for t'
        using f(2-4) ps(3) that by (auto simp: keeps_def user_table_def mapped_def same_frames_def)
    qed (use f k1 True in simp_all)
    moreover have "exit_process status p k = upd_proc ?i ?clear ?k2"
    proof (cases "stack_pages p = 0")
      case sp: True
      then show ?thesis using True ps(1) k1 by (simp add: exit_process_def q1_def [symmetric] Let_def own_table_def)
    next
      case False
      have "page_at (stack_base p) 0 = stack_base p" using sb by (intro page_at_exact [of _ 0, simplified])
      then have "mapped ?t (stack_base p) k" using st [of 0] False by simp
      then obtain e where "read_l2_entry ?t (stack_base p) (mmu k) = Some e" "l2_entry_is_user e"
        by (auto simp: mapped_def umaps_iff uframe_def pte_def split: option.splits if_splits)
      then show ?thesis using True ps(1) k1 by (simp add: exit_process_def q1_def [symmetric] Let_def own_table_def)
    qed
    ultimately show ?thesis by simp
  next
    case False
    then have sp: "stack_pages p = 0" using d(4) [OF d(3) cur] by (simp add: space_ok_def)
    have "kinv (upd_proc ?i ?clear q1)"
      by (rule clear) (use kinvD(1) [OF inv1] k1 in \<open>simp_all add: keeps_def\<close>)
    moreover have "exit_process status p k = upd_proc ?i ?clear q1"
      using False sp by (auto simp: exit_process_def q1_def [symmetric] Let_def own_table_def k1)
    ultimately show ?thesis by simp
  qed
qed

section \<open>Operations that leave memory alone\<close>

lemma same_memory_refl: "current k < MAX_PROCS \<Longrightarrow> same_memory k k"
  unfolding same_memory_def by (intro conjI exI [of _ "ttbr0 (mmu k)"] exI [of _ "phys_mem (pages k)"]) auto

lemma same_memory_trans [trans]: "same_memory k k' \<Longrightarrow> same_memory k' k'' \<Longrightarrow> same_memory k k''"
  unfolding same_memory_def by auto metis

lemma same_memory_cong:
  assumes "current k' < MAX_PROCS" "mmu k' = mmu k" "pages k' = pages k" "procs k' = procs k"
  shows "same_memory k k'"
  unfolding same_memory_def using assms by (intro conjI exI [of _ "ttbr0 (mmu k)"] exI [of _ "phys_mem (pages k)"]) auto

lemma same_memory_procs:
  assumes "current k' < MAX_PROCS" "mmu k' = mmu k" "pages k' = pages k" "length (procs k') = length (procs k)"
    and "\<And>i p'. i < MAX_PROCS \<Longrightarrow> procs k' ! i = Some p' \<Longrightarrow> \<exists>p. procs k ! i = Some p \<and> memview p' = memview p"
  shows "same_memory k k'"
  unfolding same_memory_def using assms by (intro conjI exI [of _ "ttbr0 (mmu k)"] exI [of _ "phys_mem (pages k)"]) auto

lemma same_memory_upd:
  assumes "proc_wf k" "\<And>p. memview (f p) = memview p"
  shows "same_memory k (upd_proc i f k)"
  using assms by (intro same_memory_procs) (auto simp: proc_wf_def upd_proc_nth split: if_splits)

lemma same_memory_wf:
  assumes "proc_wf k" "same_memory k k'"
  shows "proc_wf k'"
  using assms unfolding proc_wf_def same_memory_def memview_def by fastforce

lemma same_memory_switch: "current k < MAX_PROCS \<Longrightarrow> same_memory k (k\<lparr>mmu := switch_addr_space t (mmu k)\<rparr>)"
  unfolding same_memory_def switch_addr_space_def
  by (intro conjI exI [of _ t] exI [of _ "phys_mem (pages k)"]) auto

lemma wake_sleepers_memory: "proc_wf k \<Longrightarrow> same_memory k (wake_sleepers k)"
  by (intro same_memory_procs) (auto simp: proc_wf_def wake_sleepers_nth memview_def, simp_all add: wake_sleepers_def)

lemma switch_to_memory:
  assumes wf: "proc_wf k" and n: "n < MAX_PROCS"
  shows "same_memory k (switch_to n k)"
proof (cases "current k = n")
  case True
  then show ?thesis using wf by (simp add: switch_to_def same_memory_refl proc_wf_def)
next
  case False
  let ?f = "\<lambda>p. let p = (case active_frame k of None \<Rightarrow> p | Some f \<Rightarrow> p\<lparr>p_ctx := f\<rparr>) in if p_state p = Running then p\<lparr>p_state := Ready\<rparr> else p"
  define k1 where "k1 = upd_proc (current k) ?f k"
  have k1: "same_memory k k1"
    unfolding k1_def by (rule same_memory_upd [OF wf]) (auto simp: memview_def Let_def split: option.splits)
  note wf1 = same_memory_wf [OF wf k1]
  show ?thesis
  proof (cases "procs k1 ! n")
    case None
    then have "switch_to n k = k1" using False unfolding switch_to_def k1_def Let_def by simp
    then show ?thesis using k1 by simp
  next
    case (Some q)
    define k2 where "k2 = (upd_proc n (\<lambda>p. p\<lparr>p_state := Running\<rparr>) k1)\<lparr>current := n\<rparr>"
    have a: "same_memory k1 (upd_proc n (\<lambda>p. p\<lparr>p_state := Running\<rparr>) k1)" by (rule same_memory_upd [OF wf1]) (simp add: memview_def)
    have b: "same_memory (upd_proc n (\<lambda>p. p\<lparr>p_state := Running\<rparr>) k1) k2" by (rule same_memory_cong) (simp_all add: k2_def n)
    define k3 where "k3 = (if page_table_phys q \<noteq> 0 then k2\<lparr>mmu := switch_addr_space (page_table_phys q) (mmu k2)\<rparr> else k2)"
    have cur2: "current k2 < MAX_PROCS" using n by (simp add: k2_def)
    have c: "same_memory k2 k3" using same_memory_switch [OF cur2] same_memory_refl [OF cur2] by (simp add: k3_def)
    have cur3: "current k3 < MAX_PROCS" using cur2 by (simp add: k3_def)
    define k4 where "k4 = (case active_frame k of None \<Rightarrow> k3 | Some f \<Rightarrow> k3\<lparr>active_frame := Some (p_ctx q), frame_switched := True\<rparr>)"
    have e: "same_memory k3 k4" by (rule same_memory_cong) (use cur3 in \<open>simp_all add: k4_def split: option.splits\<close>)
    have "switch_to n k = k4"
      using False Some unfolding switch_to_def k4_def k3_def k2_def k1_def Let_def by simp
    then show ?thesis using k1 a b c e same_memory_trans by metis
  qed
qed

lemma schedule_less: "proc_wf k \<Longrightarrow> fst (schedule k) < MAX_PROCS"
  by (rule schedule_choice [of k]) (auto simp: proc_wf_def const_defs)

lemma reschedule_memory:
  assumes "proc_wf k"
  shows "same_memory k (switch_to (fst (schedule k)) (wake_sleepers k))"
    "same_memory k (switch_to (fst (schedule k)) (set_trap_return v (wake_sleepers k)))"
proof -
  note w = wake_sleepers_memory [OF assms] and n = schedule_less [OF assms]
  note wf = same_memory_wf [OF assms w]
  show "same_memory k (switch_to (fst (schedule k)) (wake_sleepers k))"
    by (rule same_memory_trans [OF w switch_to_memory [OF wf n]])
  have t: "same_memory (wake_sleepers k) (set_trap_return v (wake_sleepers k))"
    by (rule same_memory_cong) (use assms in \<open>simp_all add: set_trap_return_def proc_wf_def\<close>)
  show "same_memory k (switch_to (fst (schedule k)) (set_trap_return v (wake_sleepers k)))"
    by (rule same_memory_trans [OF same_memory_trans [OF w t] switch_to_memory [OF same_memory_wf [OF wf t] n]])
qed

lemma yield_memory: "proc_wf k \<Longrightarrow> same_memory k (yield_to_next k)"
  using reschedule_memory(2) wake_sleepers_memory
  by (simp add: yield_to_next_def case_prod_beta current_pid_def)

lemma tick_memory:
  assumes "proc_wf k"
  shows "same_memory k (timer_tick k)"
proof -
  have a: "same_memory k (k\<lparr>ticks := ticks k + 1\<rparr>)" by (rule same_memory_cong) (use assms in \<open>simp_all add: proc_wf_def\<close>)
  note wf = same_memory_wf [OF assms a]
  show ?thesis
    using a same_memory_trans [OF a reschedule_memory(1) [OF wf]] same_memory_trans [OF a wake_sleepers_memory [OF wf]]
    by (simp add: timer_tick_def Let_def case_prod_beta current_pid_def)
qed

lemma sleep_memory:
  assumes "proc_wf k"
  shows "same_memory k (snd (sys_sleep ms k))"
proof -
  define wt :: u64 where "wt = of_nat (min (unat (ticks k) + (unat ms + 9) div 10) (2 ^ 64 - 1))"
  define k1 where "k1 = set_wake_tick wt k"
  have a: "same_memory k k1"
    unfolding k1_def set_wake_tick_def by (rule same_memory_upd [OF assms]) (simp add: memview_def)
  note wf = same_memory_wf [OF assms a]
  note w = wake_sleepers_memory [OF wf]
  have c: "same_memory (wake_sleepers k1) (clear_wake_tick (wake_sleepers k1))"
    unfolding clear_wake_tick_def by (rule same_memory_upd [OF same_memory_wf [OF wf w]]) (simp add: memview_def)
  have "snd (sys_sleep ms k) = (if fst (schedule k1) = current k1 then clear_wake_tick (wake_sleepers k1)
      else switch_to (fst (schedule k1)) (set_trap_return 0 (wake_sleepers k1)))"
    unfolding sys_sleep_def Let_def wt_def [symmetric] k1_def [symmetric] by (simp add: case_prod_beta current_pid_def)
  then show ?thesis
    using same_memory_trans [OF a reschedule_memory(2) [OF wf]] same_memory_trans [OF a same_memory_trans [OF w c]] by simp
qed

lemma set_state_memory: "proc_wf k \<Longrightarrow> same_memory k (set_state p st k)"
  using same_memory_upd [of k "\<lambda>x. x\<lparr>p_state := st\<rparr>" p] same_memory_refl [of k]
  by (auto simp: set_state_def memview_def proc_wf_def)

lemma wake_loop_memory:
  "proc_wf k \<Longrightarrow> same_memory k (snd (snd (wake_loop (\<lambda>p. set_state p Ready) addr space max_wake woken ws k)))"
proof (induction ws arbitrary: woken k)
  case Nil
  then show ?case by (simp add: same_memory_refl proc_wf_def)
next
  case (Cons slot ws)
  note s = set_state_memory [OF Cons.prems, of "fw_pid (the slot)" Ready]
  have "same_memory k (snd (snd (wake_loop (\<lambda>p. set_state p Ready) addr space max_wake n ws (set_state (fw_pid (the slot)) Ready k))))" for n
    by (rule same_memory_trans [OF s Cons.IH [OF same_memory_wf [OF Cons.prems s]]])
  then show ?case
    using Cons.IH [OF Cons.prems] same_memory_refl [of k] Cons.prems by (auto simp: case_prod_beta Let_def proc_wf_def)
qed

lemma futex_memory:
  assumes wf: "proc_wf k"
  shows "same_memory k (snd (sys_futex addr op val k))"
proof -
  have same: "same_memory k k" using wf by (simp add: same_memory_refl proc_wf_def)
  have "same_memory k (snd (sys_futex_wait addr val k))"
  proof -
    have y: "same_memory k (yield_to_next (set_state (current k) Blocked (k\<lparr>futex_waiters := ws\<rparr>)))" for ws
    proof -
      have a: "same_memory k (k\<lparr>futex_waiters := ws\<rparr>)" by (rule same_memory_cong) (use wf in \<open>simp_all add: proc_wf_def\<close>)
      note b = set_state_memory [OF same_memory_wf [OF wf a], of "current k" Blocked]
      note ab = same_memory_trans [OF a b]
      show ?thesis by (rule same_memory_trans [OF ab yield_memory [OF same_memory_wf [OF wf ab]]])
    qed
    then show ?thesis using same by (auto simp: sys_futex_wait_def Let_def current_pid_def split: sum.splits option.splits)
  qed
  moreover have "same_memory k (snd (sys_futex_wake addr val k))"
  proof (cases "addr = 0")
    case True
    then show ?thesis using same by (simp add: sys_futex_wake_def)
  next
    case False
    let ?r = "wake_waiters_for_address_space (\<lambda>p. set_state p Ready) addr val (current_page_table k) (futex_waiters k) k"
    have a: "same_memory k (snd (snd ?r))"
      using wake_loop_memory [OF wf] by (auto simp: wake_waiters_for_address_space_def split: if_splits)
    have b: "same_memory (snd (snd ?r)) ((snd (snd ?r))\<lparr>futex_waiters := fst (snd ?r)\<rparr>)"
      by (rule same_memory_cong) (use same_memory_wf [OF wf a] in \<open>simp_all add: proc_wf_def\<close>)
    show ?thesis using False same_memory_trans [OF a b] by (simp add: sys_futex_wake_def Let_def case_prod_beta)
  qed
  ultimately show ?thesis using same by (simp add: sys_futex_def)
qed

lemma exec_memory: "proc_wf k \<Longrightarrow> same_memory k (exec op k)"
  by (cases op) (simp_all add: tick_memory yield_memory sleep_memory futex_memory sys_yield_def)

lemma close_fds_memory:
  assumes "proc_wf k" "i < MAX_PROCS"
  shows "same_memory k (close_fds i k)"
  by (rule same_memory_procs) (use assms close_fds_frame [of i k] in \<open>auto simp: proc_wf_def\<close>)

text \<open>Both ways a process is marked dead: the state, then its descriptors, then tables beside the process table.\<close>

lemma mark_dead_memory:
  assumes wf: "proc_wf k" and i: "i < MAX_PROCS"
  shows "same_memory k (close_fds i (upd_proc i (\<lambda>x. x\<lparr>p_state := Dead\<rparr>) k))"
proof -
  have a: "same_memory k (upd_proc i (\<lambda>x. x\<lparr>p_state := Dead\<rparr>) k)" by (rule same_memory_upd [OF wf]) (simp add: memview_def)
  show ?thesis by (rule same_memory_trans [OF a close_fds_memory [OF same_memory_wf [OF wf a] i]])
qed

lemma tables_memory:
  assumes "proc_wf k" "same_memory k k1" "current k' = current k1" "mmu k' = mmu k1" "pages k' = pages k1" "procs k' = procs k1"
  shows "same_memory k k'"
  by (rule same_memory_trans [OF assms(2) same_memory_cong]) (use assms same_memory_wf [OF assms(1,2)] in \<open>simp_all add: proc_wf_def\<close>)

lemma terminate_memory: "proc_wf k \<Longrightarrow> p < MAX_PROCS \<Longrightarrow> same_memory k (terminate_process p k)"
  by (rule tables_memory [OF _ mark_dead_memory [of k p]]) (simp_all add: terminate_process_def Let_def)

lemma notify_memory: "proc_wf k \<Longrightarrow> p < MAX_PROCS \<Longrightarrow> same_memory k (notify_fault p kind k)"
  by (rule tables_memory [OF _ mark_dead_memory [of k p]]) (simp_all add: notify_fault_def Let_def case_prod_beta)

lemma kill_memory:
  assumes wf: "proc_wf k"
  shows "same_memory k (snd (sys_kill p signum k))"
proof (cases rule: sys_kill_cases [OF prod.collapse [symmetric], of p signum k])
  case 1
  then show ?thesis using same_memory_refl wf by (simp add: proc_wf_def)
next
  case (2 sig)
  from 2(5) show ?thesis
  proof (cases rule: deliver_signal_cases)
    case (pending x)
    then show ?thesis by (simp add: same_memory_upd [OF wf] memview_def)
  next
    case (killed x)
    then show ?thesis using terminate_memory [OF wf] by (simp add: const_defs)
  qed (use same_memory_refl wf in \<open>simp_all add: proc_wf_def\<close>)
qed

lemma sigaction_memory: "proc_wf k \<Longrightarrow> same_memory k (snd (sys_sigaction signum h k))"
  using same_memory_refl [of k] same_memory_upd [of k]
  by (auto simp: sys_sigaction_def set_signal_action_def proc_wf_def memview_def split: option.splits)

lemma waitpid_memory: "proc_wf k \<Longrightarrow> same_memory k (snd (waitpid c k))"
  by (rule same_memory_procs) (auto simp: waitpid_def proc_wf_def nth_list_update split: option.splits if_splits)

lemma sys_waitpid_memory: "proc_wf k \<Longrightarrow> same_memory k (snd (sys_waitpid c k))"
  using waitpid_memory [of k "unat c"] same_memory_refl [of k]
  by (auto simp: sys_waitpid_def proc_wf_def split: prod.splits option.splits)

lemma send_recv_memory:
  assumes "proc_wf k"
  shows "same_memory k (snd (sys_send a tag ptr len k))" "same_memory k (snd (sys_recv k))"
  by (rule same_memory_cong; use assms in \<open>auto simp: sys_send_def sys_recv_def proc_wf_def
    split: option.splits sum.splits prod.splits if_splits ipc_send_error.splits\<close>)+

lemma user_write_memory: "proc_wf k \<Longrightarrow> same_memory k (snd (user_write dst src k))"
  unfolding same_memory_def user_write_def
  by (auto simp: case_prod_beta proc_wf_def intro!: exI [of _ "ttbr0 (mmu k)"])

lemma deliver_memory:
  assumes wf: "proc_wf k"
  shows "same_memory k (snd (deliver frame sig h k))"
proof -
  have w: "same_memory k (snd (user_write a b k))" for a b by (rule user_write_memory [OF wf])
  have "same_memory k (clear_pending_for_current sig (snd (user_write a b k)))" for a b
    unfolding clear_pending_for_current_def
    by (rule same_memory_trans [OF w same_memory_upd [OF same_memory_wf [OF wf w]]]) (simp add: memview_def)
  then show ?thesis using same_memory_refl [of k] w wf
    by (fastforce simp: deliver_def proc_wf_def split: option.splits prod.splits sum.splits dest: arg_cong [where f = snd])
qed

lemma exit_cleanup_kinv:
  assumes inv: "kinv k"
  shows "kinv (exit_cleanup status k)"
proof -
  define k1 where "k1 = k\<lparr>supervision := clear_pid (current_pid k) (supervision k), mmu := switch_addr_space (table_base (mmu k)) (mmu k)\<rparr>"
  note d = kinvD [OF inv]
  have inv1: "kinv k1"
  proof (rule same_memory_kinv [OF inv tables_memory [OF d(6)]])
    show "same_memory k (k\<lparr>mmu := switch_addr_space (table_base (mmu k)) (mmu k)\<rparr>)" by (rule same_memory_switch [OF d(3)])
  qed (simp_all add: k1_def)
  define k2 where "k2 = (case cur_proc k1 of None \<Rightarrow> k1 | Some p \<Rightarrow> exit_process status p k1)"
  have inv2: "kinv k2" using inv1 exit_process_kinv [OF inv1] by (simp add: k2_def split: option.splits)
  have "exit_cleanup status k = k2\<lparr>futex_waiters := free_waiters_for_pid (current k2) (futex_waiters k2),
          inboxes := clear_inbox (current k2) (inboxes k2)\<rparr>"
    by (cases "cur_proc k") (simp_all add: exit_cleanup_def Let_def k2_def k1_def)
  moreover have "same_memory k2 \<dots>" by (rule same_memory_cong) (use kinvD(3) [OF inv2] in simp_all)
  ultimately show ?thesis using same_memory_kinv [OF inv2] by simp
qed

lemma exit_current_kinv:
  assumes inv: "kinv k" and e: "exit_current status k = Some (r, k')"
  shows "kinv k'"
proof -
  note i = exit_cleanup_kinv [OF inv, of status]
  have "same_memory (exit_cleanup status k) k'"
    using e reschedule_memory(1) [OF kinvD(6) [OF i]] by (auto simp: exit_current_def case_prod_beta Let_def split: if_splits)
  then show ?thesis by (rule same_memory_kinv [OF i])
qed

lemma fault_exit_kinv:
  assumes inv: "kinv k" and e: "fault_exit_current kind k = Some k'"
  shows "kinv k'"
proof -
  have "kinv (notify_fault (current_pid k) kind k)"
    using same_memory_kinv [OF inv notify_memory [OF kinvD(6,3) [OF inv]]] by (simp add: current_pid_def)
  then show ?thesis using e exit_current_kinv by (auto simp: fault_exit_current_def)
qed

section \<open>Fork\<close>

lemma agree_confined:
  assumes "mmu_inv m" "live_l1 m t" "live_l1 m t'" "t \<noteq> t'" "confined t m m'"
  shows "agree t' m m'"
  unfolding agree_def using confined_words [OF assms] by blast

lemma grant_agree:
  assumes ok: "tables_ok m" and t: "live_l1 m t" "t \<noteq> l1_base m" "live_l1 m t'" "t \<noteq> t'" and va: "user_window va"
    and g: "grant_page t va f at m = (r, m')"
  shows "agree t' m m'"
proof -
  obtain r1 m1 where sh: "shatter_section t va m = (r1, m1)" by fastforce
  have inv: "mmu_inv m" using ok by (simp add: tables_ok_def)
  have c1: "confined t m m1" "mmu_inv m1" "addr_space_alloc m1 = addr_space_alloc m"
    using mm_step_confined [OF inv t(1,2), of "MShatter va"] va sh by simp_all
  note l = confined_live [OF c1(1,3)]
  have a: "agree t' m m1" by (rule agree_confined [OF inv t(1,3,4) c1(1)])
  show ?thesis
  proof (cases r1)
    case True
    have "confined t m1 m'" using mm_step_confined(1) [OF c1(2), of t "MMap va f at"] t va l g sh True by (simp add: grant_page_def)
    then have "agree t' m1 m'" using agree_confined [OF c1(2)] t l by simp
    then show ?thesis by (rule agree_trans [OF a])
  next
    case False
    then show ?thesis using a g sh by (simp add: grant_page_def)
  qed
qed

lemma fork_copy_page_touches:
  assumes own: "kown {} k" and c: "user_table k c" and p: "live_l1 (mmu k) pt" "c \<noteq> pt" and va: "vpage va" "user_window va"
    and at: "page_attrs at" "l2_entry_is_user at" and run: "fork_copy_page c va ph at k = (r, k')"
  shows "touches c {va} k k'" "agree pt (mmu k) (mmu k')" "r \<Longrightarrow> mapped c va k'" "mapped c va' k \<Longrightarrow> mapped c va' k'"
proof -
  have tt: "live_l1 (mmu k) c" "c \<noteq> l1_base (mmu k)" using c by (simp_all add: user_table_def)
  obtain a ps where al: "alloc_page (pages k) = (a, ps)" by fastforce
  have *: "touches c {va} k k' \<and> agree pt (mmu k) (mmu k') \<and> (r \<longrightarrow> mapped c va k') \<and> (mapped c va' k \<longrightarrow> mapped c va' k')"
  proof (cases "RAM_START \<le> ph \<and> ph < RAM_END")
    case False
    then show ?thesis using run own touches_refl agree_refl by (auto simp: fork_copy_page_def)
  next
    case in_ram: True
    show ?thesis
    proof (cases a)
      case None
      then show ?thesis
        using run al in_ram alloc_touches(1) [OF own al] touchesD(8) [OF alloc_touches(1) [OF own al, of c "{va}"]] agree_refl
        by (auto simp: fork_copy_page_def mapped_def)
    next
      case (Some f)
      obtain ok m where g: "grant_page c va f at (mmu k) = (ok, m)" by fastforce
      note q = alloc_place_touches [OF own c va al [unfolded Some] at disjI2 [OF g]]
      let ?ram = "copy_page ph f (phys_mem ps)"
      let ?k = "k\<lparr>pages := ps\<lparr>phys_mem := ?ram\<rparr>, mmu := m\<rparr>"
      have t1: "touches c {va} k ?k"
        using q(1) unfolding touches_def by (simp add: managed_frames_def)
      have ag: "agree pt (mmu k) m" by (rule grant_agree [OF ownedD(1) [OF own] tt p va(2) g])
      show ?thesis
      proof (cases ok)
        case True
        then have "k' = ?k" "r" using run al Some g in_ram by (auto simp: fork_copy_page_def Let_def)
        moreover have "mapped c va ?k" using q(2) True by (simp add: mapped_def)
        moreover have "mapped c va' k \<longrightarrow> mapped c va' ?k" using calculation(3) touchesD(6) [OF t1, of va'] by (cases "va' = va") auto
        ultimately show ?thesis using t1 ag by simp
      next
        case False
        let ?k2 = "?k\<lparr>pages := free_page f (pages ?k)\<rparr>"
        have "touches c {} ?k ?k2" by (rule free_touches [OF touchesD(2) [OF t1]]) (use q(3,5) False in simp_all)
        from touches_trans [OF t1 this order_refl] have t2: "touches c {va} k ?k2" by simp
        moreover have "k' = ?k2" "\<not> r" using run al Some g False in_ram by (auto simp: fork_copy_page_def Let_def)
        moreover have "umaps m = umaps (mmu k)" using q(4) False by simp
        ultimately show ?thesis using ag touchesD(8) [OF t2] by (simp add: mapped_def)
      qed
    qed
  qed
  then show "touches c {va} k k'" "agree pt (mmu k) (mmu k')" "r \<Longrightarrow> mapped c va k'" "mapped c va' k \<Longrightarrow> mapped c va' k'" by blast+
qed

text \<open>The copy under the kernel table. When it fails, the pages copied so far are given back and only
  the new table still refers to them.\<close>

lemma fork_copy_phase_owned:
  assumes own: "kown {} k" and c: "user_table k c" and p: "live_l1 (mmu k) pt" "c \<noteq> pt"
    and run: "fork_copy_phase pt c k = (ok, k')"
  shows "k' = k\<lparr>mmu := mmu k', pages := pages k'\<rparr>" "same_spaces (mmu k) (mmu k')"
    "owned (if ok then {} else {c} \<times> UNIV) (mmu k') (pages k')"
    "\<And>t va f. t \<noteq> c \<Longrightarrow> (t, va, f) \<in> umaps (mmu k') \<longleftrightarrow> (t, va, f) \<in> umaps (mmu k)"
    "ok \<Longrightarrow> mapped pt va k \<Longrightarrow> mapped c va k'" "managed_frames (pages k') = managed_frames (pages k)"
proof -
  let ?k0 = "k\<lparr>mmu := switch_addr_space (table_base (mmu k)) (mmu k)\<rparr>"
  let ?f = "fork_copy_page c" and ?xs = "user_pages (mmu ?k0) pt"
  define I where "I s \<longleftrightarrow> touches c UNIV ?k0 s \<and> agree pt (mmu ?k0) (mmu s)" for s
  have t0: "touches c {} k ?k0" by (rule touches_switch [OF own])
  have I0: "I ?k0" using touches_refl [OF touchesD(2) [OF t0]] by (simp add: I_def agree_refl)
  have step: "I s' \<and> (\<forall>v. mapped c v s \<longrightarrow> mapped c v s') \<and> (r \<longrightarrow> mapped c va s')"
    if h: "(va, ph, at) \<in> set ?xs" "I s" "?f va ph at s = (r, s')" for va ph at s s' r
  proof -
    obtain e where e: "vpage va" "pte (mmu ?k0) pt va = Some e" "l2_entry_is_user e" "ph = frame_of e" "at = e AND 0xFFF"
      using h(1) by (auto simp: user_pages_iff)
    have "(pt, va, ph) \<in> umaps (mmu ?k0)" using e p(1) by (simp add: umaps_iff uframe_def)
    then have w: "user_window va" using ownedD(5) [OF touchesD(2) [OF t0]] by blast
    have s: "touches c UNIV ?k0 s" "agree pt (mmu ?k0) (mmu s)" using h(2) by (simp_all add: I_def)
    have l: "user_table s c" "live_l1 (mmu s) pt"
      using touchesD(3,5) [OF s(1)] c p(1) by (simp_all add: same_spaces_def)
    note f = fork_copy_page_touches [OF touchesD(2) [OF s(1)] l p(2) e(1) w entry_attrs [OF e(3), folded e(5)] h(3)]
    have "touches c UNIV ?k0 s'" by (rule touches_trans [OF s(1) f(1)]) simp
    then show ?thesis using agree_trans [OF s(2) f(2)] f(3,4) by (simp add: I_def)
  qed
  obtain r k1 where u: "until ?f ?xs ?k0 = (r, k1)" by fastforce
  have walk: "for_each_user_page mmu ?f pt ?k0 = (r, k1)"
    unfolding u [symmetric]
  proof (rule for_each_until [where I = I, OF I0])
    show "agree pt (mmu ?k0) (mmu s)" if "I s" for s using that by (simp add: I_def)
  qed (use step in blast)
  have "I k1" by (rule until_invariant [where I = I, OF I0 _ u]) (use step in blast)
  then have t1: "touches c UNIV ?k0 k1" by (simp add: I_def)
  have t: "touches c UNIV k k1" by (rule touches_trans [OF t0 t1]) simp
  obtain x y where k1: "k1 = k\<lparr>mmu := x, pages := y\<rparr>" using touchesD(1) [OF t] by blast
  define k2 where "k2 = (if r then k1 else free_user_pages c k1)"
  have res: "ok = r" "k' = k2\<lparr>mmu := switch_addr_space pt (mmu k2)\<rparr>"
    using run walk by (auto simp: fork_copy_phase_def Let_def k2_def)
  have live1: "live_l1 (mmu k1) c" using touchesD(3) [OF t] c by (simp add: user_table_def same_spaces_def)
  have k2: "mmu k2 = mmu k1 \<and> owned (if ok then {} else {c} \<times> UNIV) (mmu k1) (pages k2) \<and> (\<exists>z. k2 = k1\<lparr>pages := z\<rparr>) \<and>
      managed_frames (pages k2) = managed_frames (pages k1)"
  proof (cases r)
    case True
    then show ?thesis using touchesD(2) [OF t] res by (auto simp: k2_def intro: exI [of _ "pages k1"])
  next
    case False
    obtain ps where "free_user_pages c k1 = k1\<lparr>pages := ps\<rparr>" "owned ({c} \<times> UNIV) (mmu k1) ps" "same_frames (pages k1) ps"
      by (rule free_user_pages_owned [OF touchesD(2) [OF t] _ live1]) auto
    then show ?thesis using False res by (auto simp: k2_def same_frames_def)
  qed
  then obtain z where z: "k2 = k1\<lparr>pages := z\<rparr>" by blast
  show "k' = k\<lparr>mmu := mmu k', pages := pages k'\<rparr>" unfolding res(2) z unfolding k1 by simp
  show "same_spaces (mmu k) (mmu k')" using touchesD(3) [OF t] k2 by (simp add: res(2) same_spaces_def)
  show "managed_frames (pages k') = managed_frames (pages k)" using k2 touchesD(8) [OF t] by (simp add: res(2))
  show "owned (if ok then {} else {c} \<times> UNIV) (mmu k') (pages k')"
    using k2 by (simp add: res(2) switch_addr_space_def)
  show "(t, va, f) \<in> umaps (mmu k') \<longleftrightarrow> (t, va, f) \<in> umaps (mmu k)" if "t \<noteq> c" for t va f
    using touchesD(4) [OF t, of _ va f] that k2 by (simp add: res(2))
  show "mapped c va k'" if okd: "ok" and mp: "mapped pt va k"
  proof -
    obtain f at where "(va, f, at) \<in> set ?xs"
      using mp umaps_user_pages [of pt va _ "mmu ?k0"] by (auto simp: mapped_def)
    moreover have done_all: "until ?f ?xs ?k0 = (True, k1)" using u okd res(1) by simp
    have "(\<forall>v. mapped c v ?k0 \<longrightarrow> mapped c v k1) \<and> (\<forall>(va, ph, at) \<in> set ?xs. mapped c va k1)"
      by (rule until_all [where I = I and Q = "mapped c", OF I0 _ done_all]) (rule step)
    ultimately have "mapped c va k1" by blast
    then show ?thesis using k2 by (simp add: res(2) mapped_def)
  qed
qed

lemma live_not_null: "owned X m ps \<Longrightarrow> live_l1 m t \<Longrightarrow> t \<noteq> 0"
  using ownedD(1) [of X m ps] mmu_invD(1) [of m] by (auto simp: tables_ok_def live_l1_def layout_ok_def user_table_addr_def)

text \<open>A creation that failed leaves the processes and their mappings as they were; one that succeeded
  also fills a slot with a process on a table that was not live before.\<close>

definition memory_kept :: "kernel \<Rightarrow> kernel \<Rightarrow> bool" where
  "memory_kept k k' \<longleftrightarrow> kown {} k' \<and> current k' = current k \<and> l1_base (mmu k') = l1_base (mmu k) \<and>
     (\<forall>t. live_l1 (mmu k) t \<longrightarrow> live_l1 (mmu k') t) \<and> umaps (mmu k) \<subseteq> umaps (mmu k') \<and>
     managed_frames (pages k') = managed_frames (pages k)"

lemma memory_kept_keeps:
  assumes "memory_kept k k'"
  shows "keeps k k' t" "table_base (mmu k') = table_base (mmu k)"
  using assms by (auto simp: memory_kept_def keeps_def user_table_def mapped_def table_base_def)

lemma kinv_restored:
  assumes inv: "kinv k" and kept: "memory_kept k k'" and procs: "procs k' = procs k"
  shows "kinv k'"
  by (rule kinv_step [OF inv])
    (use kinvD [OF inv] memory_kept_keeps [OF kept] procs kept in \<open>auto simp: memory_kept_def\<close>)

lemma kinv_install:
  assumes inv: "kinv k" and kept: "memory_kept k k'" and procs: "procs k' = (procs k)[slot := Some p]" and slot: "slot < MAX_PROCS"
    and p: "space_ok k' p" "p_pid p = slot" "\<not> live_l1 (mmu k) (page_table_phys p)"
  shows "kinv k'"
proof (rule kinv_step [OF inv])
  note d = kinvD [OF inv]
  show "kown {} k'" "length (procs k') = MAX_PROCS" "current k' < MAX_PROCS" "table_base (mmu k') = table_base (mmu k)"
    using kept procs d(2,3) memory_kept_keeps(2) [OF kept] by (simp_all add: memory_kept_def)
  fix i q assume i: "i < MAX_PROCS" "procs k' ! i = Some q"
  show "(\<exists>p. procs k ! i = Some p \<and> memview q = memview p \<and> (own_table k p \<longrightarrow> keeps k k' (page_table_phys p))) \<or>
    space_ok k' q \<and> p_pid q = i \<and> (own_table k q \<longrightarrow> i = slot \<and> \<not> live_l1 (mmu k) (page_table_phys q))"
    using i procs d(2) p memory_kept_keeps(1) [OF kept] by (cases "i = slot") auto
qed

lemma fork_pl0_kinv:
  assumes inv: "kinv k" and slot: "procs k ! slot = None" "slot < MAX_PROCS" and cur: "cur_proc k = Some p"
    and run: "fork_pl0 slot p ctx k = (r, k')"
  shows "kinv k'"
proof -
  note d = kinvD [OF inv]
  let ?p = "page_table_phys p"
  show ?thesis
  proof (cases "own_table k p")
    case False
    then show ?thesis using run inv by (auto simp: fork_pl0_def own_table_def)
  next
    case own_p: True
    have sp: "user_table k ?p" using d(4) [OF d(3) cur] own_p by (simp add: space_ok_def)
    obtain a m1 where al: "alloc_addr_space (mmu k) = (a, m1)" by fastforce
    show ?thesis
    proof (cases a)
      case None
      then have "m1 = mmu k" using al by (auto simp: alloc_addr_space_def Let_def split: option.splits)
      then have "k' = k" using run own_p al None by (auto simp: fork_pl0_def own_table_def Let_def)
      then show ?thesis using inv by simp
    next
      case (Some c)
      define m where "m = clone_addr_space (table_base m1) c m1"
      let ?k1 = "k\<lparr>mmu := m\<rparr>"
      note n = owned_new_space [OF d(1) al [unfolded Some], folded m_def]
      have lp: "live_l1 (mmu ?k1) ?p" "c \<noteq> ?p" using sp n(4,5) by (auto simp: user_table_def)
      have uc: "user_table ?k1 c" using n by (simp add: user_table_def)
      have own1: "kown {} ?k1" using n(1) by simp
      obtain ok k2 where ph: "fork_copy_phase ?p c ?k1 = (ok, k2)" by fastforce
      note f = fork_copy_phase_owned [OF own1 uc lp ph]
      obtain x y where e: "k2 = ?k1\<lparr>mmu := x, pages := y\<rparr>" using f(1) by blast
      have k2: "k2 = k\<lparr>mmu := x, pages := y\<rparr>" unfolding e by simp
      have base: "l1_base (mmu k2) = l1_base (mmu k)" and live: "live_l1 (mmu k2) = live_l1 m"
        using f(2) n(3) by (simp_all add: same_spaces_def)
      have old: "t \<noteq> c" if "(t, va, g) \<in> umaps (mmu k)" for t va g using that n(5) by (auto simp: umaps_iff)
      have um: "umaps (mmu k) = {x \<in> umaps (mmu k2). fst x \<noteq> c}"
      proof (intro set_eqI)
        fix x :: "usize \<times> usize \<times> usize" obtain t va g where x: "x = (t, va, g)" by (cases x)
        show "x \<in> umaps (mmu k) \<longleftrightarrow> x \<in> {x \<in> umaps (mmu k2). fst x \<noteq> c}" using f(4) [of t va g] n(2) old x by auto
      qed
      show ?thesis
      proof (cases ok)
        case False
        let ?k3 = "k2\<lparr>mmu := snd (free_addr_space c (mmu k2))\<rparr>"
        have k': "k' = ?k3"
          using run own_p al Some ph False by (auto simp: fork_pl0_def own_table_def Let_def m_def)
        have lc: "live_l1 (mmu k2) c" "c \<noteq> l1_base (mmu k2)" using live n(4,6) base by simp_all
        have o2: "owned ({c} \<times> UNIV) (mmu k2) (pages k2)" using f(3) False by simp
        note fr = owned_free_space [OF o2 order_refl lc]
        show ?thesis
          unfolding k'
        proof (rule kinv_restored [OF inv])
          show "memory_kept k ?k3"
            unfolding memory_kept_def using fr um base live n(4,5) f(6) k2 by auto
        qed (simp add: k2)
      next
        case True
        obtain fd fs where ft: "fork_table (fds p) (files k) = (fd, fs)" by fastforce
        let ?c = "child_of p (current k) slot ctx c fd"
        let ?k3 = "k2\<lparr>files := fs, procs := (procs k)[slot := Some ?c]\<rparr>"
        have k': "k' = ?k3"
          using run own_p al Some ph True ft k2 by (auto simp: fork_pl0_def own_table_def Let_def m_def install_def)
        have "mapped c va ?k3" if "mapped ?p va k" for va
          using f(5) [OF True, of va] that n(2) by (simp add: mapped_def)
        moreover have "user_table ?k3 c" "table_base (mmu ?k3) = table_base (mmu k)"
          using live n(4,6) base by (simp_all add: user_table_def table_base_def)
        ultimately have child: "space_ok ?k3 ?c"
          using d(4) [OF d(3) cur] own_p n(6) live_not_null [OF n(1), of c] n(4)
          by (simp add: space_ok_def own_table_def child_of_def table_base_def)
        show ?thesis
          unfolding k'
        proof (rule kinv_install [OF inv _ _ slot(2) child])
          show "memory_kept k ?k3" unfolding memory_kept_def using f(3,6) True um base live n(4) k2 by auto
        qed (use n(5) in \<open>simp_all add: child_of_def\<close>)
      qed
    qed
  qed
qed

lemma sys_fork_kinv:
  assumes inv: "kinv k" and user: "\<And>p. cur_proc k = Some p \<Longrightarrow> ctx_cpsr (active_frame_ctx_or (p_ctx p) k) AND CPSR_MODE_MASK = CPSR_MODE_USER"
    and cur: "cur_proc k = Some p"
  shows "kinv (snd (sys_fork k))"
proof -
  have "kinv (snd (fork k))"
  proof (cases "find_index Option.is_none (procs k)")
    case None
    then show ?thesis using inv by (simp add: fork_def del: find_index_None_iff)
  next
    case (Some slot)
    note s = find_index_Some_less [OF Some] find_index_Some_P [OF Some]
    let ?ctx = "active_frame_ctx_or (p_ctx p) k"
    have e: "fork k = fork_pl0 slot p (?ctx\<lparr>ctx_r := (ctx_r ?ctx)[0 := 0]\<rparr>) k"
      using Some cur user [OF cur] by (simp add: fork_def Let_def)
    show ?thesis
      unfolding e by (rule fork_pl0_kinv [OF inv _ _ cur prod.collapse [symmetric]])
        (use s kinvD(2) [OF inv] in \<open>simp_all add: Option.is_none_def\<close>)
  qed
  then show ?thesis by (auto simp: sys_fork_def split: prod.splits option.splits)
qed

end
