(* ===== verification/Spawning.thy ===== *)
theory Spawning
  imports Isolation
begin

text \<open>
  Process creation from an image keeps the ownership invariant: the frames of the image, the stack
  and the signal trampoline come from the allocator, are entered in the new table only, each at one
  page, and all of them are given back when a step fails.
\<close>

section \<open>Frames held by a creation under way\<close>

definition held :: "usize set \<Rightarrow> page_state \<Rightarrow> bool" where
  "held F ps \<longleftrightarrow> F \<subseteq> managed_frames ps \<and> F \<inter> free_frames ps = {} \<and> (\<forall>f\<in>F. user_window f)"

text \<open>Frames of \<open>F\<close> are mapped in table \<open>t\<close> only, frame \<open>f\<close> at page \<open>\<psi> f\<close>.\<close>

definition placed :: "usize \<Rightarrow> (usize \<Rightarrow> usize) \<Rightarrow> usize set \<Rightarrow> mmu_state \<Rightarrow> bool" where
  "placed t \<psi> F m \<longleftrightarrow> (\<forall>t' va f. (t', va, f) \<in> umaps m \<and> f \<in> F \<longrightarrow> t' = t \<and> va = \<psi> f)"

lemma of_nat_page: "(of_nat (n div 4096 * 4096) :: u32) AND 0xFFFFF000 = of_nat n AND 0xFFFFF000"
proof -
  have "n div 4096 * 4096 = push_bit 12 (drop_bit 12 n)" by (simp add: push_bit_eq_mult drop_bit_eq_div)
  then show ?thesis
    unfolding page_mask by (intro bit_eqI) (auto simp: page_mask_bits bit_simps)
qed

lemma grant_align: "grant_page t va (ph div 4096 * 4096) at m = grant_page t va ph at m"
  by (simp only: grant_page_def map_page_def of_nat_page)

lemma grant_held:
  assumes own: "kown {} k" and t: "user_table k t" and va: "vpage va" "user_window va" and at: "page_attrs at" "l2_entry_is_user at"
    and F: "held F (pages k)" "placed t \<psi> F (mmu k)" "f \<in> F" "\<psi> f = va" and g: "grant_page t va f at (mmu k) = (r, m)"
  shows "touches t UNIV k (k\<lparr>mmu := m\<rparr>)" "placed t \<psi> F m" "mapped t va' k \<Longrightarrow> mapped t va' (k\<lparr>mmu := m\<rparr>)"
    "r \<Longrightarrow> mapped t va (k\<lparr>mmu := m\<rparr>)"
proof -
  have tt: "live_l1 (mmu k) t" "t \<noteq> l1_base (mmu k)" using t by (simp_all add: user_table_def)
  have f: "f \<in> managed_frames (pages k)" "f \<notin> free_frames (pages k)" "user_window f" "only_at t va f (mmu k)"
    using F by (auto simp: held_def placed_def only_at_def)
  note q = owned_place [OF own tt va disjI2 [OF g] at f]
  show "touches t UNIV k (k\<lparr>mmu := m\<rparr>)"
    by (rule touches_mono [OF place_touches(1) [OF own t va f at disjI2 [OF g]]]) simp
  show "placed t \<psi> F m" using F(2,4) q(3) by (auto simp: placed_def split: if_splits)
  show "r \<Longrightarrow> mapped t va (k\<lparr>mmu := m\<rparr>)" using q(3) f(1) by (auto simp: mapped_def)
  show "mapped t va' (k\<lparr>mmu := m\<rparr>)" if "mapped t va' k" using that q(3) f(1) by (cases "va' = va") (auto simp: mapped_def)
qed

definition fits_page :: "(usize \<Rightarrow> usize) \<Rightarrow> usize set \<Rightarrow> usize \<times> usize \<Rightarrow> bool" where
  "fits_page \<psi> F x \<longleftrightarrow> vpage (fst x) \<and> user_window (fst x) \<and> snd x div 4096 * 4096 \<in> F \<and> \<psi> (snd x div 4096 * 4096) = fst x"

lemma grant_pages_held:
  assumes "kown {} k" "user_table k t" "page_attrs at" "l2_entry_is_user at" "held F (pages k)" "placed t \<psi> F (mmu k)"
    and "\<forall>x\<in>set xs. fits_page \<psi> F x" "grant_pages t at xs (mmu k) = (r, m)"
  shows "touches t UNIV k (k\<lparr>mmu := m\<rparr>) \<and> placed t \<psi> F m \<and> (\<forall>va. mapped t va k \<longrightarrow> mapped t va (k\<lparr>mmu := m\<rparr>)) \<and>
    (r \<longrightarrow> (\<forall>x\<in>set xs. mapped t (fst x) (k\<lparr>mmu := m\<rparr>)))"
  using assms
proof (induction xs arbitrary: k)
  case Nil
  then have e: "k\<lparr>mmu := m\<rparr> = k" "m = mmu k" by auto
  show ?case unfolding e(1) using Nil.prems e(2) touches_refl by auto
next
  case (Cons x xs)
  obtain va ph where x: "x = (va, ph)" by fastforce
  have fit: "vpage va" "user_window va" "ph div 4096 * 4096 \<in> F" "\<psi> (ph div 4096 * 4096) = va"
    using Cons.prems(7) x by (simp_all add: fits_page_def)
  obtain ok m1 where g: "grant_page t va ph at (mmu k) = (ok, m1)" by fastforce
  then have g': "grant_page t va (ph div 4096 * 4096) at (mmu k) = (ok, m1)" by (simp only: grant_align)
  note s = grant_held [OF Cons.prems(1,2) fit(1,2) Cons.prems(3-6) fit(3,4) g']
  let ?k = "k\<lparr>mmu := m1\<rparr>"
  show ?case
  proof (cases ok)
    case False
    then show ?thesis using Cons.prems(8) x g s by auto
  next
    case True
    have run: "grant_pages t at xs (mmu ?k) = (r, m)" using Cons.prems(8) x g True by simp
    have ih: "touches t UNIV ?k (?k\<lparr>mmu := m\<rparr>) \<and> placed t \<psi> F m \<and> (\<forall>va. mapped t va ?k \<longrightarrow> mapped t va (?k\<lparr>mmu := m\<rparr>)) \<and>
        (r \<longrightarrow> (\<forall>x\<in>set xs. mapped t (fst x) (?k\<lparr>mmu := m\<rparr>)))"
      by (rule Cons.IH) (use Cons.prems touchesD(2,5) [OF s(1)] s(2) run in simp_all)
    have "touches t UNIV k (?k\<lparr>mmu := m\<rparr>)" by (rule touches_trans [OF s(1)]) (use ih in auto)
    then show ?thesis using ih s(3,4) True x by auto
  qed
qed

section \<open>The image\<close>

text \<open>The segments of a loaded image lie in the image window and inside the span of its frames.\<close>

definition image_fits :: "loaded_elf \<Rightarrow> bool" where
  "image_fits l \<longleftrightarrow> image_phys l mod 4096 = 0 \<and> image_phys l + image_pages l * 4096 \<le> USIZE_MOD \<and>
     (\<forall>(v, ms, fl) \<in> set (l_segments l). USER_TEXT_BASE \<le> v \<and> v + ms \<le> RAM_END \<and> image_lo l \<le> v \<and>
        v - image_lo l + ms \<le> image_pages l * 4096)"

abbreviation image_frames :: "loaded_elf \<Rightarrow> usize set" where
  "image_frames l \<equiv> run_frames (image_phys l) (image_pages l)"

definition image_page :: "loaded_elf \<Rightarrow> usize \<Rightarrow> usize" where
  "image_page l f = (image_lo l + 4095) div 4096 * 4096 + (f - image_phys l)"

lemma round_split:
  fixes lo :: nat
  assumes "va mod 4096 = 0" "lo \<le> va"
  shows "(lo + 4095) div 4096 * 4096 + (va - lo) div 4096 * 4096 = va"
proof -
  obtain a where a: "va = 4096 * a" using assms(1) by (auto simp: mod_eq_0_iff_dvd)
  define q r where "q = lo div 4096" and "r = lo mod 4096"
  have lo: "lo = 4096 * q + r" "r < 4096" by (simp_all add: q_def r_def)
  show ?thesis
  proof (cases "r = 0")
    case True
    then have "va - lo = 4096 * (a - q)" using a lo by (simp add: diff_mult_distrib2)
    moreover have "q \<le> a" using assms(2) a lo by simp
    ultimately show ?thesis using True lo a by simp
  next
    case False
    have qa: "q < a" using assms(2) a lo False by simp
    then have "va - lo = 4096 * (a - q - 1) + (4096 - r)" using a lo by (simp add: diff_mult_distrib2)
    then have "(va - lo) div 4096 = a - q - 1" using False lo(2) by simp
    moreover have "(lo + 4095) div 4096 = q + 1"
    proof -
      have "lo + 4095 = 4096 * (q + 1) + (r - 1)" using lo False by simp
      then show ?thesis using lo(2) by simp
    qed
    ultimately show ?thesis using a qa by (simp flip: add_mult_distrib)
  qed
qed

lemma segment_fits:
  assumes fit: "image_fits l" and seg: "(v, ms, fl) \<in> set (l_segments l)" and al: "v mod PAGE_SIZE = 0"
    and F: "image_frames l \<subseteq> F" and psi: "\<And>f. f \<in> image_frames l \<Longrightarrow> \<psi> f = image_page l f" and x: "x \<in> set (segment_pages l v ms)"
  shows "fits_page \<psi> F x"
proof -
  have b: "USER_TEXT_BASE \<le> v" "v + ms \<le> RAM_END" "image_lo l \<le> v" "v - image_lo l + ms \<le> image_pages l * 4096"
    "image_phys l mod 4096 = 0" "image_phys l + image_pages l * 4096 \<le> USIZE_MOD"
    using fit seg by (auto simp: image_fits_def)
  obtain p where p: "p < div_ceil ms PAGE_SIZE" "x = (page_at v p, uadd (image_phys l) (usub (page_at v p) (image_lo l)))"
    using x by (auto simp: segment_pages_def Let_def)
  have ms: "p * 4096 < ms" "0 < ms"
  proof -
    show pos: "0 < ms" using p(1) by (cases ms) (simp_all add: div_ceil_def PAGE_SIZE_val)
    have "p \<le> div_ceil ms 4096 - 1" using p(1) by (simp add: PAGE_SIZE_val)
    then have "p * 4096 \<le> (div_ceil ms 4096 - 1) * 4096" by simp
    then show "p * 4096 < ms" using div_ceil_bounds(2) [OF pos] by linarith
  qed
  have lt: "v + p * 4096 < RAM_END" using ms b(2) by linarith
  then have va: "page_at v p = v + p * 4096" by (intro page_at_exact) (simp add: const_defs)
  let ?va = "v + p * 4096"
  have al': "?va mod 4096 = 0" using al by (simp add: PAGE_SIZE_val)
  define d where "d = ?va - image_lo l"
  have d: "d < image_pages l * 4096" using b(3,4) ms(1) by (simp add: d_def)
  have ph: "uadd (image_phys l) (usub (page_at v p) (image_lo l)) = image_phys l + d"
  proof -
    have "usub ?va (image_lo l) = d" using b(3) lt by (simp add: d_def usub_exact const_defs)
    then show ?thesis using b(6) d unfolding va by (simp add: uadd_exact)
  qed
  have fr: "(image_phys l + d) div 4096 * 4096 = image_phys l + d div 4096 * 4096"
  proof -
    obtain c where "image_phys l = 4096 * c" using b(5) by (auto simp: mod_eq_0_iff_dvd)
    then show ?thesis by simp
  qed
  have "d div 4096 < image_pages l" using d by (intro less_mult_imp_div_less) simp
  then have mem: "image_phys l + d div 4096 * 4096 \<in> image_frames l" by (auto simp: run_frames_def)
  have "image_page l (image_phys l + d div 4096 * 4096) = ?va"
    using round_split [OF al', of "image_lo l"] b(3) by (simp add: image_page_def d_def)
  moreover have "vpage ?va" "user_window ?va"
    using al' lt b(1) by (auto simp: vpage_def user_window_iff const_defs)
  ultimately show ?thesis
    using mem F psi [OF mem] unfolding fits_page_def p(2) fst_conv snd_conv ph fr unfolding va by auto
qed

lemma map_segments_held:
  assumes "kown {} k" "user_table k t" "held F (pages k)" "placed t \<psi> F (mmu k)"
    and fit: "image_fits l" "image_frames l \<subseteq> F" "\<And>f. f \<in> image_frames l \<Longrightarrow> \<psi> f = image_page l f"
    and "set segs \<subseteq> set (l_segments l)" "map_segments t l segs (mmu k) = (r, m)"
  shows "touches t UNIV k (k\<lparr>mmu := m\<rparr>) \<and> placed t \<psi> F m"
  using assms(1-4,8,9)
proof (induction segs arbitrary: k)
  case Nil
  then have e: "k\<lparr>mmu := m\<rparr> = k" "m = mmu k" by auto
  show ?case unfolding e(1) using Nil.prems e(2) touches_refl by auto
next
  case (Cons s segs)
  obtain v ms fl where s: "s = (v, ms, fl)" by (cases s)
  show ?case
  proof (cases "v mod PAGE_SIZE = 0")
    case False
    then have e: "k\<lparr>mmu := m\<rparr> = k" "m = mmu k" using Cons.prems(6) s by auto
    show ?thesis unfolding e(1) using Cons.prems(1-4) e(2) touches_refl by auto
  next
    case True
    let ?at = "prot_to_l2_flags (flags_to_prot fl)"
    obtain ok m1 where g: "grant_pages t ?at (segment_pages l v ms) (mmu k) = (ok, m1)" by fastforce
    have pages: "\<forall>x\<in>set (segment_pages l v ms). fits_page \<psi> F x"
      using segment_fits [OF fit(1) _ True fit(2,3)] Cons.prems(5) s by auto
    note q = grant_pages_held [OF Cons.prems(1,2) prot_attrs(1,2) Cons.prems(3,4) pages g]
    let ?k = "k\<lparr>mmu := m1\<rparr>"
    show ?thesis
    proof (cases ok)
      case False
      then show ?thesis using Cons.prems(6) s True g q by auto
    next
      case ok: True
      have "touches t UNIV ?k (?k\<lparr>mmu := m\<rparr>) \<and> placed t \<psi> F m"
        by (rule Cons.IH) (use Cons.prems q touchesD(2,5) [of t UNIV k ?k] s True g ok in auto)
      then show ?thesis using q touches_trans [of t UNIV k ?k UNIV "?k\<lparr>mmu := m\<rparr>" UNIV] by simp
    qed
  qed
qed

definition seg_within :: "usize \<Rightarrow> usize \<Rightarrow> usize \<Rightarrow> nat \<Rightarrow> segment \<Rightarrow> bool" where
  "seg_within lo hi l n s \<longleftrightarrow> lo \<le> s_vaddr s \<and> s_vaddr s + s_memsz s \<le> hi \<and> l \<le> s_vaddr s \<and> s_vaddr s - l + s_memsz s \<le> n * 4096"

lemma plan_frames:
  assumes inv: "page_inv ps" and plan: "plan_confined_image v lo hi ps = (r, ps')"
  shows "case r of Inl _ \<Rightarrow> ps' = ps
    | Inr (phys, l) \<Rightarrow> run_frames phys (total_pages v) \<subseteq> free_frames ps \<and> free_frames ps' = free_frames ps - run_frames phys (total_pages v) \<and>
        same_frames ps ps' \<and> (\<forall>s\<in>set (v_segments v). seg_within lo hi l (total_pages v) s)"
proof (cases "image_span lo hi (v_segments v) (USIZE_MOD - 1) 0")
  case None
  then show ?thesis using plan by (auto simp: plan_confined_image_def)
next
  case (Some lm)
  obtain l m where lm: "lm = (l, m)" by fastforce
  note span = image_span_bounds [OF Some [unfolded lm]]
  obtain a ps1 where al: "alloc_contiguous (total_pages v) ps = (a, ps1)" by fastforce
  note f = alloc_run_frames [OF inv al]
  show ?thesis
  proof (cases "div_ceil (m - l) PAGE_SIZE = total_pages v")
    case False
    then show ?thesis using plan Some lm by (auto simp: plan_confined_image_def)
  next
    case True
    have "m - l \<le> total_pages v * 4096" using div_ceil_bounds(1) [of "m - l"] True by (simp add: PAGE_SIZE_val)
    then have "\<forall>s\<in>set (v_segments v). seg_within lo hi l (total_pages v) s" using span by (fastforce simp: seg_within_def)
    then show ?thesis
      using plan Some lm True al f by (cases a) (auto simp: plan_confined_image_def)
  qed
qed

text \<open>Nothing maps the frames of \<open>F\<close>.\<close>

definition unmapped :: "usize set \<Rightarrow> mmu_state \<Rightarrow> bool" where
  "unmapped F m \<longleftrightarrow> (\<forall>t va f. (t, va, f) \<in> umaps m \<longrightarrow> f \<notin> F)"

text \<open>Taking frames out of the free set.\<close>

lemma take_frames:
  assumes own: "kown {} k" and s: "same_frames (pages k) ps" and F: "F \<subseteq> free_frames (pages k)" "free_frames ps = free_frames (pages k) - F"
  shows "touches t S k (k\<lparr>pages := ps\<rparr>)" "held F ps" "unmapped F (mmu k)"
proof -
  have "kown {} (k\<lparr>pages := ps\<rparr>)" using owned_pages [OF own s, of "{}"] ownedD(6,8) [OF own] F by auto
  then show "touches t S k (k\<lparr>pages := ps\<rparr>)"
    using s ownedD(1) [OF own] by (auto simp: touches_def same_frames_def same_spaces_refl)
  show "held F ps" using F s free_frames_managed [of "pages k"] ownedD(8) [OF own] by (auto simp: held_def same_frames_def)
  show "unmapped F (mmu k)" using ownedD(6) [OF own] F by (auto simp: unmapped_def)
qed

lemma held_mono: "held F ps \<Longrightarrow> managed_frames ps' = managed_frames ps \<Longrightarrow> free_frames ps' \<subseteq> free_frames ps \<Longrightarrow> held F ps'"
  unfolding held_def by blast

lemma aligned_end: "x mod 4096 = 0 \<Longrightarrow> x < USIZE_MOD \<Longrightarrow> x + 4096 \<le> USIZE_MOD"
  by (auto simp: USIZE_MOD_def mod_eq_0_iff_dvd elim!: dvdE)

lemma load_frames:
  assumes own: "kown {} k" and load: "load_confined data USER_TEXT_BASE RAM_END (pages k) = (r, ps)"
  shows "case r of Inl _ \<Rightarrow> ps = pages k
    | Inr l \<Rightarrow> image_fits l \<and> held (image_frames l) ps \<and> unmapped (image_frames l) (mmu k) \<and> touches t S k (k\<lparr>pages := ps\<rparr>)"
proof (cases "validate data")
  case (Inl e)
  then show ?thesis using load by (auto simp: load_confined_def)
next
  case (Inr ev)
  obtain entry v where ev: "ev = (entry, v)" by fastforce
  obtain r1 ps1 where plan: "plan_confined_image v USER_TEXT_BASE RAM_END (pages k) = (r1, ps1)" by fastforce
  note pf = plan_frames [OF ownedD(3) [OF own] plan]
  show ?thesis
  proof (cases r1)
    case Inl': (Inl e)
    then show ?thesis using load Inr ev plan pf by (auto simp: load_confined_def split: if_splits)
  next
    case Inr': (Inr pl)
    obtain phys lo where pl: "pl = (phys, lo)" by fastforce
    show ?thesis
    proof (cases "free_count (pages k) < total_pages v")
      case True
      then show ?thesis using load Inr ev by (auto simp: load_confined_def)
    next
      case False
      define l where "l = \<lparr>l_entry = entry, pages_used = sum_list (map (\<lambda>s. div_ceil (s_memsz s) PAGE_SIZE) (v_segments v)),
        l_segments = map (\<lambda>s. (s_vaddr s, s_memsz s, s_flags s)) (v_segments v), image_phys = phys, image_lo = lo, image_pages = total_pages v\<rparr>"
      define ram where "ram = fold (load_segment data phys lo) (v_segments v) (phys_mem ps1)"
      have res: "r = Inr l" "ps = ps1\<lparr>phys_mem := ram\<rparr>"
        using load Inr ev plan Inr' pl False by (auto simp: load_confined_def l_def ram_def)
      have q: "image_frames l \<subseteq> free_frames (pages k)" "free_frames ps1 = free_frames (pages k) - image_frames l" "same_frames (pages k) ps1"
        "\<forall>s\<in>set (v_segments v). seg_within USER_TEXT_BASE RAM_END lo (total_pages v) s"
        using pf Inr' pl by (simp_all add: l_def)
      have ps: "free_frames ps = free_frames ps1" "same_frames (pages k) ps"
        using q(3) by (simp_all add: res(2))
      note tf = take_frames [OF own ps(2) q(1), unfolded ps(1), OF q(2)]
      have "image_fits l"
      proof -
        have pos: "0 < total_pages v"
          using load Inr ev plan Inr' pl False alloc_run_frames(3) [OF ownedD(3) [OF own]]
          by (auto simp: plan_confined_image_def split: option.splits if_splits prod.splits)
        then have "phys \<in> image_frames l" "phys + (total_pages v - 1) * 4096 \<in> image_frames l"
          unfolding run_frames_def l_def by (auto intro: image_eqI [where x = 0])
        then have m: "phys \<in> managed_frames (pages k)" "phys + (total_pages v - 1) * 4096 \<in> managed_frames (pages k)"
          using q(1) free_frames_managed by blast+
        have e: "phys + total_pages v * 4096 = phys + (total_pages v - 1) * 4096 + 4096" using pos by (simp add: diff_mult_distrib)
        have "(phys + (total_pages v - 1) * 4096) mod 4096 = 0" "phys + (total_pages v - 1) * 4096 < USIZE_MOD"
          using managed_frame(1,2) [OF own m(2)] by blast+
        then have "phys + (total_pages v - 1) * 4096 + 4096 \<le> USIZE_MOD" by (rule aligned_end)
        then show ?thesis using e managed_frame(1) [OF own m(1)] q(4) by (auto simp: image_fits_def l_def seg_within_def)
      qed
      then show ?thesis using res(1) tf by simp
    qed
  qed
qed

section \<open>The trampoline page\<close>

lemma trampoline_page: "vpage SIGNAL_TRAMPOLINE_VA" "user_window SIGNAL_TRAMPOLINE_VA"
  by (simp_all add: vpage_def user_window_iff const_defs)

lemma trampoline_frames:
  assumes own: "kown {} k" and t: "user_table k t" and run: "map_signal_trampoline t k = (r, k')"
  shows "touches t {SIGNAL_TRAMPOLINE_VA} k k'" "free_frames (pages k') = free_frames (pages k) - set_option r"
    "set_option r \<subseteq> free_frames (pages k)"
    "umaps (mmu k') = (case r of None \<Rightarrow> umaps (mmu k) | Some f \<Rightarrow>
       {x \<in> umaps (mmu k). \<forall>f'. x \<noteq> (t, SIGNAL_TRAMPOLINE_VA, f')} \<union> {(t, SIGNAL_TRAMPOLINE_VA, f)})"
proof -
  let ?va = SIGNAL_TRAMPOLINE_VA and ?at = "prot_to_l2_flags (PROT_READ OR PROT_EXEC)"
  obtain a ps where al: "alloc_page (pages k) = (a, ps)" by fastforce
  note af = alloc_frames [OF ownedD(3) [OF own] al]
  have "touches t {?va} k k' \<and> free_frames (pages k') = free_frames (pages k) - set_option r \<and> set_option r \<subseteq> free_frames (pages k) \<and>
    umaps (mmu k') = (case r of None \<Rightarrow> umaps (mmu k) | Some f \<Rightarrow> {x \<in> umaps (mmu k). \<forall>f'. x \<noteq> (t, ?va, f')} \<union> {(t, ?va, f)})"
  proof (cases a)
    case None
    then show ?thesis using run al af alloc_touches(1) [OF own al] by (auto simp: map_signal_trampoline_def)
  next
    case (Some f)
    obtain ok m where g: "grant_page t ?va f ?at (mmu k) = (ok, m)" by fastforce
    note q = alloc_place_touches [OF own t trampoline_page al [unfolded Some] prot_attrs(1,2) disjI2 [OF g]]
    show ?thesis
    proof (cases ok)
      case True
      let ?ram = "write_trampoline_page f (phys_mem ps)"
      have k': "r = Some f" "k' = k\<lparr>pages := ps\<lparr>phys_mem := ?ram\<rparr>, mmu := m\<rparr>"
        using run al Some g True by (auto simp: map_signal_trampoline_def)
      have "touches t {?va} k k'" using q(1) unfolding touches_def k'(2) by (simp add: managed_frames_def)
      moreover have "free_frames (pages k') = free_frames ps" by (simp add: k' free_frames_def frame_addr_def)
      moreover have "umaps m = {x \<in> umaps (mmu k). \<forall>f'. x \<noteq> (t, ?va, f')} \<union> {(t, ?va, f)}"
      proof -
        have tt: "live_l1 (mmu k) t" "t \<noteq> l1_base (mmu k)" using t by (simp_all add: user_table_def)
        have own1: "owned {} (mmu k) ps" using touchesD(2) [OF alloc_touches(1) [OF own al, of t "{}"]] by simp
        have f: "f \<in> managed_frames ps" "f \<notin> free_frames ps" "user_window f" using alloc_touches(2) [OF own al, of f] Some by simp_all
        have "only_at t ?va f (mmu k)" using alloc_touches(3) [OF own al, of f] Some by (simp add: only_at_def)
        from owned_place(3) [OF own1 tt trampoline_page disjI2 [OF g] prot_attrs(1,2) f this] show ?thesis using True by simp
      qed
      ultimately show ?thesis using k' af Some by simp
    next
      case False
      let ?k = "k\<lparr>pages := ps, mmu := m\<rparr>"
      have k': "r = None" "k' = ?k\<lparr>pages := free_page f ps\<rparr>" using run al Some g False by (auto simp: map_signal_trampoline_def)
      have "touches t {} ?k (?k\<lparr>pages := free_page f (pages ?k)\<rparr>)" by (rule free_touches [OF touchesD(2) [OF q(1)]]) (use q(3,5) False in simp_all)
      then have "touches t {?va} k k'" using touches_trans [OF q(1), of "{}" k'] by (simp add: k')
      moreover have "free_frames (pages k') = free_frames (pages k)"
        using free_frames_step(2) [of ps f] af Some alloc_touches(2) [OF own al, of f] by (auto simp: k' free_page_def same_frames_def)
      ultimately show ?thesis using k' q(4) False by simp
    qed
  qed
  then show "touches t {?va} k k'" "free_frames (pages k') = free_frames (pages k) - set_option r" "set_option r \<subseteq> free_frames (pages k)"
    "umaps (mmu k') = (case r of None \<Rightarrow> umaps (mmu k) | Some f \<Rightarrow> {x \<in> umaps (mmu k). \<forall>f'. x \<noteq> (t, ?va, f')} \<union> {(t, ?va, f)})" by blast+
qed

section \<open>Building the address space\<close>

lemma owned_weaken: "owned X m ps \<Longrightarrow> X \<subseteq> X' \<Longrightarrow> owned X' m ps"
  unfolding owned_def by blast

lemma free_image:
  assumes own: "owned X m ps" and X: "X \<subseteq> X'" and h: "held (image_frames l) ps"
    and at: "\<And>t va f. (t, va, f) \<in> umaps m \<Longrightarrow> f \<in> image_frames l \<Longrightarrow> (t, va) \<in> X'"
  shows "owned X' m (free_unspawned_image l ps)" "managed_frames (free_unspawned_image l ps) = managed_frames ps"
    "free_frames (free_unspawned_image l ps) = free_frames ps \<union> image_frames l"
proof -
  have u: "image_frames l \<subseteq> managed_frames ps" "image_frames l \<inter> free_frames ps = {}" using h by (auto simp: held_def)
  note f = free_run_frames [OF ownedD(3) [OF own] u]
  have e: "free_unspawned_image l ps = snd (free_contiguous (image_phys l) (image_pages l) ps)"
    by (simp add: free_unspawned_image_def free_contiguous_def)
  show "owned X' m (free_unspawned_image l ps)"
    unfolding e by (rule owned_free_run [OF own X u at]) (use h in \<open>auto simp: held_def\<close>)
  show "managed_frames (free_unspawned_image l ps) = managed_frames ps"
    "free_frames (free_unspawned_image l ps) = free_frames ps \<union> image_frames l"
    using f unfolding e same_frames_def by blast+
qed

definition space_page :: "loaded_elf \<Rightarrow> usize set \<Rightarrow> usize \<Rightarrow> usize" where
  "space_page l stack f = (if f \<in> image_frames l then image_page l f else if f \<in> stack then f else SIGNAL_TRAMPOLINE_VA)"

text \<open>The image and the stack of a new process, entered after the trampoline.\<close>

definition map_space :: "usize \<Rightarrow> loaded_elf \<Rightarrow> usize \<Rightarrow> mmu_state \<Rightarrow> bool \<times> mmu_state" where
  "map_space t l sb m = (case map_user_image t l m of (False, m) \<Rightarrow> (False, m) | (True, m) \<Rightarrow> map_user_stack t sb STACK_PAGES m)"

lemma stack_page:
  assumes "run_frames sb n \<subseteq> managed_frames ps" "owned X m ps" "i < n"
  shows "page_at sb i = sb + i * 4096" "page_at sb i \<in> run_frames sb n" "vpage (page_at sb i)" "RAM_START \<le> page_at sb i"
    "page_at sb i div 4096 * 4096 = page_at sb i"
proof -
  have f: "sb + i * 4096 \<in> run_frames sb n" using assms(3) by (auto simp: run_frames_def)
  note m = managed_frame [OF assms(2) subsetD [OF assms(1) f]]
  show e: "page_at sb i = sb + i * 4096" by (rule page_at_exact) (rule m(2))
  show "page_at sb i \<in> run_frames sb n" "vpage (page_at sb i)" "RAM_START \<le> page_at sb i" using f m by (simp_all add: e vpage_def)
  show "page_at sb i div 4096 * 4096 = page_at sb i" using m(1) unfolding e by (metis mod_0_imp_dvd dvd_div_mult_self)
qed

lemma map_space_held:
  assumes own: "kown {} k" and t: "user_table k t" and fit: "image_fits l" and F: "held F (pages k)" "placed t (space_page l S) F (mmu k)"
    and fr: "image_frames l \<subseteq> F" "S = run_frames sb STACK_PAGES" "S \<subseteq> F" "image_frames l \<inter> S = {}"
    and run: "map_space t l sb (mmu k) = (r, m)"
  shows "touches t UNIV k (k\<lparr>mmu := m\<rparr>)" "placed t (space_page l S) F m"
    "r \<Longrightarrow> i < STACK_PAGES \<Longrightarrow> mapped t (page_at sb i) (k\<lparr>mmu := m\<rparr>)"
proof -
  let ?psi = "space_page l S" and ?k = "\<lambda>m. k\<lparr>mmu := m\<rparr>"
  obtain ok m1 where im: "map_user_image t l (mmu k) = (ok, m1)" by fastforce
  have a: "touches t UNIV k (?k m1)" "placed t ?psi F m1"
    using map_segments_held [OF own t F fit fr(1) _ order_refl, of ok m1] im
    by (auto simp: map_user_image_def space_page_def)
  have "touches t UNIV k (?k m) \<and> placed t ?psi F m \<and> (r \<longrightarrow> i < STACK_PAGES \<longrightarrow> mapped t (page_at sb i) (?k m))"
  proof (cases ok)
    case False
    then show ?thesis using run im a by (auto simp: map_space_def)
  next
    case True
    let ?xs = "map (\<lambda>i. (page_at sb i, page_at sb i)) [0..<STACK_PAGES]"
    have g: "grant_pages t (prot_to_l2_flags (PROT_READ OR PROT_WRITE)) ?xs (mmu (?k m1)) = (r, m)"
      using run im True by (simp add: map_space_def map_user_stack_def)
    have man: "run_frames sb STACK_PAGES \<subseteq> managed_frames (pages k)" using F(1) fr(2,3) by (auto simp: held_def)
    have fits: "\<forall>x\<in>set ?xs. fits_page ?psi F x"
    proof
      fix x assume "x \<in> set ?xs"
      then obtain j where j: "j < STACK_PAGES" "x = (page_at sb j, page_at sb j)" by auto
      note sp = stack_page [OF man own j(1)]
      have "page_at sb j \<in> S" "page_at sb j \<in> F" "page_at sb j \<notin> image_frames l" using sp(2) fr by auto
      moreover from this have "user_window (page_at sb j)" using F(1) by (simp add: held_def)
      ultimately show "fits_page ?psi F x" using sp(3,5) unfolding fits_page_def j(2) space_page_def by simp
    qed
    have h1: "held F (pages (?k m1))" "placed t ?psi F (mmu (?k m1))" using F(1) a(2) by simp_all
    have t1: "user_table (?k m1) t" using touchesD(5) [OF a(1)] t by simp
    note q = grant_pages_held [OF touchesD(2) [OF a(1)] t1 prot_attrs(1,2) h1 fits g]
    have "touches t UNIV k (?k m)" using touches_trans [OF a(1), of UNIV "?k m" UNIV] q by simp
    then show ?thesis using q by simp
  qed
  then show "touches t UNIV k (?k m)" "placed t ?psi F m" "r \<Longrightarrow> i < STACK_PAGES \<Longrightarrow> mapped t (page_at sb i) (?k m)" by blast+
qed

lemma spawn_user_space:
  "spawn_user loaded k =
    (case find_index Option.is_none (procs k) of
       None \<Rightarrow> (None, k\<lparr>pages := free_unspawned_image loaded (pages k)\<rparr>)
     | Some slot \<Rightarrow>
        (case alloc_addr_space (mmu k) of
           (None, m) \<Rightarrow> (None, k\<lparr>mmu := m, pages := free_unspawned_image loaded (pages k)\<rparr>)
         | (Some new_pt, m) \<Rightarrow>
            (let m = clone_addr_space (table_base m) new_pt m in
             case alloc_contiguous STACK_PAGES (pages k) of
               (None, ps) \<Rightarrow> (None, k\<lparr>pages := free_unspawned_image loaded ps, mmu := snd (free_addr_space new_pt m)\<rparr>)
             | (Some sb, ps) \<Rightarrow>
                (let (tramp, k1) = map_signal_trampoline new_pt (k\<lparr>mmu := m, pages := ps\<rparr>);
                     (ok, m2) = (if tramp = None then (False, mmu k1) else map_space new_pt loaded sb (mmu k1))
                 in if \<not> ok then
                      let ps = (case tramp of None \<Rightarrow> pages k1 | Some phys \<Rightarrow> free_page phys (pages k1));
                          ps = free_unspawned_image loaded ps;
                          ps = snd (free_contiguous sb STACK_PAGES ps)
                      in (None, k1\<lparr>pages := ps, mmu := snd (free_addr_space new_pt m2)\<rparr>)
                    else
                      let ctx = context_initial (of_nat (l_entry loaded)) (of_nat (page_at sb STACK_PAGES)) 0x10
                      in (Some slot, install slot (new_process slot ctx (current k) new_pt sb) (k1\<lparr>mmu := m2\<rparr>))))))"
  unfolding spawn_user_def map_space_def ..

text \<open>Giving everything back: the frames are mapped in the new table at most, which then goes.\<close>

lemma spawn_undo:
  assumes own: "kown {} k" and t: "live_l1 (mmu k) t" "t \<noteq> l1_base (mmu k)"
    and F: "held (image_frames l \<union> S \<union> set_option tramp) (pages k)" "placed t \<psi> (image_frames l \<union> S \<union> set_option tramp) (mmu k)"
    and S: "S = run_frames sb STACK_PAGES" and dis: "image_frames l \<inter> S = {}" "set_option tramp \<inter> (image_frames l \<union> S) = {}"
  defines "ps1 \<equiv> case tramp of None \<Rightarrow> pages k | Some phys \<Rightarrow> free_page phys (pages k)"
  defines "ps3 \<equiv> snd (free_contiguous sb STACK_PAGES (free_unspawned_image l ps1))"
  shows "owned ({t} \<times> UNIV) (mmu k) ps3" "managed_frames ps3 = managed_frames (pages k)"
proof -
  let ?X = "{t} \<times> UNIV" and ?F = "image_frames l \<union> S \<union> set_option tramp"
  have at: "(t', va) \<in> ?X" if "(t', va, f) \<in> umaps (mmu k)" "f \<in> ?F" for t' va f using F(2) that by (auto simp: placed_def)
  have own0: "owned ?X (mmu k) (pages k)" by (rule owned_weaken [OF own]) simp
  have p1: "owned ?X (mmu k) ps1 \<and> managed_frames ps1 = managed_frames (pages k) \<and> free_frames ps1 = free_frames (pages k) \<union> set_option tramp"
  proof (cases tramp)
    case None
    then show ?thesis using own0 by (simp add: ps1_def)
  next
    case (Some f)
    have f: "f \<in> managed_frames (pages k)" "user_window f" using F(1) Some by (auto simp: held_def)
    have "owned ?X (mmu k) (snd (try_free_page f (pages k)))"
      by (rule owned_free(1) [OF own0 order_refl]) (use at Some f in auto)
    then show ?thesis using free_frames_step [OF ownedD(3) [OF own], of f] f Some by (auto simp: ps1_def free_page_def same_frames_def)
  qed
  have h1: "held (image_frames l) ps1" "held S ps1" using F(1) p1 dis(2) by (auto simp: held_def)
  note im = free_image [OF conjunct1 [OF p1] order_refl h1(1) at]
  have s: "run_frames sb STACK_PAGES \<subseteq> managed_frames (free_unspawned_image l ps1)"
      "run_frames sb STACK_PAGES \<inter> free_frames (free_unspawned_image l ps1) = {}"
    using h1(2) im(2,3) dis(1) unfolding S held_def by auto
  show "owned ?X (mmu k) ps3"
    unfolding ps3_def
    by (rule owned_free_run [OF im(1) order_refl s]) (use at h1(2) S in \<open>auto simp: held_def\<close>)
  show "managed_frames ps3 = managed_frames (pages k)"
    using free_run_frames(1) [OF ownedD(3) [OF im(1)] s] im(2) p1 by (simp add: ps3_def same_frames_def)
qed

section \<open>Spawning keeps the invariant\<close>

lemma new_process_ok:
  assumes t: "user_table k t" "owned X (mmu k) ps" and sb: "sb < USIZE_MOD"
    and st: "\<And>i. i < STACK_PAGES \<Longrightarrow> RAM_START \<le> page_at sb i \<and> mapped t (page_at sb i) k"
  shows "space_ok k (new_process slot ctx parent t sb)"
  using assms live_not_null [OF t(2), of t]
  by (auto simp: space_ok_def own_table_def new_process_def user_table_def table_base_def const_defs)

lemma spawn_user_kinv:
  assumes inv: "kinv k" and fit: "image_fits l" and h: "held (image_frames l) (pages k)" "unmapped (image_frames l) (mmu k)"
  shows "kinv (snd (spawn_user l k))"
proof (cases "find_index Option.is_none (procs k)")
  case None
  have nowhere: "(t, va) \<in> {}" if "(t, va, f) \<in> umaps (mmu k)" "f \<in> image_frames l" for t va f
    using h(2) that by (auto simp: unmapped_def)
  note d = kinvD [OF inv] and fi = free_image [OF kinvD(1) [OF inv] order_refl h(1) nowhere]
  have "kinv (k\<lparr>pages := free_unspawned_image l (pages k)\<rparr>)"
    by (rule kinv_restored [OF inv]) (use fi in \<open>simp_all add: memory_kept_def\<close>)
  then show ?thesis using None by (simp add: spawn_user_def del: find_index_None_iff)
next
  case (Some slot)
  note d = kinvD [OF inv]
  have nowhere: "(t, va) \<in> {}" if "(t, va, f) \<in> umaps (mmu k)" "f \<in> image_frames l" for t va f
    using h(2) that by (auto simp: unmapped_def)
  have slot: "slot < MAX_PROCS" using find_index_Some_less [OF Some] d(2) by simp
  obtain a m0 where al: "alloc_addr_space (mmu k) = (a, m0)" by fastforce
  show ?thesis
  proof (cases a)
    case None
    then have "m0 = mmu k" using al by (auto simp: alloc_addr_space_def Let_def split: option.splits)
    then have e: "snd (spawn_user l k) = k\<lparr>pages := free_unspawned_image l (pages k)\<rparr>"
      using Some al None by (simp add: spawn_user_def)
    note fi = free_image [OF d(1) order_refl h(1) nowhere]
    show ?thesis unfolding e by (rule kinv_restored [OF inv]) (use fi in \<open>simp_all add: memory_kept_def\<close>)
  next
    case a: (Some t)
    define m where "m = clone_addr_space (table_base m0) t m0"
    note n = owned_new_space [OF d(1) al [unfolded a], folded m_def]
    obtain s ps where st: "alloc_contiguous STACK_PAGES (pages k) = (s, ps)" by fastforce
    have live: "live_l1 m t" "t \<noteq> l1_base m" using n by simp_all
    have old: "t' \<noteq> t" if "(t', va, g) \<in> umaps (mmu k)" for t' va g using that n(5) by (auto simp: umaps_iff)
    note sf = alloc_run_frames [OF ownedD(3) [OF d(1)] st]
    show ?thesis
    proof (cases s)
      case None
      then have ps: "ps = pages k" using sf(2) by simp
      let ?k = "k\<lparr>pages := free_unspawned_image l (pages k), mmu := snd (free_addr_space t m)\<rparr>"
      have e: "snd (spawn_user l k) = ?k" using Some al a st None ps by (simp add: spawn_user_def m_def Let_def)
      have nowhere1: "(t', va) \<in> {}" if "(t', va, f) \<in> umaps m" "f \<in> image_frames l" for t' va f
        using nowhere that n(2) by simp
      note fi = free_image [OF n(1) order_refl h(1) nowhere1]
      note f = owned_free_space [OF fi(1) _ live] fi(2)
      have "umaps (mmu k) \<subseteq> {x \<in> umaps (mmu k). fst x \<noteq> t}" using old by fastforce
      then have "memory_kept k ?k" unfolding memory_kept_def using f n by auto
      then show ?thesis unfolding e by (rule kinv_restored [OF inv]) simp
    next
      case sb: (Some sb)
      let ?S = "run_frames sb STACK_PAGES" and ?I = "image_frames l"
      let ?k1 = "k\<lparr>mmu := m, pages := ps\<rparr>"
      have own1: "kown {} (k\<lparr>mmu := m\<rparr>)" using n(1) by simp
      have S: "?S \<subseteq> free_frames (pages k)" "free_frames ps = free_frames (pages k) - ?S" using sf(3) sb by simp_all
      have "same_frames (pages (k\<lparr>mmu := m\<rparr>)) ps" "?S \<subseteq> free_frames (pages (k\<lparr>mmu := m\<rparr>))"
        "free_frames ps = free_frames (pages (k\<lparr>mmu := m\<rparr>)) - ?S" using sf(1) S by simp_all
      note tk = take_frames [OF own1 this]
      have ut: "user_table ?k1 t" using live by (simp add: user_table_def)
      have o1: "kown {} ?k1" using touchesD(2) [OF tk(1)] by simp
      have dis: "?I \<inter> ?S = {}" using h(1) S(1) by (auto simp: held_def)
      have hI: "held ?I ps" by (rule held_mono [OF h(1)]) (use sf(1) S(2) in \<open>auto simp: same_frames_def\<close>)
      obtain tr k2 where tp: "map_signal_trampoline t ?k1 = (tr, k2)" by fastforce
      note tf = trampoline_frames [OF o1 ut tp]
      let ?F = "?I \<union> ?S \<union> set_option tr"
      have dis2: "set_option tr \<inter> (?I \<union> ?S) = {}" using tf(3) hI tk(2) by (auto simp: held_def)
      have man: "managed_frames (pages k2) = managed_frames ps" using touchesD(8) [OF tf(1)] by simp
      have hF: "held ?F (pages k2)"
      proof -
        have "held ?I (pages k2)" "held ?S (pages k2)"
          by (rule held_mono [OF hI], use man tf(2) in auto) (rule held_mono [OF tk(2)], use man tf(2) in auto)
        moreover have "held (set_option tr) (pages k2)"
          using tf(2,3) man free_frames_managed [of ps] ownedD(8) [OF o1] by (auto simp: held_def)
        ultimately show ?thesis by (auto simp: held_def)
      qed
      have pF: "placed t (space_page l ?S) ?F (mmu k2)"
      proof -
        have none: "f \<notin> ?F" if "(t', va, f) \<in> umaps m" for t' va f
        proof -
          have "f \<notin> ?I" "f \<notin> ?S" using that h(2) tk(3) n(2) by (auto simp: unmapped_def)
          moreover have "f \<notin> set_option tr" using ownedD(6) [OF o1, of t' va f] that tf(3) by auto
          ultimately show ?thesis by blast
        qed
        then show ?thesis
          using tf(4) dis2 unfolding placed_def by (cases tr) (auto simp: space_page_def)
      qed
      have ut2: "user_table k2 t" using touchesD(5) [OF tf(1)] ut by simp
      note o2 = touchesD(2) [OF tf(1)]
      define mr where "mr = (if tr = None then (False, mmu k2) else map_space t l sb (mmu k2))"
      obtain ok m2 where mr: "mr = (ok, m2)" by fastforce
      let ?k3 = "k2\<lparr>mmu := m2\<rparr>"
      have step: "touches t UNIV k2 ?k3 \<and> placed t (space_page l ?S) ?F m2 \<and> (ok \<longrightarrow> (\<forall>i<STACK_PAGES. mapped t (page_at sb i) ?k3))"
      proof (cases "tr = None")
        case True
        then have "ok = False" "m2 = mmu k2" using mr by (simp_all add: mr_def)
        then show ?thesis using touches_refl [OF o2] pF by simp
      next
        case False
        then have ms: "map_space t l sb (mmu k2) = (ok, m2)" using mr by (auto simp: mr_def)
        show ?thesis
          using map_space_held [OF o2 ut2 fit hF pF _ refl _ dis ms] by blast
      qed
      have t13: "touches t UNIV ?k1 ?k3" by (rule touches_trans [OF tf(1)]) (use step in auto)
      obtain x y where e3: "?k3 = ?k1\<lparr>mmu := x, pages := y\<rparr>" using touchesD(1) [OF t13] by blast
      have k3: "procs ?k3 = procs k" "current ?k3 = current k" unfolding e3 by simp_all
      have sp3: "live_l1 m2 = live_l1 m" "l1_base m2 = l1_base (mmu k)" using touchesD(3) [OF t13] n(3) by (simp_all add: same_spaces_def)
      have um: "umaps (mmu k) = {x \<in> umaps m2. fst x \<noteq> t}"
      proof (intro set_eqI)
        fix x :: "usize \<times> usize \<times> usize" obtain t' va g where x: "x = (t', va, g)" by (cases x)
        show "x \<in> umaps (mmu k) \<longleftrightarrow> x \<in> {x \<in> umaps m2. fst x \<noteq> t}" using touchesD(4) [OF t13, of t' va g] n(2) old x by auto
      qed
      have live3: "live_l1 (mmu ?k3) t" "t \<noteq> l1_base (mmu ?k3)" using live sp3 n(3) by simp_all
      have hF3: "held ?F (pages ?k3)" and pF3: "placed t (space_page l ?S) ?F (mmu ?k3)" using hF step by simp_all
      have o3: "kown {} ?k3" using touchesD(2) [OF t13] .
      have man3: "managed_frames (pages k2) = managed_frames (pages k)" using man sf(1) by (simp add: same_frames_def)
      show ?thesis
      proof (cases ok)
        case False
        define ps3 where "ps3 = snd (free_contiguous sb STACK_PAGES (free_unspawned_image l
          (case tr of None \<Rightarrow> pages k2 | Some phys \<Rightarrow> free_page phys (pages k2))))"
        let ?k4 = "k2\<lparr>pages := ps3, mmu := snd (free_addr_space t m2)\<rparr>"
        have e: "snd (spawn_user l k) = ?k4"
          using Some al a st sb tp False mr by (simp add: spawn_user_space m_def [symmetric] mr_def [symmetric] Let_def ps3_def)
        have undo: "owned ({t} \<times> UNIV) m2 ps3" "managed_frames ps3 = managed_frames (pages k2)"
          using spawn_undo [OF o3 live3 hF3 pF3 refl dis dis2] by (cases tr; simp add: ps3_def)+
        note f = owned_free_space [OF undo(1) order_refl] and l2 = live3 [simplified]
        have "memory_kept k ?k4" unfolding memory_kept_def using f [OF l2] undo(2) man3 um sp3 n(4,5) k3 by auto
        then show ?thesis unfolding e by (rule kinv_restored [OF inv]) (use k3 in simp)
      next
        case True
        let ?p = "new_process slot (context_initial (of_nat (l_entry l)) (of_nat (page_at sb STACK_PAGES)) 0x10) (current k) t sb"
        let ?k4 = "?k3\<lparr>procs := (procs k)[slot := Some ?p]\<rparr>"
        have e: "snd (spawn_user l k) = ?k4"
          using Some al a st sb tp True mr k3
          by (simp add: spawn_user_space m_def [symmetric] mr_def [symmetric] Let_def install_def)
        have manS: "?S \<subseteq> managed_frames (pages ?k3)" using hF3 by (auto simp: held_def)
        note sp = stack_page [OF manS o3]
        have "sb \<in> ?S" unfolding run_frames_def by (intro image_eqI [where x = 0]) (simp_all add: const_defs)
        then have "sb < USIZE_MOD" using managed_frame(2) [OF o3] manS by blast
        then have "space_ok ?k3 ?p"
          by (intro new_process_ok [OF _ o3]) (use sp(4) step True live3 in \<open>auto simp: user_table_def\<close>)
        then have "space_ok ?k4 ?p" using space_ok_cong(1) [of ?k4 ?k3 ?p] by simp
        moreover have "memory_kept k ?k4" unfolding memory_kept_def using o3 man3 um sp3 n(4) k3 by auto
        moreover have "p_pid ?p = slot" "\<not> live_l1 (mmu k) (page_table_phys ?p)" using n(5) by (simp_all add: new_process_def)
        moreover have "procs ?k4 = (procs k)[slot := Some ?p]" by simp
        ultimately show ?thesis unfolding e using kinv_install [OF inv _ _ slot] by blast
      qed
    qed
  qed
qed

lemma spawn_image_kinv:
  assumes inv: "kinv k"
  shows "kinv (snd (spawn_image data k))"
proof -
  obtain r ps where load: "load_confined data USER_TEXT_BASE RAM_END (pages k) = (r, ps)" by fastforce
  note lf = load_frames [OF kinvD(1) [OF inv] load, of 0 "{}"]
  show ?thesis
  proof (cases r)
    case (Inl e)
    then show ?thesis using load lf inv by (simp add: spawn_image_def)
  next
    case (Inr l)
    then have l: "image_fits l" "held (image_frames l) ps" "unmapped (image_frames l) (mmu k)" "touches 0 {} k (k\<lparr>pages := ps\<rparr>)"
      using lf by simp_all
    have "kinv (k\<lparr>pages := ps\<rparr>)"
      by (rule kinv_restored [OF inv]) (use touchesD(2,8) [OF l(4)] in \<open>simp_all add: memory_kept_def\<close>)
    then show ?thesis using spawn_user_kinv [of "k\<lparr>pages := ps\<rparr>" l] l load Inr by (simp add: spawn_image_def)
  qed
qed

lemma restart_kinv:
  assumes inv: "kinv k"
  shows "kinv (snd (restart_supervised path plan k))"
proof -
  let ?k = "k\<lparr>mmu := switch_addr_space (table_base (mmu k)) (mmu k)\<rparr>"
  have k0: "kinv ?k" by (rule same_memory_kinv [OF inv same_memory_switch [OF kinvD(3) [OF inv]]])
  show ?thesis
  proof (cases plan)
    case None
    then show ?thesis using k0 by (simp add: restart_supervised_def Let_def)
  next
    case (Some data)
    note s = spawn_image_kinv [OF k0, of data]
    have "kinv (k'\<lparr>supervision := sv\<rparr>)" if "kinv k'" for k' sv
      by (rule same_memory_kinv [OF that same_memory_cong]) (use kinvD(3) [OF that] in simp_all)
    then show ?thesis using s Some by (auto simp: restart_supervised_def Let_def split: prod.splits option.splits)
  qed
qed

end
