(* ===== verification/Reachable.thy ===== *)
theory Reachable
  imports Spawning
begin

text \<open>
  The states the kernel reaches from boot by any sequence of its operations, and what holds in all
  of them: every frame of the allocator that a process can reach is allocated and is mapped at one
  page of one address space only.
\<close>

section \<open>Operations\<close>

datatype kernel_op =
    OpSched sched_op
  | OpKill u32 u32
  | OpSigaction u32 u32
  | OpDeliver cpu_context signal u32
  | OpWaitpid u32
  | OpSend u32 u32 u32 u32
  | OpRecv
  | OpAllocPage
  | OpExit i32
  | OpFault fault_kind
  | OpSpawn "u8 list"
  | OpRestart string "u8 list option"
  | OpFork
  | OpBrk u32
  | OpMmap u32 u32 u32 u32
  | OpMunmap u32 u32
  | OpMprotect u32 u32 u32

text \<open>\<open>None\<close> when the last runnable process exits and the processor parks.\<close>

fun perform :: "kernel_op \<Rightarrow> kernel \<Rightarrow> kernel option" where
  "perform (OpSched op) k = Some (exec op k)"
| "perform (OpKill p s) k = Some (snd (sys_kill p s k))"
| "perform (OpSigaction s h) k = Some (snd (sys_sigaction s h k))"
| "perform (OpDeliver f s h) k = Some (snd (deliver f s h k))"
| "perform (OpWaitpid p) k = Some (snd (sys_waitpid p k))"
| "perform (OpSend p tag ptr len) k = Some (snd (sys_send p tag ptr len k))"
| "perform OpRecv k = Some (snd (sys_recv k))"
| "perform OpAllocPage k = Some (snd (sys_alloc_page k))"
| "perform (OpExit st) k = map_option snd (exit_current st k)"
| "perform (OpFault kind) k = fault_exit_current kind k"
| "perform (OpSpawn data) k = Some (snd (spawn_image data k))"
| "perform (OpRestart path plan) k = Some (snd (restart_supervised path plan k))"
| "perform OpFork k = Some (snd (sys_fork k))"
| "perform (OpBrk a) k = Some (snd (sys_brk a k))"
| "perform (OpMmap a len prot fl) k = Some (snd (sys_mmap a len prot fl k))"
| "perform (OpMunmap a len) k = Some (snd (sys_munmap a len k))"
| "perform (OpMprotect a len prot) k = Some (snd (sys_mprotect a len prot k))"

text \<open>A system call of a user process: it runs in user mode on an address space of its own.\<close>

definition user_caller :: "kernel \<Rightarrow> bool" where
  "user_caller k \<longleftrightarrow> (case cur_proc k of None \<Rightarrow> False | Some p \<Rightarrow>
     own_table k p \<and> ctx_cpsr (active_frame_ctx_or (p_ctx p) k) AND CPSR_MODE_MASK = CPSR_MODE_USER)"

fun admitted :: "kernel_op \<Rightarrow> kernel \<Rightarrow> bool" where
  "admitted (OpMmap a len prot fl) k \<longleftrightarrow> user_caller k \<and> div_ceil (unat len) PAGE_SIZE < 0xE0000"
| "admitted (OpBrk a) k \<longleftrightarrow> user_caller k"
| "admitted (OpMunmap a len) k \<longleftrightarrow> user_caller k"
| "admitted (OpMprotect a len prot) k \<longleftrightarrow> user_caller k"
| "admitted OpFork k \<longleftrightarrow> user_caller k"
| "admitted op k \<longleftrightarrow> True"

inductive kernel_reachable :: "kernel \<Rightarrow> bool" where
  boot: "kernel_reachable boot_kernel"
| step: "\<lbrakk>kernel_reachable k; admitted op k; perform op k = Some k'\<rbrakk> \<Longrightarrow> kernel_reachable k'"

section \<open>The invariant\<close>

lemma boot_owned: "owned {} boot_mmu boot_pages"
proof -
  note b = boot_tables [OF mmu_statics_layout, where ts = "0x40008000" and et = "0x40080000" and er = "0x400A0000", folded boot_mmu_def]
  have s: "l2_alloc mmu_statics = 0" "addr_space_alloc mmu_statics = 0" by (simp_all add: mmu_statics_def)
  note t = b [OF s]
  have none: "umaps boot_mmu = {}" using t(2,3) by (auto simp: umaps_def)
  have "low_plain boot_mmu" using t(2,4) by (auto simp: low_plain_def)
  moreover have "user_window f" if "f \<in> free_frames boot_pages" for f
    using that by (auto simp: boot_frames user_window_iff const_defs)
  ultimately show ?thesis
    unfolding owned_def none using t(1) boot_pages(1,3) by auto
qed

lemma boot_kinv: "kinv boot_kernel"
proof -
  obtain p where p: "procs boot_kernel = Some p # replicate 15 None" "page_table_phys p = table_base boot_mmu"
    by (rule boot_procs)
  have sp: "stack_pages p = 0"
    using arg_cong [where f = "\<lambda>xs. xs ! 0", OF p(1)]
    by (auto simp: boot_kernel_def enable_scheduling_def process_init_def kernel_statics_def MAX_PROCS_def)
  have "\<not> own_table boot_kernel p" using p(2) by (simp add: own_table_def)
  then have "space_ok boot_kernel p" "\<not> own_table boot_kernel p" using sp by (simp_all add: space_ok_def)
  moreover have "i = 0 \<and> q = p" if "i < MAX_PROCS" "procs boot_kernel ! i = Some q" for i q
    using that p(1) by (cases i) (auto simp: const_defs)
  ultimately show ?thesis
    unfolding kinv_def using boot_owned boot_kernel_wf by auto
qed

lemma alloc_page_kinv:
  assumes inv: "kinv k"
  shows "kinv (snd (sys_alloc_page k))"
proof -
  obtain a ps where al: "alloc_page (pages k) = (a, ps)" by fastforce
  have t: "touches 0 {} k (k\<lparr>pages := ps\<rparr>)" by (rule alloc_touches(1) [OF kinvD(1) [OF inv] al])
  from touchesD(2,8) [OF t] have "kinv (k\<lparr>pages := ps\<rparr>)" by (intro kinv_restored [OF inv]) (simp_all add: memory_kept_def)
  then show ?thesis using al by (simp add: sys_alloc_page_def split: option.splits)
qed

lemma user_callerD:
  assumes "user_caller k"
  obtains p where "cur_proc k = Some p" "own_table k p"
    "\<And>q. cur_proc k = Some q \<Longrightarrow> ctx_cpsr (active_frame_ctx_or (p_ctx q) k) AND CPSR_MODE_MASK = CPSR_MODE_USER"
  using assms by (auto simp: user_caller_def split: option.splits)

lemma perform_kinv:
  assumes inv: "kinv k" and adm: "admitted op k" and run: "perform op k = Some k'"
  shows "kinv k'"
proof -
  note wf = kinvD(6) [OF inv] and sm = same_memory_kinv [OF inv]
  show ?thesis
  proof (cases op)
    case OpFork
    then have "user_caller k" using adm by simp
    then obtain p where "cur_proc k = Some p"
      "\<And>q. cur_proc k = Some q \<Longrightarrow> ctx_cpsr (active_frame_ctx_or (p_ctx q) k) AND CPSR_MODE_MASK = CPSR_MODE_USER"
      by (rule user_callerD) blast
    from sys_fork_kinv [OF inv this(2,1)] show ?thesis using run OpFork by simp
  next
    case (OpBrk a)
    then obtain p where "cur_proc k = Some p" "own_table k p" using adm by (auto elim: user_callerD)
    from brk_kinv [OF inv this] show ?thesis using run OpBrk by auto
  next
    case (OpMmap a len prot fl)
    then obtain p where p: "cur_proc k = Some p" "own_table k p" using adm by (auto elim: user_callerD)
    from mmap_kinv [OF inv p] show ?thesis using run adm OpMmap by auto
  next
    case (OpMunmap a len)
    then obtain p where "cur_proc k = Some p" "own_table k p" using adm by (auto elim: user_callerD)
    from munmap_kinv [OF inv this] show ?thesis using run OpMunmap by auto
  next
    case (OpMprotect a len prot)
    then obtain p where "cur_proc k = Some p" "own_table k p" using adm by (auto elim: user_callerD)
    from mprotect_kinv [OF inv this] show ?thesis using run OpMprotect by auto
  next
    case (OpExit st)
    then show ?thesis using run exit_current_kinv [OF inv, of st "fst x" "snd x" for x] by auto
  qed (use run inv sm [OF exec_memory [OF wf]] sm [OF kill_memory [OF wf]] sm [OF sigaction_memory [OF wf]] sm [OF deliver_memory [OF wf]]
      sm [OF sys_waitpid_memory [OF wf]] sm [OF send_recv_memory(1) [OF wf]] sm [OF send_recv_memory(2) [OF wf]]
      alloc_page_kinv [OF inv] fault_exit_kinv [OF inv] spawn_image_kinv [OF inv] restart_kinv [OF inv] in auto)
qed

lemma reachable_kinv: "kernel_reachable k \<Longrightarrow> kinv k"
  by (induction rule: kernel_reachable.induct) (auto intro: boot_kinv perform_kinv)

section \<open>A first process\<close>

text \<open>Granting a page of DRAM succeeds while second-level tables are left.\<close>

definition splittable :: "mmu_state \<Rightarrow> usize \<Rightarrow> bool" where
  "splittable m t \<longleftrightarrow> (\<forall>i. KERNEL_MB + KERNEL_SECTIONS \<le> i \<and> i < 0x800 \<longrightarrow> tbl m (t + 4 * i) AND 0b11 = SECTION \<or> pt_entry m t i)"

definition l2_used :: "mmu_state \<Rightarrow> nat" where
  "l2_used m = card {s. s < L2_POOL_SIZE \<and> bit (l2_alloc m) s}"

lemma alloc_l2_ok:
  assumes "l2_used m < L2_POOL_SIZE"
  obtains a m1 where "alloc_l2_table m = (Some a, m1)"
proof -
  have "\<exists>s<L2_POOL_SIZE. \<not> bit (l2_alloc m) s"
  proof (rule ccontr)
    assume "\<not> (\<exists>s<L2_POOL_SIZE. \<not> bit (l2_alloc m) s)"
    then have "{s. s < L2_POOL_SIZE \<and> bit (l2_alloc m) s} = {..<L2_POOL_SIZE}" by auto
    then show False using assms by (simp add: l2_used_def)
  qed
  then obtain s where s: "s < L2_POOL_SIZE" "\<not> bit (l2_alloc m) s" by blast
  have "s < LENGTH(64)" using s(1) by (simp add: mmu_sizes)
  then have "l2_alloc m AND push_bit s 1 = 0" using s(2) mask_bit_test by blast
  then have "find (\<lambda>i. l2_alloc m AND push_bit i 1 = 0) [0..<L2_POOL_SIZE] \<noteq> None" using s(1) by (auto simp: find_upt_None)
  then show thesis using that by (auto simp: alloc_l2_table_def)
qed

lemma l2_used_alloc:
  assumes "alloc_l2_table m = (Some a, m1)"
  shows "l2_used m1 \<le> l2_used m + 1"
proof -
  obtain s where s: "\<And>i. bit (l2_alloc m1) i \<longleftrightarrow> i = s \<or> bit (l2_alloc m) i" using alloc_l2_SomeE [OF assms] by metis
  have "{i. i < L2_POOL_SIZE \<and> bit (l2_alloc m1) i} \<subseteq> insert s {i. i < L2_POOL_SIZE \<and> bit (l2_alloc m) i}" using s by auto
  then have "l2_used m1 \<le> card (insert s {i. i < L2_POOL_SIZE \<and> bit (l2_alloc m) i})" unfolding l2_used_def by (rule card_mono [rotated]) simp
  also have "\<dots> \<le> l2_used m + 1" unfolding l2_used_def by (simp add: card_insert_if)
  finally show ?thesis .
qed

lemma shatter_ok:
  assumes ok: "tables_ok m" and t: "live_l1 m t" "t \<noteq> l1_base m" and sp: "splittable m t" and used: "l2_used m < L2_POOL_SIZE"
    and va: "KERNEL_END \<le> va" "va < RAM_END" and sh: "shatter_section t va m = (r, m')"
  shows "r" "splittable m' t" "l2_used m' \<le> l2_used m + 1" "pt_entry m' t (l1_index va)"
proof -
  have inv: "mmu_inv m" using ok by (simp add: tables_ok_def)
  have i: "KERNEL_MB + KERNEL_SECTIONS \<le> l1_index va" "l1_index va < 0x800" "l1_index va < 4096"
    using va by (simp_all add: l1_index_def const_defs)
  have win: "user_window va" using va by (simp add: user_window_iff const_defs)
  from sh have "r \<and> splittable m' t \<and> l2_used m' \<le> l2_used m + 1 \<and> pt_entry m' t (l1_index va)"
  proof (cases rule: shatter_section_cases)
    case present
    then show ?thesis using sp by simp
  next
    case (fresh a m1)
    obtain s where s: "s < L2_POOL_SIZE" "a = l2_table_addr m s"
      "m1 = m\<lparr>l2_alloc := l2_alloc m OR push_bit s 1, tbl := fill_words (l2_table_addr m s) 256 (\<lambda>_. 0) (tbl m)\<rparr>"
      using alloc_l2_SomeE [OF fresh(2)] by metis
    have w: "tbl m' (t + 4 * j) = (if j = l1_index va then of_nat a OR L1_PAGE_TABLE else tbl m (t + 4 * j))" if "j < 4096" for j
    proof -
      have "t + 4 * j \<noteq> l2_table_addr m s + 4 * x" if "x < 256" for x
        using l1_l2_words_apart [OF mmu_invD(1) [OF inv] live_is_l1 [OF t(1)] \<open>j < 4096\<close> s(1) that] .
      then show ?thesis unfolding fresh(4) s(2,3) by (auto simp: fill_words_out)
    qed
    have pt: "(of_nat a OR L1_PAGE_TABLE :: u32) AND 0b11 = L1_PAGE_TABLE"
      using l2_table_addr_desc(2) [OF mmu_invD(1) [OF inv] s(1)] s(2) by simp
    have "l2_used m' = l2_used m1" unfolding fresh(4) by (simp add: l2_used_def)
    then have "l2_used m' \<le> l2_used m + 1" using l2_used_alloc [OF fresh(2)] by simp
    moreover have "splittable m' t" using sp w pt unfolding splittable_def pt_entry_def by (auto split: if_splits)
    moreover have "pt_entry m' t (l1_index va)" using w [OF i(3)] pt by (simp add: pt_entry_def)
    ultimately show ?thesis using fresh(3) by blast
  next
    case failed
    obtain a m1 where al: "alloc_l2_table m = (Some a, m1)" by (rule alloc_l2_ok [OF used])
    have "tbl m (t + 4 * l1_index va) AND 0b11 = SECTION \<or> pt_entry m t (l1_index va)" using sp i by (simp add: splittable_def)
    then have "r" using sh al by (auto simp: shatter_section_def Let_def pt_entry_def split: if_splits)
    then show ?thesis using failed by simp
  qed
  then show "r" "splittable m' t" "l2_used m' \<le> l2_used m + 1" "pt_entry m' t (l1_index va)" by blast+
qed

lemma grant_ok:
  assumes ok: "tables_ok m" and t: "live_l1 m t" "t \<noteq> l1_base m" and sp: "splittable m t" and used: "l2_used m < L2_POOL_SIZE"
    and va: "KERNEL_END \<le> va" "va < RAM_END" and g: "grant_page t va f at m = (r, m')"
  shows "r" "splittable m' t" "l2_used m' \<le> l2_used m + 1" "same_spaces m m'"
proof -
  obtain r1 m1 where sh: "shatter_section t va m = (r1, m1)" by fastforce
  note s = shatter_ok [OF ok t sp used va sh]
  have win: "user_window va" using va by (simp add: user_window_iff const_defs)
  have ss: "same_spaces m m1" using mm_step_spaces [OF ok t, of "MShatter va"] win sh by simp
  then have m1: "tables_ok m1" "live_l1 m1 t" "t \<noteq> l1_base m1" using t by (simp_all add: same_spaces_def)
  have mp: "map_page t va f at m1 = (r, m')" using g sh s(1) by (simp add: grant_page_def)
  have i: "l1_index va < 4096" using va by (simp add: l1_index_def const_defs)
  have m': "r" "m' = m1\<lparr>tbl := (tbl m1)(target m1 t (l1_index va) + 4 * l2_index va := (of_nat f AND 0xFFFFF000) OR at)\<rparr>"
    using mp s(4) by (auto simp: map_page_def Let_def pt_entry_def target_def)
  have inv1: "mmu_inv m1" using m1(1) by (simp add: tables_ok_def)
  have "tbl m' (t + 4 * j) = tbl m1 (t + 4 * j)" if "j < 4096" for j
    using l1_word_write [OF inv1 m1(2) i s(4) l2_index_less m1(2) that] m'(2) by simp
  then show "splittable m' t" using s(2) unfolding splittable_def pt_entry_def by auto
  show r by (rule m'(1))
  show "l2_used m' \<le> l2_used m + 1" using s(3) m'(2) by (simp add: l2_used_def)
  show "same_spaces m m'" using same_spaces_trans [OF ss] mm_step_spaces [OF m1, of "MMap va f at"] win mp by simp
qed

lemma grant_pages_ok:
  assumes "tables_ok m" "live_l1 m t" "t \<noteq> l1_base m" "splittable m t" "l2_used m + length xs \<le> L2_POOL_SIZE"
    and "\<forall>x\<in>set xs. KERNEL_END \<le> fst x \<and> fst x < RAM_END" "grant_pages t at xs m = (r, m')"
  shows "r \<and> splittable m' t \<and> l2_used m' \<le> l2_used m + length xs \<and> same_spaces m m'"
  using assms
proof (induction xs arbitrary: m)
  case Nil
  then show ?case using same_spaces_refl by auto
next
  case (Cons x xs)
  obtain va f where x: "x = (va, f)" by fastforce
  obtain r1 m1 where g: "grant_page t va f at m = (r1, m1)" by fastforce
  have used: "l2_used m < L2_POOL_SIZE" and va: "KERNEL_END \<le> va" "va < RAM_END" using Cons.prems(5,6) x by simp_all
  note s = grant_ok [OF Cons.prems(1-4) used va g]
  have run: "grant_pages t at xs m1 = (r, m')" using Cons.prems(7) x g s(1) by simp
  have "r \<and> splittable m' t \<and> l2_used m' \<le> l2_used m1 + length xs \<and> same_spaces m1 m'"
    by (rule Cons.IH) (use s Cons.prems run in \<open>auto simp: same_spaces_def\<close>)
  then show ?case using s(3,4) same_spaces_trans by auto
qed

lemma run_available:
  assumes inv: "page_inv ps" and n: "0 < n" and free: "\<forall>p. st \<le> p \<and> p < st + n \<longrightarrow> frame_addr ps p \<in> free_frames ps"
  obtains a ps' where "alloc_contiguous n ps = (Some a, ps')"
proof -
  have bit: "p < 32 * length (page_bitmap ps) \<and> \<not> page_bit (page_bitmap ps) p" if "st \<le> p" "p < st + n" for p
    using free that inj_image_mem_iff [OF inj_frame_addr] by (auto simp: free_frames_def free_set_def)
  have "st + n - 1 < 32 * length (page_bitmap ps)" using bit [of "st + n - 1"] n by linarith
  then have "st + n \<le> 32 * length (page_bitmap ps)" using n by linarith
  then have "\<not> no_fit (page_bit (page_bitmap ps)) n (32 * length (page_bitmap ps))"
    using bit unfolding no_fit_def by blast
  then obtain x where "first_fit (page_bit (page_bitmap ps)) n (32 * length (page_bitmap ps)) x" using fit_cases [OF n] by blast
  from alloc_contiguous_Some(1) [OF inv this n] show thesis using that by (cases "alloc_contiguous n ps") auto
qed

lemma boot_space:
  obtains t m0 where "alloc_addr_space boot_mmu = (Some t, m0)" "splittable (clone_addr_space (table_base m0) t m0) t"
    "l2_used (clone_addr_space (table_base m0) t m0) = 0"
proof -
  have "find (\<lambda>i. addr_space_alloc boot_mmu AND push_bit i 1 = 0) [0..<USER_TABLE_COUNT] = Some 0"
    by (rule find_first_zero) (simp_all add: boot_mmu mmu_sizes)
  then obtain t m0 where a: "alloc_addr_space boot_mmu = (Some t, m0)" "l2_alloc m0 = 0"
    by (simp add: alloc_addr_space_def boot_mmu)
  note n = alloc_addr_space_inv [OF boot_mmu(2) a(1)] and c = clone_kernel_inv [OF alloc_addr_space_inv(1-3) [OF boot_mmu(2) a(1)]]
  let ?m = "clone_addr_space (table_base m0) t m0"
  have base: "l1_base m0 = l1_base boot_mmu" using alloc_addr_space_SomeE [OF a(1)] same_layout_simps(5) by metis
  have lb: "live_l1 boot_mmu (l1_base boot_mmu)" by (simp add: live_l1_def)
  have "tbl ?m (t + 4 * i) = tbl boot_mmu (l1_base boot_mmu + 4 * i)" if "i < 4096" for i
    using c(2) [OF that] n(7) [OF lb that] base by simp
  moreover have "tbl boot_mmu (l1_base boot_mmu + 4 * i) = push_bit 20 (of_nat i) OR section_attrs Ram"
    if "KERNEL_MB + KERNEL_SECTIONS \<le> i" "i < 0x800" for i
    using init_and_enable_l1(9) [OF mmu_statics_layout that] boot_mmu(3) by (simp add: boot_mmu_def same_layout_def)
  moreover have "(push_bit 20 w OR section_attrs Ram) AND 0b11 = SECTION" for w :: u32
  proof -
    have three: "(0b11 :: u32) = mask 2" by (simp add: mask_eq_exp_minus_1)
    have "push_bit 20 w AND 0b11 = (0 :: u32)"
      unfolding three
    proof (rule bit_eqI)
      fix n show "bit (push_bit 20 w AND mask 2) n \<longleftrightarrow> bit (0 :: u32) n"
        unfolding bit_and_iff bit_push_bit_iff bit_mask_iff by auto
    qed
    then show ?thesis by (simp add: bit.conj_disj_distrib2 section_attrs_def const_defs)
  qed
  ultimately have "splittable ?m t" unfolding splittable_def by simp
  moreover have "l2_used ?m = 0" using a(2) by (simp add: l2_used_def clone_addr_space_def)
  ultimately show thesis using that a(1) by blast
qed

lemma tiny_image:
  obtains l ps where "load_confined tiny_elf USER_TEXT_BASE RAM_END boot_pages = (Inr l, ps)" "l_segments l = [(0x7FF00000, 8, 5)]"
    "same_frames boot_pages ps" "free_frames ps = free_frames boot_pages - {0x40200000}"
proof -
  let ?v = "\<lparr>v_segments = [\<lparr>s_vaddr = 0x7FF00000, s_memsz = 8, s_filesz = 4, s_offset = 84, s_flags = 5\<rparr>], total_pages = 1\<rparr>"
  have free: "\<not> free_count boot_pages < 1" using boot_pages(1,4) by (simp add: free_count_def page_inv_def)
  obtain ps1 where al: "alloc_contiguous 1 boot_pages = (Some (frame_addr boot_pages 512), ps1)"
    using boot_alloc_run [of 1] by (cases "alloc_contiguous 1 boot_pages") simp
  have a: "frame_addr boot_pages 512 = 0x40200000" using boot_pages(3) by (simp add: frame_addr_def const_defs)
  have "plan_confined_image ?v USER_TEXT_BASE RAM_END boot_pages = (Inr (0x40200000, 0x7FF00000), ps1)"
    using al a by (simp add: plan_confined_image_def div_ceil_def const_defs)
  then obtain l ram where l: "load_confined tiny_elf USER_TEXT_BASE RAM_END boot_pages = (Inr l, ps1\<lparr>phys_mem := ram\<rparr>)" "l_segments l = [(0x7FF00000, 8, 5)]"
    using tiny_elf_valid free by (simp add: load_confined_def)
  note f = alloc_run_frames [OF boot_pages(1) al]
  have "free_frames ps1 = free_frames boot_pages - {0x40200000}" using f(3) a by (auto simp: run_frames_def)
  then show thesis using that [OF l] f(1) by simp
qed

lemma first_process:
  obtains k p where "spawn_image tiny_elf boot_kernel = (Some 1, k)" "procs k ! 1 = Some p" "own_table k p" "stack_pages p = 4"
proof -
  obtain l ps1 where l: "load_confined tiny_elf USER_TEXT_BASE RAM_END boot_pages = (Inr l, ps1)" "l_segments l = [(0x7FF00000, 8, 5)]"
    "same_frames boot_pages ps1" "free_frames ps1 = free_frames boot_pages - {0x40200000}" by (rule tiny_image)
  obtain t m0 where t: "alloc_addr_space boot_mmu = (Some t, m0)" "splittable (clone_addr_space (table_base m0) t m0) t"
    "l2_used (clone_addr_space (table_base m0) t m0) = 0" by (rule boot_space)
  define m where "m = clone_addr_space (table_base m0) t m0"
  note t = t [folded m_def]
  have inv1: "page_inv ps1" and fp: "first_page ps1 = RAM_START" using l(3) boot_pages(3) by (simp_all add: same_frames_def)
  have fr: "frame_addr ps1 p \<in> free_frames ps1" if "513 \<le> p" "p < 261888" for p
    using that by (auto simp: l(4) boot_frames frame_addr_def fp const_defs)
  obtain sb ps2 where sb: "alloc_contiguous STACK_PAGES ps1 = (Some sb, ps2)"
    by (rule run_available [OF inv1, of STACK_PAGES 513]) (use fr in \<open>auto simp: const_defs\<close>)
  note sf = alloc_run_frames [OF inv1 sb]
  have n: "owned {} m boot_pages" "\<And>t'. live_l1 m t' \<longleftrightarrow> t' = t \<or> live_l1 boot_mmu t'" "t \<noteq> l1_base m"
    using owned_new_space [OF boot_owned t(1), folded m_def] by auto
  have lt: "live_l1 m t" "t \<noteq> l1_base m" "tables_ok m" using n ownedD(1) by auto
  let ?k0 = "boot_kernel\<lparr>pages := ps1\<rparr>" and ?k1 = "boot_kernel\<lparr>pages := ps2, mmu := m\<rparr>"
  have big: "frame_addr ps1 600 \<in> free_frames ps2 \<or> frame_addr ps1 700 \<in> free_frames ps2"
  proof -
    have in_run: "sb \<le> x \<and> x \<le> sb + 3 * 4096" if "x \<in> run_frames sb STACK_PAGES" for x using that by (auto simp: run_frames_def const_defs)
    moreover have "frame_addr ps1 700 = frame_addr ps1 600 + 100 * 4096" by (simp add: frame_addr_def const_defs)
    ultimately have "frame_addr ps1 600 \<notin> run_frames sb STACK_PAGES \<or> frame_addr ps1 700 \<notin> run_frames sb STACK_PAGES"
      using in_run [of "frame_addr ps1 600"] in_run [of "frame_addr ps1 700"] by linarith
    then show ?thesis using sf(3) fr [of 600] fr [of 700] by auto
  qed
  have inv2: "page_inv ps2" using sf(1) by (simp add: same_frames_def)
  obtain f ps3 where f: "alloc_page ps2 = (Some f, ps3)"
    using pa.alloc_some [OF inv2] big by (cases "alloc_page ps2") (auto simp: fst_def split: prod.splits)
  obtain r1 m1 where g: "grant_page t SIGNAL_TRAMPOLINE_VA f (prot_to_l2_flags (PROT_READ OR PROT_EXEC)) m = (r1, m1)" by fastforce
  have tv: "KERNEL_END \<le> SIGNAL_TRAMPOLINE_VA" "SIGNAL_TRAMPOLINE_VA < RAM_END" by (simp_all add: const_defs)
  have u0: "l2_used m < L2_POOL_SIZE" using t(3) by (simp add: mmu_sizes)
  note s1 = grant_ok [OF lt(3,1,2) t(2) u0 tv g]
  have lt1: "live_l1 m1 t" "t \<noteq> l1_base m1" "tables_ok m1" using s1(4) lt by (simp_all add: same_spaces_def)
  define k2 where "k2 = ?k1\<lparr>pages := ps3\<lparr>phys_mem := write_trampoline_page f (phys_mem ps3)\<rparr>, mmu := m1\<rparr>"
  have tr: "map_signal_trampoline t (?k0\<lparr>mmu := m, pages := ps2\<rparr>) = (Some f, k2)"
    using f g s1(1) by (simp add: map_signal_trampoline_def k2_def)
  let ?seg = "segment_pages l 0x7FF00000 8"
  obtain r2 m2 where im: "grant_pages t (prot_to_l2_flags (flags_to_prot 5)) ?seg m1 = (r2, m2)" by fastforce
  have "div_ceil 8 PAGE_SIZE = 1" by (simp add: div_ceil_def const_defs)
  moreover have "page_at 0x7FF00000 0 = 0x7FF00000" using page_at_exact [of "0x7FF00000" 0] by (simp add: USIZE_MOD_def)
  ultimately have seg: "length ?seg = 1" "\<forall>x\<in>set ?seg. KERNEL_END \<le> fst x \<and> fst x < RAM_END"
    by (simp_all add: segment_pages_def Let_def const_defs)
  have "l2_used m1 + length ?seg \<le> L2_POOL_SIZE" using s1(3) t(3) seg(1) by (simp add: mmu_sizes)
  note s2 = grant_pages_ok [OF lt1(3,1,2) s1(2) this seg(2) im]
  have lt2: "live_l1 m2 t" "t \<noteq> l1_base m2" "tables_ok m2" using s2 lt1 by (simp_all add: same_spaces_def)
  let ?st = "map (\<lambda>i. (page_at sb i, page_at sb i)) [0..<STACK_PAGES]"
  obtain r3 m3 where st: "grant_pages t (prot_to_l2_flags (PROT_READ OR PROT_WRITE)) ?st m2 = (r3, m3)" by fastforce
  have "\<forall>x\<in>set ?st. KERNEL_END \<le> fst x \<and> fst x < RAM_END"
  proof
    fix x assume "x \<in> set ?st"
    then obtain i where i: "i < STACK_PAGES" "x = (page_at sb i, page_at sb i)" by auto
    have "sb + i * 4096 \<in> run_frames sb STACK_PAGES" using i(1) by (auto simp: run_frames_def)
    then have "sb + i * 4096 \<in> free_frames boot_pages" using sf(3) l(4) by auto
    then have b: "KERNEL_END \<le> sb + i * 4096" "sb + i * 4096 < RAM_END" by (auto simp: boot_frames const_defs)
    then have "page_at sb i = sb + i * 4096" by (intro page_at_exact) (simp add: const_defs)
    then show "KERNEL_END \<le> fst x \<and> fst x < RAM_END" using b i(2) by simp
  qed
  moreover have "l2_used m2 + length ?st \<le> L2_POOL_SIZE" using s1(3) s2 t(3) seg(1) by (simp add: mmu_sizes const_defs)
  ultimately have s3: "r3" "same_spaces m2 m3" using grant_pages_ok [OF lt2(3,1,2) _ _ _ st] s2 by blast+
  have ms: "map_space t l sb (mmu k2) = (True, m3)"
    using im st s2 s3 l(2) by (simp add: map_space_def map_user_image_def map_user_stack_def k2_def const_defs)
  obtain q where q: "procs boot_kernel = Some q # replicate 15 None" by (rule boot_procs)
  have slot: "find_index Option.is_none (procs ?k0) = Some 1"
    by (rule find_index_SomeI) (simp_all add: q less_Suc_eq)
  let ?p = "new_process 1 (context_initial (of_nat (l_entry l)) (of_nat (page_at sb STACK_PAGES)) 0x10) (current boot_kernel) t sb"
  let ?fin = "k2\<lparr>mmu := m3, procs := (procs boot_kernel)[1 := Some ?p]\<rparr>"
  have pk2: "procs k2 = procs boot_kernel" by (simp add: k2_def)
  have "spawn_user l ?k0 = (Some 1, ?fin)"
    using slot t(1) sb tr ms pk2 by (simp add: spawn_user_space m_def [symmetric] Let_def install_def)
  then have sp: "spawn_image tiny_elf boot_kernel = (Some 1, ?fin)" using l(1) by (simp add: spawn_image_def)
  have "t \<noteq> 0" by (rule live_not_null [OF n(1) lt(1)])
  moreover have "table_base m3 = table_base m" "l1_base m = table_base m"
    using s1(4) s2 s3(2) by (simp_all add: same_spaces_def table_base_def)
  ultimately have "own_table ?fin ?p" using lt(2) by (simp add: own_table_def new_process_def)
  then show thesis using that [OF sp, of ?p] q by (simp add: new_process_def STACK_PAGES_def)
qed

section \<open>Properties\<close>

text \<open>Process \<open>i\<close> has frame \<open>f\<close> mapped for user access at page \<open>va\<close> of its own address space.\<close>

definition user_page :: "kernel \<Rightarrow> pid \<Rightarrow> usize \<Rightarrow> usize \<Rightarrow> bool" where
  "user_page k i va f \<longleftrightarrow> i < MAX_PROCS \<and> vpage va \<and> (case procs k ! i of None \<Rightarrow> False | Some p \<Rightarrow>
     own_table k p \<and> (case read_l2_entry (page_table_phys p) va (mmu k) of None \<Rightarrow> False | Some e \<Rightarrow>
       l2_entry_is_user e \<and> read_l2_phys (page_table_phys p) va (mmu k) = Some f))"

lemma user_page_umaps:
  assumes "kinv k" "user_page k i va f"
  obtains p where "i < MAX_PROCS" "procs k ! i = Some p" "own_table k p" "(page_table_phys p, va, f) \<in> umaps (mmu k)"
proof -
  obtain p e where p: "i < MAX_PROCS" "vpage va" "procs k ! i = Some p" "own_table k p"
    "read_l2_entry (page_table_phys p) va (mmu k) = Some e" "l2_entry_is_user e" "read_l2_phys (page_table_phys p) va (mmu k) = Some f"
    using assms(2) by (auto simp: user_page_def split: option.splits)
  have "live_l1 (mmu k) (page_table_phys p)" using kinvD(4) [OF assms(1) p(1,3)] p(4) by (simp add: space_ok_def user_table_def)
  moreover have "pte (mmu k) (page_table_phys p) va = Some e" using p(5) user_entry_valid [OF p(6)] by (simp add: pte_def)
  ultimately have "(page_table_phys p, va, f) \<in> umaps (mmu k)"
    using p(2,6,7) by (simp add: umaps_iff uframe_def read_l2_phys_pte)
  then show thesis using that p by blast
qed

lemma mapped_user_page:
  assumes "i < MAX_PROCS" "procs k ! i = Some p" "own_table k p" "mapped (page_table_phys p) va k"
  shows "\<exists>f. user_page k i va f \<and> f \<in> managed_frames (pages k)"
  using assms
  by (auto simp: mapped_def umaps_iff uframe_def pte_def user_page_def read_l2_phys_pte split: option.splits if_splits)


text \<open>The state after boot has spawned one image.\<close>

lemma spawned_state:
  obtains k va f where "kernel_reachable k" "user_page k 1 va f" "f \<in> managed_frames (pages k)"
proof -
  obtain k p where k: "spawn_image tiny_elf boot_kernel = (Some 1, k)" "procs k ! 1 = Some p" "own_table k p" "stack_pages p = 4"
    by (rule first_process)
  have r: "kernel_reachable k"
    using kernel_reachable.step [OF kernel_reachable.boot, of "OpSpawn tiny_elf" k] k(1) by simp
  have one: "1 < MAX_PROCS" by (simp add: const_defs)
  have "mapped (page_table_phys p) (page_at (stack_base p) 0) k"
    using kinvD(4) [OF reachable_kinv [OF r] one k(2)] k(3,4) by (simp add: space_ok_def)
  from mapped_user_page [OF one k(2,3) this] show thesis using that r by blast
qed


text \<open>C35: \<open>FreePage\<close> does not ask who owns the page. In every reachable state, whoever runs, the call on
  the address of a frame that some process has mapped succeeds and puts the frame back into the free
  set while the process still has it mapped, so that it can be handed out a second time.\<close>

theorem free_page_ignores_owner:
  assumes "kernel_reachable k" "user_page k i va f" "f \<in> managed_frames (pages k)"
  shows "case sys_free_page (of_nat f) k of (r, k') \<Rightarrow> r = 0 \<and> user_page k' i va f \<and> f \<in> free_frames (pages k')"
proof -
  note inv = reachable_kinv [OF assms(1)]
  note own = kinvD(1) [OF inv] and m = managed_frame [OF kinvD(1) [OF inv] assms(3)]
  obtain p :: process where p: "(page_table_phys p, va, f) \<in> umaps (mmu k)" by (rule user_page_umaps [OF inv assms(2)]) blast
  have nf: "f \<notin> free_frames (pages k)" using ownedD(6) [OF own p] by simp
  have ke: "KERNEL_END \<le> f" using ownedD(9) [OF own p assms(3)] m(3) by (auto simp: user_window_iff)
  have un: "unat (of_nat f :: u32) = f" using m(2) by (simp add: unat_of_nat USIZE_MOD_def)
  have lim: "f < RAM_END" using assms(3) ownedD(3,4) [OF own] by (auto simp: managed_frames_def frame_addr_def page_inv_def const_defs)
  have "is_freeable_user_page f" using ke lim m(1) by (simp add: is_freeable_user_page_def const_defs)
  moreover have "fst (try_free_page f (pages k))" "f \<in> free_frames (snd (try_free_page f (pages k)))"
    using pa.release_ok [OF ownedD(3) [OF own] assms(3) nf] by auto
  ultimately show ?thesis
    using assms(2) by (auto simp: sys_free_page_def un case_prod_beta user_page_def own_table_def split: option.splits)
qed

theorem free_page_ignores_owner_witness:
  "\<exists>k va f. kernel_reachable k \<and> user_page k 1 va f \<and> (case sys_free_page (of_nat f) k of (r, k') \<Rightarrow> r = 0 \<and> user_page k' 1 va f \<and> f \<in> free_frames (pages k'))"
proof -
  obtain k va f where k: "kernel_reachable k" "user_page k 1 va f" "f \<in> managed_frames (pages k)" by (rule spawned_state)
  show ?thesis by (intro exI conjI) (rule k(1), rule k(2), rule free_page_ignores_owner [OF k])
qed

end
