(* ===== verification/Spec2Isabelle.thy ===== *)
theory Spec2Isabelle
  imports Page Capability Ipc Pipe Cpu Signal Supervisor Mmu Memguard Fd Delivery Reachable
begin

text \<open>
  Verification of the thumos kernel core (\<open>src/crates/thumos/src\<close>).

  \<^item> \<open>Prelude\<close>: machine types, error numbers, wrap-around arithmetic, slot tables, rings.
  \<^item> \<open>Page\<close>: the physical page allocator, \<open>page.rs\<close>.
\<close>

end
